(* ===== verification/Interfaces.thy ===== *)
theory Interfaces
  imports Prelude
begin

text \<open>
  The contracts between the components, as locales: what a client may assume of its provider,
  and the client's own lemmas proved once from these laws. Each is interpreted on the model's
  definitions in the theory of the component that provides it.
\<close>

section \<open>The cache as the engine sees it\<close>

text \<open>
  The engine may only rely on this of its cache: a lookup returns what the cache holds, a
  lookup changes nothing visible, a \<^verbatim>\<open>put\<close> can only make the cache hold the new binding in
  addition to a part of what it held, \<^verbatim>\<open>erase\<close> and \<^verbatim>\<open>clear\<close> remove. Whatever the cache evicts
  on its own is therefore harmless.
\<close>

locale cache_contract =
  fixes lookup :: "'c \<Rightarrow> 'k \<Rightarrow> 'v option"
    and inv :: "'c \<Rightarrow> bool"
    and get :: "'k \<Rightarrow> 'c \<Rightarrow> 'v option \<times> 'c"
    and put :: "'k \<Rightarrow> 'v \<Rightarrow> 'c \<Rightarrow> 'c"
    and erase :: "'k \<Rightarrow> 'c \<Rightarrow> 'c"
    and clear :: "'c \<Rightarrow> 'c"
  assumes get_result: "inv c \<Longrightarrow> fst (get k c) = lookup c k"
    and get_frame: "inv c \<Longrightarrow> lookup (snd (get k c)) = lookup c"
    and put_bound: "inv c \<Longrightarrow> lookup (put k v c) \<subseteq>\<^sub>m (lookup c)(k \<mapsto> v)"
    and erase_lookup: "inv c \<Longrightarrow> lookup (erase k c) = (lookup c)(k := None)"
    and clear_lookup: "lookup (clear c) = Map.empty"
    and inv_get: "inv c \<Longrightarrow> inv (snd (get k c))"
    and inv_put: "inv c \<Longrightarrow> inv (put k v c)"
    and inv_erase: "inv c \<Longrightarrow> inv (erase k c)"
    and inv_clear: "inv c \<Longrightarrow> inv (clear c)"
begin

text \<open>Coherence with a ground truth \<open>t\<close>: every cached binding is a binding of \<open>t\<close>.\<close>

lemma hit_is_true:
  "inv c \<Longrightarrow> lookup c \<subseteq>\<^sub>m t \<Longrightarrow> get k c = (Some v, c') \<Longrightarrow> t k = Some v"
  using get_result [of c k] by (metis fst_conv domI map_le_def)

lemma get_coherent: "inv c \<Longrightarrow> lookup c \<subseteq>\<^sub>m t \<Longrightarrow> lookup (snd (get k c)) \<subseteq>\<^sub>m t"
  by (simp add: get_frame)

lemma put_coherent: "inv c \<Longrightarrow> lookup c \<subseteq>\<^sub>m t \<Longrightarrow> lookup (put k v c) \<subseteq>\<^sub>m t(k \<mapsto> v)"
  by (rule map_le_trans [OF put_bound]) (auto simp: map_le_def)

lemma fill_coherent:
  assumes "inv c" "lookup c \<subseteq>\<^sub>m t" "t k = Some v"
  shows "lookup (put k v c) \<subseteq>\<^sub>m t"
proof -
  have "t(k \<mapsto> v) = t" using assms(3) by auto
  then show ?thesis using put_coherent [OF assms(1,2), of k v] by simp
qed

lemma erase_coherent: "inv c \<Longrightarrow> lookup c \<subseteq>\<^sub>m t \<Longrightarrow> lookup (erase k c) \<subseteq>\<^sub>m t(k := None)"
  by (auto simp: erase_lookup map_le_def)

lemma clear_coherent: "lookup (clear c) \<subseteq>\<^sub>m t"
  by (simp add: clear_lookup)

end

section \<open>Framing: records that can be told apart in a byte stream\<close>

text \<open>
  What the recovery scan relies on: no encoding is empty, and an encoded record followed by
  anything can be read in one way only. Hence a log has one reading, also when its last record
  was cut short.
\<close>

locale prefix_code =
  fixes enc :: "'r \<Rightarrow> 'b list"
    and valid :: "'r \<Rightarrow> bool"
  assumes enc_not_Nil: "valid r \<Longrightarrow> enc r \<noteq> []"
    and enc_prefix_free:
      "valid r \<Longrightarrow> valid r' \<Longrightarrow> enc r @ xs = enc r' @ ys \<Longrightarrow> r = r' \<and> xs = ys"
begin

lemma torn_not_whole:
  assumes "valid r" "valid r'" "n < length (enc r)"
  shows "take n (enc r) \<noteq> enc r' @ xs"
proof
  assume "take n (enc r) = enc r' @ xs"
  then have "enc r @ [] = enc r' @ (xs @ drop n (enc r))"
    by (metis append.assoc append.right_neutral append_take_drop_id)
  then have "xs @ drop n (enc r) = []"
    using enc_prefix_free assms(1,2) by metis
  with assms(3) show False by simp
qed

lemma torn_log_unique:
  assumes "\<forall>r \<in> set rs. valid r" "\<forall>r \<in> set rs'. valid r" "valid t" "valid t'"
    and "n < length (enc t)" "n' < length (enc t')"
    and "concat (map enc rs) @ take n (enc t) = concat (map enc rs') @ take n' (enc t')"
  shows "rs = rs'"
  using assms(1,2,7)
proof (induction rs arbitrary: rs')
  case Nil
  show ?case
  proof (cases rs')
    case (Cons r' us)
    with Nil have "take n (enc t) = enc r' @ (concat (map enc us) @ take n' (enc t'))" by simp
    with torn_not_whole [OF assms(3) _ assms(5)] Nil.prems(2) Cons show ?thesis by auto
  qed simp
next
  case (Cons r rs)
  show ?case
  proof (cases rs')
    case Nil
    with Cons.prems have "take n' (enc t') = enc r @ (concat (map enc rs) @ take n (enc t))" by simp
    with torn_not_whole [OF assms(4) _ assms(6)] Cons.prems(1) show ?thesis by auto
  next
    case (Cons r' us)
    with \<open>\<forall>r \<in> set (r # rs). valid r\<close> \<open>\<forall>r \<in> set rs'. valid r\<close> Cons.prems(3)
    have "r = r' \<and> concat (map enc rs) @ take n (enc t) = concat (map enc us) @ take n' (enc t')"
      by (intro enc_prefix_free) auto
    with Cons.IH [of us] Cons.prems Cons show ?thesis by auto
  qed
qed

lemma log_unique:
  assumes "\<forall>r \<in> set rs. valid r" "\<forall>r \<in> set rs'. valid r"
    and "concat (map enc rs) = concat (map enc rs')"
  shows "rs = rs'"
  using assms
proof (induction rs arbitrary: rs')
  case Nil
  then show ?case
    using enc_not_Nil by (cases rs') auto
next
  case (Cons r rs)
  have "enc r \<noteq> []"
    using Cons.prems(1) enc_not_Nil by simp
  then obtain r' us where us: "rs' = r' # us"
    using Cons.prems(3) by (cases rs') simp_all
  have "r = r' \<and> concat (map enc rs) = concat (map enc us)"
    using Cons.prems unfolding us by (intro enc_prefix_free) simp_all
  with Cons.IH [of us] Cons.prems(1,2) us show ?case by simp
qed

end

section \<open>The storage as the engine sees it\<close>

text \<open>
  \<open>covered h idx t\<close>: the index \<open>idx\<close> describes the map \<open>t\<close>, because the log holds (in the sense of
  \<open>h\<close>) the value of every indexed key at its metadata.
\<close>

definition covered :: "('md \<Rightarrow> 'k \<Rightarrow> 'v \<Rightarrow> bool) \<Rightarrow> ('k \<rightharpoonup> 'md) \<Rightarrow> ('k \<rightharpoonup> 'v) \<Rightarrow> bool" where
  "covered h idx t \<longleftrightarrow>
     (\<forall>k. idx k = None \<longleftrightarrow> t k = None) \<and>
     (\<forall>k md v. idx k = Some md \<longrightarrow> t k = Some v \<longrightarrow> h md k v)"

lemma covered_None: "covered h idx t \<Longrightarrow> idx k = None \<longleftrightarrow> t k = None"
  by (simp add: covered_def)

lemma covered_Some:
  assumes "covered h idx t" "idx k = Some md"
  shows "\<exists>v. t k = Some v \<and> h md k v"
  using assms covered_None [OF assms(1), of k] by (auto simp: covered_def)

lemma covered_mono: "covered h idx t \<Longrightarrow> (\<And>md k v. h md k v \<Longrightarrow> h' md k v) \<Longrightarrow> covered h' idx t"
  by (simp add: covered_def)

lemma covered_erase: "covered h idx t \<Longrightarrow> covered h (idx(k := None)) (t(k := None))"
  by (simp add: covered_def)

lemma covered_insert: "covered h idx t \<Longrightarrow> h md k v \<Longrightarrow> covered h (idx(k \<mapsto> md)) (t(k \<mapsto> v))"
  by (simp add: covered_def)

text \<open>
  The engine relies on this of its storage, whatever faults the calls meet: a successful append
  makes the log hold the value, no operation makes it forget one, and a successful read returns
  the value that is held. \<open>fits\<close> bounds the size of the log.
\<close>

locale value_log =
  fixes ready :: "'log \<Rightarrow> bool"
    and holds :: "'log \<Rightarrow> 'md \<Rightarrow> 'k \<Rightarrow> 'v \<Rightarrow> bool"
    and fits :: "'k \<Rightarrow> 'v option \<Rightarrow> 'log \<Rightarrow> bool"
    and append :: "'f \<Rightarrow> 'k \<Rightarrow> 'v \<Rightarrow> 'e \<Rightarrow> 'log \<Rightarrow> ('err + 'md) \<times> 'log"
    and remove :: "'f \<Rightarrow> 'k \<Rightarrow> 'log \<Rightarrow> 'st \<times> 'log"
    and read :: "'g \<Rightarrow> 'md \<Rightarrow> 'log \<Rightarrow> ('err + 'v) \<times> 'log"
  assumes append_ready: "ready l \<Longrightarrow> fits k (Some v) l \<Longrightarrow> ready (snd (append f k v e l))"
    and append_holds:
      "ready l \<Longrightarrow> fits k (Some v) l \<Longrightarrow> append f k v e l = (Inr md, l') \<Longrightarrow> holds l' md k v"
    and append_keeps:
      "ready l \<Longrightarrow> fits k (Some v) l \<Longrightarrow> holds l md k' v' \<Longrightarrow> holds (snd (append f k v e l)) md k' v'"
    and remove_ready: "ready l \<Longrightarrow> fits k None l \<Longrightarrow> ready (snd (remove f k l))"
    and remove_keeps:
      "ready l \<Longrightarrow> fits k None l \<Longrightarrow> holds l md k' v' \<Longrightarrow> holds (snd (remove f k l)) md k' v'"
    and read_ready: "ready l \<Longrightarrow> ready (snd (read g md l))"
    and read_keeps: "ready l \<Longrightarrow> holds l md' k' v' \<Longrightarrow> holds (snd (read g md l)) md' k' v'"
    and read_holds: "ready l \<Longrightarrow> holds l md k v \<Longrightarrow> read g md l = (Inr v', l') \<Longrightarrow> v' = v"
begin

lemma append_covered:
  assumes "ready l" "fits k (Some v) l" "append f k v e l = (Inr md, l')"
    and "covered (holds l) idx t"
  shows "covered (holds l') (idx(k \<mapsto> md)) (t(k \<mapsto> v))"
proof (rule covered_insert)
  show "covered (holds l') idx t"
    using assms(4)
  proof (rule covered_mono)
    show "holds l' m k' v'" if "holds l m k' v'" for m k' v'
      using append_keeps [OF assms(1,2) that, of f e] assms(3) by simp
  qed
  show "holds l' md k v" by (rule append_holds [OF assms(1-3)])
qed

lemma append_keeps_covered:
  "ready l \<Longrightarrow> fits k (Some v) l \<Longrightarrow> covered (holds l) idx t \<Longrightarrow>
   covered (holds (snd (append f k v e l))) idx t"
  by (erule covered_mono) (rule append_keeps)

lemma remove_keeps_covered:
  "ready l \<Longrightarrow> fits k None l \<Longrightarrow> covered (holds l) idx t \<Longrightarrow>
   covered (holds (snd (remove f k l))) idx t"
  by (erule covered_mono) (rule remove_keeps)

lemma read_keeps_covered:
  "ready l \<Longrightarrow> covered (holds l) idx t \<Longrightarrow> covered (holds (snd (read g md l))) idx t"
  by (erule covered_mono) (rule read_keeps)

text \<open>A read through the index returns the described value.\<close>

lemma read_covered:
  assumes "ready l" "covered (holds l) idx t" "idx k = Some md" "read g md l = (Inr v, l')"
  shows "t k = Some v"
  using covered_Some [OF assms(2,3)] read_holds [OF assms(1) _ assms(4)] by blast

end

end
