(* ===== verification/LruCache.thy ===== *)
theory LruCache
  imports Interfaces
begin

text \<open>
  \<^verbatim>\<open>include/minikv/LruCache.h\<close>: the class template \<^verbatim>\<open>LruCache<Key, Value>\<close>, at the level of its
  two data structures. \<^verbatim>\<open>entries_\<close> is a \<^verbatim>\<open>std::list\<close> of key/value nodes, most recently used
  first; a node keeps its address while it is spliced, so an entry of the model is a node
  address with its pair. \<^verbatim>\<open>index_\<close> maps a key to an iterator, that is, to a node address.
  \<open>next_node\<close> stands for the allocator: the next fresh address.

  Every public method holds \<^verbatim>\<open>mutex_\<close> for its whole body, so a method is one atomic function of
  the state. Dereferencing an iterator whose node is gone would be undefined behaviour; the
  model then yields no value, and \<open>lru_inv\<close> excludes it (\<open>index_resolves\<close>).

  The second half proves the class against a one-list reference cache (\<open>spec_get\<close>, \<open>spec_put\<close>,
  \<open>spec_erase\<close>), and interprets the engine's cache contract on it.
\<close>

section \<open>State and operations\<close>

record CacheStatistics =
  cs_capacity :: nat
  cs_size :: nat
  cs_hits :: u64
  cs_misses :: u64
  cs_evictions :: u64

record ('k, 'v) LruCache =
  lru_capacity :: nat
  lru_entries :: "(nat \<times> 'k \<times> 'v) list"
  lru_index :: "('k \<times> nat) list"
  lru_hits :: u64
  lru_misses :: u64
  lru_evictions :: u64
  next_node :: nat

definition lru_new :: "nat \<Rightarrow> ('k, 'v) LruCache" where
  "lru_new cap = \<lparr>lru_capacity = cap, lru_entries = [], lru_index = [],
     lru_hits = 0, lru_misses = 0, lru_evictions = 0, next_node = 0\<rparr>"

text \<open>\<^verbatim>\<open>entries_.splice(entries_.begin(), entries_, it)\<close>, and assignment through an iterator.\<close>

definition splice_front :: "nat \<Rightarrow> (nat \<times> 'a) list \<Rightarrow> (nat \<times> 'a) list" where
  "splice_front it es =
     (case map_of es it of None \<Rightarrow> es | Some e \<Rightarrow> (it, e) # AList.delete it es)"

definition assign_value :: "nat \<Rightarrow> 'v \<Rightarrow> (nat \<times> 'k \<times> 'v) list \<Rightarrow> (nat \<times> 'k \<times> 'v) list" where
  "assign_value it v es = map (\<lambda>(i, k, w). if i = it then (i, k, v) else (i, k, w)) es"

definition lru_get :: "'k \<Rightarrow> ('k, 'v) LruCache \<Rightarrow> 'v option \<times> ('k, 'v) LruCache" where
  "lru_get key c =
     (case map_of (lru_index c) key of
        None \<Rightarrow> (None, c\<lparr>lru_misses := lru_misses c + 1\<rparr>)
      | Some it \<Rightarrow>
          let es = splice_front it (lru_entries c)
          in (map_option snd (map_of es it),
              c\<lparr>lru_entries := es, lru_hits := lru_hits c + 1\<rparr>))"

definition lru_put :: "'k \<Rightarrow> 'v \<Rightarrow> ('k, 'v) LruCache \<Rightarrow> ('k, 'v) LruCache" where
  "lru_put key value c =
     (if lru_capacity c = 0 then c
      else case map_of (lru_index c) key of
        Some it \<Rightarrow>
          c\<lparr>lru_entries := splice_front it (assign_value it value (lru_entries c))\<rparr>
      | None \<Rightarrow>
          let c1 = c\<lparr>lru_entries := (next_node c, key, value) # lru_entries c,
                     lru_index := AList.update key (next_node c) (lru_index c),
                     next_node := next_node c + 1\<rparr>
          in if length (lru_entries c1) > lru_capacity c1
             then let leastRecent = last (lru_entries c1)
                  in c1\<lparr>lru_index := AList.delete (fst (snd leastRecent)) (lru_index c1),
                        lru_entries := butlast (lru_entries c1),
                        lru_evictions := lru_evictions c1 + 1\<rparr>
             else c1)"

definition lru_erase :: "'k \<Rightarrow> ('k, 'v) LruCache \<Rightarrow> ('k, 'v) LruCache" where
  "lru_erase key c =
     (case map_of (lru_index c) key of
        None \<Rightarrow> c
      | Some it \<Rightarrow> c\<lparr>lru_entries := AList.delete it (lru_entries c),
                      lru_index := AList.delete key (lru_index c)\<rparr>)"

definition lru_clear :: "('k, 'v) LruCache \<Rightarrow> ('k, 'v) LruCache" where
  "lru_clear c = c\<lparr>lru_entries := [], lru_index := []\<rparr>"

definition lru_statistics :: "('k, 'v) LruCache \<Rightarrow> CacheStatistics" where
  "lru_statistics c = \<lparr>cs_capacity = lru_capacity c, cs_size = length (lru_entries c),
     cs_hits = lru_hits c, cs_misses = lru_misses c, cs_evictions = lru_evictions c\<rparr>"

section \<open>Invariant and reference cache\<close>

text \<open>
  Addresses and keys are unique, the index maps exactly the keys of the entries to their
  nodes, the capacity is respected and the next address is fresh.
\<close>

definition index_of :: "(nat \<times> 'k \<times> 'v) list \<Rightarrow> 'k \<rightharpoonup> nat" where
  "index_of es = map_of (map (\<lambda>(i, k, _). (k, i)) es)"

definition lru_inv :: "('k, 'v) LruCache \<Rightarrow> bool" where
  "lru_inv c \<longleftrightarrow>
     distinct (map fst (lru_entries c)) \<and>
     distinct (map fst (map snd (lru_entries c))) \<and>
     distinct (map fst (lru_index c)) \<and>
     map_of (lru_index c) = index_of (lru_entries c) \<and>
     length (lru_entries c) \<le> lru_capacity c \<and>
     (\<forall>i \<in> fst ` set (lru_entries c). i < next_node c)"

definition lru_abs :: "('k, 'v) LruCache \<Rightarrow> ('k \<times> 'v) list" where
  "lru_abs c = map snd (lru_entries c)"

definition lru_lookup :: "('k, 'v) LruCache \<Rightarrow> 'k \<Rightarrow> 'v option" where
  "lru_lookup c = map_of (lru_abs c)"

text \<open>The reference: one list of bindings, most recently used first.\<close>

definition spec_get :: "'k \<Rightarrow> ('k \<times> 'v) list \<Rightarrow> 'v option \<times> ('k \<times> 'v) list" where
  "spec_get key xs =
     (case map_of xs key of None \<Rightarrow> (None, xs) | Some v \<Rightarrow> (Some v, (key, v) # AList.delete key xs))"

definition spec_put :: "nat \<Rightarrow> 'k \<Rightarrow> 'v \<Rightarrow> ('k \<times> 'v) list \<Rightarrow> ('k \<times> 'v) list" where
  "spec_put cap key value xs = take cap ((key, value) # AList.delete key xs)"

definition spec_erase :: "'k \<Rightarrow> ('k \<times> 'v) list \<Rightarrow> ('k \<times> 'v) list" where
  "spec_erase key xs = AList.delete key xs"

section \<open>Entries, addresses and keys\<close>

lemma index_of_simps [simp]:
  "index_of [] = Map.empty"
  "index_of ((i, k, v) # es) = (index_of es)(k \<mapsto> i)"
  by (simp_all add: index_of_def)

lemma index_of_None_iff: "index_of es k = None \<longleftrightarrow> k \<notin> fst ` set (map snd es)"
  by (induction es) (auto simp: index_of_def)

lemma index_of_SomeD:
  assumes "index_of es k = Some i" "distinct (map fst es)"
  obtains v where "map_of es i = Some (k, v)" "map_of (map snd es) k = Some v"
proof -
  have "\<exists>v. map_of es i = Some (k, v) \<and> map_of (map snd es) k = Some v"
    using assms
  proof (induction es)
    case Nil
    then show ?case by simp
  next
    case (Cons e es)
    obtain j k' w where e: "e = (j, k', w)" by (cases e)
    show ?case
    proof (cases "k = k'")
      case True
      with Cons.prems e show ?thesis by simp
    next
      case False
      with Cons e obtain v where v: "map_of es i = Some (k, v)" "map_of (map snd es) k = Some v"
        by auto
      then have "i \<in> set (map fst es)"
        by (metis domI dom_map_of_conv_image_fst list.set_map)
      with Cons.prems(2) e v False show ?thesis by auto
    qed
  qed
  then show ?thesis using that by blast
qed

lemma delete_snd:
  assumes "index_of es k = Some i" "distinct (map fst es)" "distinct (map fst (map snd es))"
  shows "map snd (AList.delete i es) = AList.delete k (map snd es)"
  using assms
proof (induction es)
  case Nil
  then show ?case by simp
next
  case (Cons e es)
  obtain j k' w where e: "e = (j, k', w)" by (cases e)
  show ?case
  proof (cases "k = k'")
    case True
    with Cons.prems e have ij: "i = j" and j: "j \<notin> fst ` set es"
      and k: "k \<notin> fst ` set (map snd es)"
      by (auto simp: image_image)
    from e True ij delete_id [OF j] delete_id [OF k] show ?thesis by simp
  next
    case False
    with Cons.prems e have k: "index_of es k = Some i" by simp
    then have "i \<in> set (map fst es)"
      using Cons.prems(2) by (auto elim!: index_of_SomeD dest!: map_of_SomeD simp: image_iff) force
    with Cons e k False show ?thesis by auto
  qed
qed

lemma index_of_delete:
  assumes "index_of es k = Some i" "distinct (map fst es)" "distinct (map fst (map snd es))"
  shows "index_of (AList.delete i es) = (index_of es)(k := None)"
  using assms
proof (induction es)
  case Nil
  then show ?case by simp
next
  case (Cons e es)
  obtain j k' w where e: "e = (j, k', w)" by (cases e)
  show ?case
  proof (cases "k = k'")
    case True
    with Cons.prems e have ij: "i = j" and j: "j \<notin> fst ` set es"
      and k: "index_of es k = None"
      by (auto simp: image_image index_of_None_iff)
    from e True ij delete_id [OF j] k show ?thesis by auto
  next
    case False
    with Cons.prems e have k: "index_of es k = Some i" by simp
    then have "i \<in> set (map fst es)"
      using Cons.prems(2) by (auto elim!: index_of_SomeD dest!: map_of_SomeD simp: image_iff) force
    with Cons e k False show ?thesis by (auto simp: fun_upd_twist)
  qed
qed

lemma index_of_mem:
  "(i, k, v) \<in> set es \<Longrightarrow> distinct (map fst (map snd es)) \<Longrightarrow> index_of es k = Some i"
  by (induction es) (auto simp: image_image rev_image_eqI)

lemma butlast_eq_delete:
  "es \<noteq> [] \<Longrightarrow> distinct (map fst es) \<Longrightarrow> butlast es = AList.delete (fst (last es)) es"
proof (induction es)
  case Nil
  then show ?case by simp
next
  case (Cons e es)
  then show ?case
    by (cases "es = []") (auto simp: rev_image_eqI)
qed

text \<open>Splicing a node that the index names to the front.\<close>

definition uniq :: "(nat \<times> 'k \<times> 'v) list \<Rightarrow> bool" where
  "uniq es \<longleftrightarrow> distinct (map fst es) \<and> distinct (map fst (map snd es))"

lemma uniq_delete: "uniq es \<Longrightarrow> uniq (AList.delete i es)"
  by (auto simp: uniq_def AList.delete_eq intro: distinct_map_filter)

lemma splice_front_abs:
  assumes "uniq es" "index_of es k = Some i" "map_of (map snd es) k = Some v"
  shows "map snd (splice_front i es) = (k, v) # AList.delete k (map snd es)"
proof -
  obtain w where "map_of es i = Some (k, w)" "map_of (map snd es) k = Some w"
    using assms(1,2) by (auto simp: uniq_def elim: index_of_SomeD)
  with assms show ?thesis
    using delete_snd [of es k i] by (simp add: splice_front_def uniq_def)
qed

lemma splice_front_inv:
  assumes "uniq es" "index_of es k = Some i"
  shows "uniq (splice_front i es)" "index_of (splice_front i es) = index_of es"
    "length (splice_front i es) = length es" "fst ` set (splice_front i es) = fst ` set es"
    "map_of (splice_front i es) i = map_of es i"
proof -
  obtain v where v: "map_of es i = Some (k, v)" "map_of (map snd es) k = Some v"
    using assms by (auto simp: uniq_def elim: index_of_SomeD)
  have sp: "splice_front i es = (i, k, v) # AList.delete i es"
    using v by (simp add: splice_front_def)
  have del: "index_of (AList.delete i es) = (index_of es)(k := None)"
    using index_of_delete assms by (auto simp: uniq_def)
  have mem: "i \<in> fst ` set es"
    using v(1) by (force dest: map_of_SomeD)
  show ids: "fst ` set (splice_front i es) = fst ` set es"
    using mem by (auto simp: sp delete_keys simp flip: set_map)
  have "index_of (AList.delete i es) k = None"
    by (simp add: del)
  then show "uniq (splice_front i es)"
    using uniq_delete [OF assms(1), of i]
    by (auto simp: sp uniq_def index_of_None_iff delete_notin_dom image_image)
  show "index_of (splice_front i es) = index_of es"
    using assms(2) by (auto simp: sp del)
  show "map_of (splice_front i es) i = map_of es i"
    by (simp add: sp v)
  have "length (AList.delete i es) = length es - 1"
  proof -
    have "length (AList.delete i es) = length (removeAll i (map fst es))"
      by (simp flip: delete_keys)
    also have "\<dots> = length (remove1 i (map fst es))"
      using assms(1) by (simp add: uniq_def distinct_remove1_removeAll)
    finally show ?thesis using mem by (simp add: length_remove1 flip: set_map)
  qed
  then show "length (splice_front i es) = length es"
    using mem unfolding sp by (cases es) auto
qed

lemma assign_value_simps:
  "map fst (assign_value i v es) = map fst es"
  "map fst (map snd (assign_value i v es)) = map fst (map snd es)"
  "index_of (assign_value i v es) = index_of es"
  "length (assign_value i v es) = length es"
  by (induction es) (auto simp: assign_value_def)

lemma assign_value_uniq [simp]: "uniq (assign_value i v es) = uniq es"
  by (simp only: uniq_def assign_value_simps)

lemma assign_value_set [simp]: "fst ` set (assign_value i v es) = fst ` set es"
  by (metis assign_value_simps(1) list.set_map)

lemma assign_value_abs:
  assumes "uniq es" "index_of es k = Some i"
  shows "map_of (map snd (assign_value i v es)) k = Some v"
    "AList.delete k (map snd (assign_value i v es)) = AList.delete k (map snd es)"
proof -
  have "map_of (map snd (assign_value i v es)) k = Some v \<and>
    AList.delete k (map snd (assign_value i v es)) = AList.delete k (map snd es)"
    using assms
  proof (induction es)
    case Nil
    then show ?case by simp
  next
    case (Cons e es)
    obtain j k' w where e: "e = (j, k', w)" by (cases e)
    have u: "uniq es" using Cons.prems by (simp add: uniq_def)
    show ?case
    proof (cases "k = k'")
      case True
      with Cons.prems e have "i = j" "j \<notin> fst ` set es" by (auto simp: uniq_def)
      then have "assign_value i v es = es"
        by (auto simp: assign_value_def rev_image_eqI intro!: map_idI)
      with e True \<open>i = j\<close> show ?thesis by (simp add: assign_value_def)
    next
      case False
      with Cons.prems e have k: "index_of es k = Some i" by simp
      then have "i \<in> set (map fst es)"
        using u by (force simp: uniq_def elim!: index_of_SomeD dest!: map_of_SomeD)
      with Cons.prems e have "i \<noteq> j" by (auto simp: uniq_def)
      with Cons.IH [OF u k] e False show ?thesis by (simp add: assign_value_def)
    qed
  qed
  then show "map_of (map snd (assign_value i v es)) k = Some v"
    "AList.delete k (map snd (assign_value i v es)) = AList.delete k (map snd es)"
    by simp_all
qed

section \<open>Every operation keeps the invariant and refines the reference\<close>

lemma lru_inv_alt:
  "lru_inv c \<longleftrightarrow>
     uniq (lru_entries c) \<and> distinct (map fst (lru_index c)) \<and>
     map_of (lru_index c) = index_of (lru_entries c) \<and>
     length (lru_entries c) \<le> lru_capacity c \<and> (\<forall>i \<in> fst ` set (lru_entries c). i < next_node c)"
  by (auto simp: lru_inv_def uniq_def)

lemma lru_inv_new [simp]: "lru_inv (lru_new cap)"
  by (simp add: lru_inv_def lru_new_def)

text \<open>No operation follows a dangling iterator: an indexed key resolves to its own node.\<close>

lemma index_resolves:
  assumes "lru_inv c" "map_of (lru_index c) k = Some i"
  obtains v where "map_of (lru_entries c) i = Some (k, v)" "lru_lookup c k = Some v"
  using assms by (auto simp: lru_inv_alt uniq_def lru_lookup_def lru_abs_def elim: index_of_SomeD)

lemma index_None_lookup:
  "lru_inv c \<Longrightarrow> map_of (lru_index c) k = None \<longleftrightarrow> lru_lookup c k = None"
  by (simp add: lru_inv_alt index_of_None_iff lru_lookup_def lru_abs_def map_of_eq_None_iff)

lemma lru_get_refines:
  assumes inv: "lru_inv c"
  shows "lru_inv (snd (lru_get k c))"
    and "(fst (lru_get k c), lru_abs (snd (lru_get k c))) = spec_get k (lru_abs c)"
proof -
  have "lru_inv (snd (lru_get k c)) \<and>
    (fst (lru_get k c), lru_abs (snd (lru_get k c))) = spec_get k (lru_abs c)"
  proof (cases "map_of (lru_index c) k")
    case None
    with inv index_None_lookup [OF inv, of k] show ?thesis
      by (simp add: lru_get_def spec_get_def lru_inv_def lru_lookup_def lru_abs_def)
  next
    case (Some i)
    obtain v where v: "map_of (lru_entries c) i = Some (k, v)" "lru_lookup c k = Some v"
      using index_resolves [OF inv Some] by blast
    have ix: "uniq (lru_entries c)" "index_of (lru_entries c) k = Some i"
      using inv Some by (simp_all add: lru_inv_alt)
    note sp = splice_front_inv [OF ix]
    have "map snd (splice_front i (lru_entries c)) = (k, v) # AList.delete k (lru_abs c)"
      using splice_front_abs [OF ix] v(2) by (simp add: lru_lookup_def lru_abs_def)
    with inv Some v sp show ?thesis
      by (simp add: lru_get_def spec_get_def lru_inv_alt lru_lookup_def lru_abs_def Let_def)
  qed
  then show "lru_inv (snd (lru_get k c))"
    "(fst (lru_get k c), lru_abs (snd (lru_get k c))) = spec_get k (lru_abs c)" by auto
qed

text \<open>Insertion of a key that is already cached, and of a new key with its eviction.\<close>

lemma lru_put_hit:
  assumes inv: "lru_inv c" and cap: "lru_capacity c \<noteq> 0" and i: "map_of (lru_index c) k = Some i"
  shows "lru_inv (lru_put k v c) \<and> lru_abs (lru_put k v c) = (k, v) # AList.delete k (lru_abs c)"
proof -
  let ?es = "assign_value i v (lru_entries c)"
  have u: "uniq (lru_entries c)" "index_of (lru_entries c) k = Some i"
    using inv i by (simp_all add: lru_inv_alt)
  then have u': "uniq ?es" "index_of ?es k = Some i"
    by (simp_all add: assign_value_simps)
  note sp = splice_front_inv [OF u']
  have "map snd (splice_front i ?es) = (k, v) # AList.delete k (lru_abs c)"
    using splice_front_abs [OF u' assign_value_abs(1) [OF u]] assign_value_abs(2) [OF u, of v]
    by (simp add: lru_abs_def)
  with inv cap i sp show ?thesis
    by (simp add: lru_put_def lru_inv_alt lru_abs_def assign_value_simps)
qed

lemma lru_put_new:
  assumes inv: "lru_inv c" and cap: "lru_capacity c \<noteq> 0" and i: "map_of (lru_index c) k = None"
  shows "lru_inv (lru_put k v c) \<and>
    lru_abs (lru_put k v c) = take (lru_capacity c) ((k, v) # lru_abs c)"
proof -
  let ?n = "next_node c" and ?es = "(next_node c, k, v) # lru_entries c"
  have none: "index_of (lru_entries c) k = None" and u: "uniq (lru_entries c)"
    and len: "length (lru_entries c) \<le> lru_capacity c"
    and fresh: "\<forall>j \<in> fst ` set (lru_entries c). j < ?n"
    using inv i by (simp_all add: lru_inv_alt)
  have u': "uniq ?es"
    using u fresh none by (auto simp: uniq_def index_of_None_iff image_image)
  have ix: "map_of (AList.update k ?n (lru_index c)) = index_of ?es"
    using inv by (simp add: lru_inv_alt)
  have dx: "distinct (map fst (AList.update k ?n (lru_index c)))"
    using inv by (simp add: lru_inv_alt)
  show ?thesis
  proof (cases "length ?es > lru_capacity c")
    case False
    then show ?thesis
      using cap i u' ix dx fresh by (auto simp: lru_put_def lru_inv_alt lru_abs_def Let_def)
  next
    case True
    obtain j lk w where l: "last ?es = (j, lk, w)" by (cases "last ?es")
    have mem: "(j, lk, w) \<in> set ?es"
      using last_in_set [of ?es] unfolding l by simp
    then have lk: "index_of ?es lk = Some j"
      using u' by (auto simp: uniq_def intro: index_of_mem simp del: index_of_simps)
    have bl: "butlast ?es = AList.delete j ?es"
      using butlast_eq_delete [of ?es] u' l by (simp add: uniq_def)
    have bix: "index_of (butlast ?es) = (index_of ?es)(lk := None)"
      unfolding bl using index_of_delete [OF lk] u' by (simp add: uniq_def)
    have bu: "uniq (butlast ?es)"
      unfolding bl by (rule uniq_delete [OF u'])
    have bs: "\<forall>i \<in> fst ` set (butlast ?es). i < ?n + 1"
    proof -
      have "fst ` set (butlast ?es) \<subseteq> fst ` set ?es"
        by (rule image_mono) (rule subsetI, rule in_set_butlastD)
      moreover have "\<forall>i \<in> fst ` set ?es. i < ?n + 1"
        using fresh by auto
      ultimately show ?thesis by blast
    qed
    have put: "lru_put k v c = c\<lparr>lru_entries := butlast ?es,
        lru_index := AList.delete lk (AList.update k ?n (lru_index c)),
        next_node := ?n + 1, lru_evictions := lru_evictions c + 1\<rparr>"
      using cap i True l by (simp add: lru_put_def Let_def)
    have "length (lru_entries c) = lru_capacity c"
      using True len by simp
    then have "map snd (butlast ?es) = take (lru_capacity c) (map snd ?es)"
      by (simp only: butlast_conv_take take_map) simp
    then show ?thesis
      using len dx ix bix bu bs True unfolding put by (simp add: lru_inv_alt lru_abs_def)
  qed
qed

lemma distinct_keys_abs: "lru_inv c \<Longrightarrow> distinct (map fst (lru_abs c))"
  by (simp add: lru_inv_def lru_abs_def)

lemma length_abs: "lru_inv c \<Longrightarrow> length (lru_abs c) \<le> lru_capacity c"
  by (simp add: lru_inv_def lru_abs_def)

lemma lru_put_capacity [simp]: "lru_capacity (lru_put k v c) = lru_capacity c"
  by (simp add: lru_put_def Let_def split: option.splits)

lemma lru_put_refines:
  assumes inv: "lru_inv c"
  shows "lru_inv (lru_put k v c)"
    and "lru_abs (lru_put k v c) = spec_put (lru_capacity c) k v (lru_abs c)"
proof -
  have "lru_inv (lru_put k v c) \<and>
    lru_abs (lru_put k v c) = spec_put (lru_capacity c) k v (lru_abs c)"
  proof (cases "lru_capacity c = 0")
    case True
    with inv show ?thesis by (simp add: lru_put_def spec_put_def lru_inv_def lru_abs_def)
  next
    case False
    show ?thesis
    proof (cases "map_of (lru_index c) k")
      case None
      then have "lru_lookup c k = None"
        using index_None_lookup [OF inv] by blast
      then have "AList.delete k (lru_abs c) = lru_abs c"
        by (simp add: lru_lookup_def map_of_eq_None_iff)
      with lru_put_new [OF inv False None, of v] show ?thesis
        by (simp add: spec_put_def)
    next
      case (Some i)
      have h: "lru_inv (lru_put k v c)"
        "lru_abs (lru_put k v c) = (k, v) # AList.delete k (lru_abs c)"
        using lru_put_hit [OF inv False Some, of v] by auto
      have "take (lru_capacity c) (lru_abs (lru_put k v c)) = lru_abs (lru_put k v c)"
        using length_abs [OF h(1)] by simp
      with h show ?thesis by (simp add: spec_put_def)
    qed
  qed
  then show "lru_inv (lru_put k v c)"
    "lru_abs (lru_put k v c) = spec_put (lru_capacity c) k v (lru_abs c)" by auto
qed

lemma lru_erase_refines:
  assumes inv: "lru_inv c"
  shows "lru_inv (lru_erase k c)"
    and "lru_abs (lru_erase k c) = spec_erase k (lru_abs c)"
proof -
  have "lru_inv (lru_erase k c) \<and> lru_abs (lru_erase k c) = spec_erase k (lru_abs c)"
  proof (cases "map_of (lru_index c) k")
    case None
    then have "lru_lookup c k = None"
      using index_None_lookup [OF inv] by blast
    then have "AList.delete k (lru_abs c) = lru_abs c"
      by (simp add: lru_lookup_def map_of_eq_None_iff)
    moreover have "lru_erase k c = c"
      using None by (simp add: lru_erase_def)
    ultimately show ?thesis
      using inv by (simp add: spec_erase_def)
  next
    case (Some i)
    have u: "uniq (lru_entries c)" "index_of (lru_entries c) k = Some i"
      using inv Some by (simp_all add: lru_inv_alt)
    have "index_of (AList.delete i (lru_entries c)) = (index_of (lru_entries c))(k := None)"
      "map snd (AList.delete i (lru_entries c)) = AList.delete k (map snd (lru_entries c))"
      using index_of_delete [OF u(2)] delete_snd [OF u(2)] u(1) by (simp_all add: uniq_def)
    moreover have "length (AList.delete i (lru_entries c)) \<le> length (lru_entries c)"
      by (simp add: AList.delete_eq)
    moreover have "\<forall>j \<in> fst ` set (AList.delete i (lru_entries c)). j < next_node c"
      using dom_delete_subset [of i "lru_entries c"] inv unfolding lru_inv_alt by blast
    ultimately show ?thesis
      using inv Some uniq_delete [OF u(1), of i]
      by (simp add: lru_erase_def spec_erase_def lru_inv_alt lru_abs_def)
  qed
  then show "lru_inv (lru_erase k c)" "lru_abs (lru_erase k c) = spec_erase k (lru_abs c)" by auto
qed

lemma lru_clear_inv [simp]: "lru_inv c \<Longrightarrow> lru_inv (lru_clear c)"
  by (simp add: lru_inv_def lru_clear_def)

lemma lru_clear_abs [simp]: "lru_abs (lru_clear c) = []"
  by (simp add: lru_clear_def lru_abs_def)

section \<open>The cache contract\<close>

interpretation lru: cache_contract lru_lookup lru_inv lru_get lru_put lru_erase lru_clear
proof unfold_locales
  fix c :: "('k, 'v) LruCache" and k v
  assume inv: "lru_inv c"
  show "fst (lru_get k c) = lru_lookup c k"
    using lru_get_refines(2) [OF inv, of k]
    by (auto simp: spec_get_def lru_lookup_def split: option.splits)
  show "lru_lookup (snd (lru_get k c)) = lru_lookup c"
    using lru_get_refines(2) [OF inv, of k]
    by (auto simp: spec_get_def lru_lookup_def split: option.splits)
  have "map_of (take n xs) \<subseteq>\<^sub>m map_of xs" for n and xs :: "('k \<times> 'v) list"
    by (metis append_take_drop_id map_add_le_mapI map_le_map_add map_le_refl map_of_append
        map_add_find_right map_le_def domIff option.exhaust)
  then show "lru_lookup (lru_put k v c) \<subseteq>\<^sub>m (lru_lookup c)(k \<mapsto> v)"
    using lru_put_refines(2) [OF inv, of k v]
    by (metis (no_types, lifting) fun_upd_upd lru_lookup_def map_of.simps(2) fst_conv snd_conv
        map_of_alist_delete spec_put_def)
  show "lru_lookup (lru_erase k c) = (lru_lookup c)(k := None)"
    using lru_erase_refines(2) [OF inv, of k] by (simp add: lru_lookup_def spec_erase_def)
  show "lru_inv (snd (lru_get k c))" "lru_inv (lru_put k v c)" "lru_inv (lru_erase k c)"
    "lru_inv (lru_clear c)"
    using inv by (simp_all add: lru_get_refines lru_put_refines lru_erase_refines)
next
  show "lru_lookup (lru_clear c) = Map.empty" for c :: "('k, 'v) LruCache"
    by (simp add: lru_lookup_def)
qed

section \<open>Recency: what a run of insertions leaves in the cache\<close>

text \<open>
  After any sequence of \<^verbatim>\<open>put\<close>s the cache holds the \<open>capacity\<close> most recently inserted keys,
  each with its latest value, newest first.
\<close>

definition lru_puts :: "('k \<times> 'v) list \<Rightarrow> ('k, 'v) LruCache \<Rightarrow> ('k, 'v) LruCache" where
  "lru_puts kvs c = fold (\<lambda>(k, v). lru_put k v) kvs c"

lemma take_delete_take:
  "distinct (map fst xs) \<Longrightarrow>
   take n (AList.delete k (take (Suc n) xs)) = take n (AList.delete k xs)"
proof (induction xs arbitrary: n)
  case Nil
  then show ?case by simp
next
  case (Cons x xs)
  show ?case
  proof (cases "fst x = k")
    case True
    then have "k \<notin> fst ` set xs" using Cons.prems by auto
    then have "AList.delete k xs = xs" "AList.delete k (take n xs) = take n xs"
      by (auto intro!: delete_id dest!: in_set_takeD)
    with True show ?thesis by simp
  next
    case False
    with Cons show ?thesis by (cases n) auto
  qed
qed

lemma spec_put_take:
  "distinct (map fst xs) \<Longrightarrow> spec_put cap k v (take cap xs) = spec_put cap k v xs"
  by (cases cap) (simp_all add: spec_put_def take_delete_take)

lemma lru_puts_recency:
  "lru_inv (lru_puts kvs (lru_new cap)) \<and> lru_capacity (lru_puts kvs (lru_new cap)) = cap \<and>
   lru_abs (lru_puts kvs (lru_new cap)) = take cap (AList.clearjunk (rev kvs))"
proof (induction kvs rule: rev_induct)
  case Nil
  show ?case by (simp add: lru_puts_def lru_abs_def lru_new_def lru_inv_def)
next
  case (snoc x kvs)
  obtain k v where x: "x = (k, v)" by fastforce
  let ?c = "lru_puts kvs (lru_new cap)"
  have step: "lru_puts (kvs @ [(k, v)]) (lru_new cap) = lru_put k v ?c"
    by (simp add: lru_puts_def)
  from snoc have "lru_abs (lru_put k v ?c) = spec_put cap k v (take cap (AList.clearjunk (rev kvs)))"
    by (simp add: lru_put_refines)
  also have "\<dots> = spec_put cap k v (AList.clearjunk (rev kvs))"
    by (rule spec_put_take) (rule distinct_clearjunk)
  finally show ?case
    using snoc lru_put_refines(1) [of ?c k v]
    by (simp add: step x spec_put_def clearjunk_delete)
qed

section \<open>Runs of the cache\<close>

datatype ('k, 'v) CacheOp = OpGet 'k | OpPut 'k 'v | OpErase 'k | OpClear

fun cache_step :: "('k, 'v) CacheOp \<Rightarrow> ('k, 'v) LruCache \<Rightarrow> 'v option \<times> ('k, 'v) LruCache" where
  "cache_step (OpGet k) c = lru_get k c"
| "cache_step (OpPut k v) c = (None, lru_put k v c)"
| "cache_step (OpErase k) c = (None, lru_erase k c)"
| "cache_step OpClear c = (None, lru_clear c)"

fun list_step :: "nat \<Rightarrow> ('k, 'v) CacheOp \<Rightarrow> ('k \<times> 'v) list \<Rightarrow> 'v option \<times> ('k \<times> 'v) list" where
  "list_step cap (OpGet k) xs = spec_get k xs"
| "list_step cap (OpPut k v) xs = (None, spec_put cap k v xs)"
| "list_step cap (OpErase k) xs = (None, spec_erase k xs)"
| "list_step cap OpClear xs = (None, [])"

fun run_steps :: "('o \<Rightarrow> 's \<Rightarrow> 'r \<times> 's) \<Rightarrow> 'o list \<Rightarrow> 's \<Rightarrow> 'r list \<times> 's" where
  "run_steps step [] s = ([], s)"
| "run_steps step (op # ops) s =
     (case step op s of (r, s) \<Rightarrow> case run_steps step ops s of (rs, s) \<Rightarrow> (r # rs, s))"

lemma lru_capacity_simps [simp]:
  "lru_capacity (snd (lru_get k c)) = lru_capacity c"
  "lru_capacity (lru_erase k c) = lru_capacity c"
  "lru_capacity (lru_clear c) = lru_capacity c"
  by (simp_all add: lru_get_def lru_erase_def lru_clear_def Let_def split: option.splits)

lemma cache_step_refines:
  assumes "lru_inv c"
  shows "lru_inv (snd (cache_step op c))"
    "lru_capacity (snd (cache_step op c)) = lru_capacity c"
    "(fst (cache_step op c), lru_abs (snd (cache_step op c))) = list_step (lru_capacity c) op (lru_abs c)"
  using assms lru_get_refines [OF assms] lru_put_refines [OF assms] lru_erase_refines [OF assms]
  by (cases op; simp)+

lemma cache_run_refines:
  assumes "lru_inv c" "run_steps cache_step ops c = (rs, c')"
  shows "lru_inv c'" "lru_capacity c' = lru_capacity c"
    "run_steps (list_step (lru_capacity c)) ops (lru_abs c) = (rs, lru_abs c')"
proof -
  have "lru_inv c' \<and> lru_capacity c' = lru_capacity c \<and>
    run_steps (list_step (lru_capacity c)) ops (lru_abs c) = (rs, lru_abs c')"
    using assms
  proof (induction ops arbitrary: c rs)
    case Nil
    then show ?case by simp
  next
    case (Cons op ops)
    obtain r c1 where step: "cache_step op c = (r, c1)" by fastforce
    obtain rs1 where rest: "run_steps cache_step ops c1 = (rs1, c')" "rs = r # rs1"
      using Cons.prems(2) step by (auto split: prod.splits)
    note one = cache_step_refines [OF Cons.prems(1), of op, unfolded step snd_conv fst_conv]
    from Cons.IH [OF one(1) rest(1)] one(2,3) rest(2) show ?case
      by (simp flip: one(3))
  qed
  then show "lru_inv c'" "lru_capacity c' = lru_capacity c"
    "run_steps (list_step (lru_capacity c)) ops (lru_abs c) = (rs, lru_abs c')"
    by blast+
qed

end
