(* ===== verification/Records.thy ===== *)
theory Records
  imports Prelude
begin

text \<open>
  \<^verbatim>\<open>include/minikv/Record.h\<close> and \<^verbatim>\<open>src/Record.cpp\<close>: log records and their metadata, the format
  constants, the FNV-1a record checksum and the expiry test.

  The checksum lemmas show what the checksum can be trusted with: each FNV step is injective in
  the running hash and in the byte, so any single changed byte of what is hashed changes the
  checksum (\<open>fnv_single_byte\<close>).
\<close>

section \<open>Data\<close>

datatype Operation = OpSet | OpDelete

text \<open>\<^verbatim>\<open>static_cast<std::uint8_t>(operation)\<close>; scoped enumerators compare by this value.\<close>

fun op_byte :: "Operation \<Rightarrow> u8" where
  "op_byte OpSet = 1"
| "op_byte OpDelete = 2"

lemma op_byte_inject [simp]: "op_byte a = op_byte b \<longleftrightarrow> a = b"
  by (cases a; cases b) simp_all

instantiation Operation :: linorder
begin

definition less_eq_Operation :: "Operation \<Rightarrow> Operation \<Rightarrow> bool" where
  "a \<le> b \<longleftrightarrow> op_byte a \<le> op_byte b"

definition less_Operation :: "Operation \<Rightarrow> Operation \<Rightarrow> bool" where
  "a < b \<longleftrightarrow> op_byte a < op_byte b"

instance
  by standard (auto simp: less_eq_Operation_def less_Operation_def order_less_le)

end

record Record =
  rec_op :: Operation
  rec_key :: string
  rec_value :: string
  rec_expiresAtMs :: i64

record RecordMetadata =
  md_recordOffset :: u64
  md_valueOffset :: u64
  md_valueSize :: u32
  md_expiresAtMs :: i64

definition kRecordMagic :: u32 where "kRecordMagic = 0x31564B4D"
definition kRecordVersion :: u16 where "kRecordVersion = 1"
definition kRecordHeaderSize :: nat where "kRecordHeaderSize = 28"
definition kMaximumKeySize :: nat where "kMaximumKeySize = 4 * 1024"
definition kMaximumValueSize :: nat where "kMaximumValueSize = 16 * 1024 * 1024"

lemmas format_constants =
  kRecordHeaderSize_def kMaximumKeySize_def kMaximumValueSize_def

section \<open>Checksum and expiry\<close>

definition hashByte :: "u32 \<Rightarrow> u8 \<Rightarrow> u32" where
  "hashByte hash byte = (hash XOR ucast byte) * 16777619"

definition hash64 :: "u32 \<Rightarrow> u64 \<Rightarrow> u32" where
  "hash64 hash value =
     fold (\<lambda>shift h. hashByte h (ucast (drop_bit shift value AND 0xFF)))
       [0, 8, 16, 24, 32, 40, 48, 56] hash"

definition hashString :: "u32 \<Rightarrow> string \<Rightarrow> u32" where
  "hashString hash text = fold (\<lambda>character h. hashByte h (byte_of_char character)) text hash"

definition recordChecksum :: "Operation \<Rightarrow> i64 \<Rightarrow> string \<Rightarrow> string \<Rightarrow> u32" where
  "recordChecksum operation expiresAtMs key value =
     (let hash = hashByte 2166136261 (op_byte operation);
          hash = hash64 hash expiresAtMs;
          hash = hash64 hash (of_nat (length key));
          hash = hash64 hash (of_nat (length value));
          hash = hashString hash key
      in hashString hash value)"

definition isExpired :: "i64 \<Rightarrow> i64 \<Rightarrow> bool" where
  "isExpired expiresAtMs nowMs \<longleftrightarrow> sint expiresAtMs > 0 \<and> sint expiresAtMs \<le> sint nowMs"

lemma isExpired_zero [simp]: "\<not> isExpired 0 now"
  by (simp add: isExpired_def)

lemma isExpired_mono: "isExpired e t \<Longrightarrow> sint t \<le> sint t' \<Longrightarrow> isExpired e t'"
  by (simp add: isExpired_def)

section \<open>Detection of a changed byte\<close>

text \<open>The FNV prime is odd, hence invertible modulo \<open>2^32\<close>.\<close>

lemma fnv_prime_inverse: "(16777619 :: u32) * 899433627 = 1"
  by simp

lemma fnv_mult_inject: "(a :: u32) * 16777619 = b * 16777619 \<longleftrightarrow> a = b"
proof
  assume "a * 16777619 = b * 16777619"
  then have "a * (16777619 * 899433627) = b * (16777619 * 899433627)"
    by (simp only: mult.assoc [symmetric])
  then show "a = b" by (simp only: fnv_prime_inverse mult_1_right)
qed simp

lemma word_xor_left_inject: "(a XOR c = b XOR c) \<longleftrightarrow> a = (b :: 'a::len word)"
  by (auto simp: bit_eq_iff bit_xor_iff)

lemma ucast_u8_u32_inject: "(ucast (a :: u8) :: u32) = ucast b \<longleftrightarrow> a = b"
proof
  assume "(ucast a :: u32) = ucast b"
  then have bits: "bit (ucast a :: u32) n = bit (ucast b :: u32) n" for n by simp
  show "a = b"
  proof (rule bit_word_eqI)
    fix n assume "n < LENGTH(8)"
    with bits [of n] show "bit a n = bit b n" by (simp add: bit_ucast_iff)
  qed
qed simp

lemma hashByte_inject_hash: "hashByte h b = hashByte h' b \<longleftrightarrow> h = h'"
  by (simp add: hashByte_def fnv_mult_inject word_xor_left_inject)

lemma hashByte_inject_byte: "hashByte h a = hashByte h b \<longleftrightarrow> a = b"
  by (simp add: hashByte_def fnv_mult_inject ucast_u8_u32_inject xor.commute [of h] word_xor_left_inject)

text \<open>The checksum is one FNV-1a pass over a byte sequence.\<close>

definition fnv :: "u8 list \<Rightarrow> u32 \<Rightarrow> u32" where
  "fnv bs h = fold (\<lambda>b h. hashByte h b) bs h"

lemma fnv_simps [simp]:
  "fnv [] h = h"
  "fnv (b # bs) h = fnv bs (hashByte h b)"
  "fnv (as @ bs) h = fnv bs (fnv as h)"
  by (simp_all add: fnv_def)

lemma fnv_inject_hash: "fnv bs h = fnv bs h' \<longleftrightarrow> h = h'"
  by (induction bs arbitrary: h h') (simp_all add: hashByte_inject_hash)

lemma fnv_single_byte:
  assumes "i < length bs" "b \<noteq> bs ! i"
  shows "fnv (bs[i := b]) h \<noteq> fnv bs h"
proof -
  have "fnv (take i bs @ b # drop (Suc i) bs) h \<noteq> fnv (take i bs @ bs ! i # drop (Suc i) bs) h"
    using assms(2) by (simp add: fnv_inject_hash hashByte_inject_byte)
  then show ?thesis
    using assms(1) by (simp add: upd_conv_take_nth_drop flip: id_take_nth_drop)
qed

definition bytes64 :: "u64 \<Rightarrow> u8 list" where
  "bytes64 v = map (\<lambda>shift. ucast (drop_bit shift v AND 0xFF)) [0, 8, 16, 24, 32, 40, 48, 56]"

definition checksum_input :: "Operation \<Rightarrow> i64 \<Rightarrow> string \<Rightarrow> string \<Rightarrow> u8 list" where
  "checksum_input op e k v =
     op_byte op # bytes64 e @ bytes64 (of_nat (length k)) @ bytes64 (of_nat (length v)) @
     map byte_of_char k @ map byte_of_char v"

lemma hash64_fnv: "hash64 h v = fnv (bytes64 v) h"
  by (simp add: hash64_def bytes64_def)

lemma hashString_fnv: "hashString h t = fnv (map byte_of_char t) h"
  by (induction t arbitrary: h) (simp_all add: hashString_def)

lemma recordChecksum_fnv: "recordChecksum op e k v = fnv (checksum_input op e k v) 2166136261"
  by (simp add: recordChecksum_def checksum_input_def hash64_fnv hashString_fnv Let_def)

lemma map_byte_update: "map byte_of_char (t[i := c]) = (map byte_of_char t)[i := byte_of_char c]"
  by (rule map_update)

text \<open>One changed byte of the key or of the value changes the checksum.\<close>

lemma hashString_single_byte:
  "i < length t \<Longrightarrow> c \<noteq> t ! i \<Longrightarrow> hashString h (t[i := c]) \<noteq> hashString h t"
  by (simp add: hashString_fnv map_byte_update fnv_single_byte)

lemma hashString_inject_hash: "hashString h t = hashString h' t \<longleftrightarrow> h = h'"
  by (simp add: hashString_fnv fnv_inject_hash)

lemma recordChecksum_key_byte:
  "i < length k \<Longrightarrow> c \<noteq> k ! i \<Longrightarrow> recordChecksum op e (k[i := c]) v \<noteq> recordChecksum op e k v"
  by (simp add: recordChecksum_def Let_def hashString_inject_hash hashString_single_byte)

lemma recordChecksum_value_byte:
  "i < length v \<Longrightarrow> c \<noteq> v ! i \<Longrightarrow> recordChecksum op e k (v[i := c]) \<noteq> recordChecksum op e k v"
  by (simp add: recordChecksum_def Let_def hashString_single_byte)

lemma recordChecksum_operation:
  "op \<noteq> op' \<Longrightarrow> recordChecksum op e k v \<noteq> recordChecksum op' e k v"
  by (simp add: recordChecksum_fnv checksum_input_def fnv_inject_hash hashByte_inject_byte)

end
