(* ===== verification/Status.thy ===== *)
theory Status
  imports Prelude
begin

text \<open>
  \<^verbatim>\<open>include/minikv/Status.h\<close> and \<^verbatim>\<open>src/Status.cpp\<close>: the status codes, the class
  \<^verbatim>\<open>Status\<close> (a code and a message) with its named constructors and accessors, and the
  textual rendering that the shell prints.
\<close>

datatype StatusCode = Ok | NotFound | InvalidArgument | IoError | Corruption | Closed

record Status =
  status_code :: StatusCode
  status_message :: string

definition Status_success :: Status where
  "Status_success = \<lparr>status_code = Ok, status_message = []\<rparr>"

definition notFound :: "string \<Rightarrow> Status" where
  "notFound message = \<lparr>status_code = NotFound, status_message = message\<rparr>"

definition invalidArgument :: "string \<Rightarrow> Status" where
  "invalidArgument message = \<lparr>status_code = InvalidArgument, status_message = message\<rparr>"

definition ioError :: "string \<Rightarrow> Status" where
  "ioError message = \<lparr>status_code = IoError, status_message = message\<rparr>"

definition corruption :: "string \<Rightarrow> Status" where
  "corruption message = \<lparr>status_code = Corruption, status_message = message\<rparr>"

definition closed :: "string \<Rightarrow> Status" where
  "closed message = \<lparr>status_code = Closed, status_message = message\<rparr>"

definition status_ok :: "Status \<Rightarrow> bool" where
  "status_ok s \<longleftrightarrow> status_code s = Ok"

fun statusCodeName :: "StatusCode \<Rightarrow> string" where
  "statusCodeName Ok = ''OK''"
| "statusCodeName NotFound = ''NOT_FOUND''"
| "statusCodeName InvalidArgument = ''INVALID_ARGUMENT''"
| "statusCodeName IoError = ''IO_ERROR''"
| "statusCodeName Corruption = ''CORRUPTION''"
| "statusCodeName Closed = ''CLOSED''"

definition toString :: "Status \<Rightarrow> string" where
  "toString s =
     (if status_ok s then ''OK'' else statusCodeName (status_code s) @ '': '' @ status_message s)"

text \<open>The code and the outcome of each named constructor.\<close>

lemma status_ok_simps [simp]:
  "status_ok Status_success"
  "\<not> status_ok (notFound m)"
  "\<not> status_ok (invalidArgument m)"
  "\<not> status_ok (ioError m)"
  "\<not> status_ok (corruption m)"
  "\<not> status_ok (closed m)"
  by (simp_all add: status_ok_def Status_success_def notFound_def invalidArgument_def ioError_def
      corruption_def closed_def)

lemma code_simps [simp]:
  "status_code Status_success = Ok"
  "status_code (notFound m) = NotFound"
  "status_code (invalidArgument m) = InvalidArgument"
  "status_code (ioError m) = IoError"
  "status_code (corruption m) = Corruption"
  "status_code (closed m) = Closed"
  by (simp_all add: Status_success_def notFound_def invalidArgument_def ioError_def
      corruption_def closed_def)

lemma message_simps [simp]:
  "status_message (notFound m) = m"
  "status_message (invalidArgument m) = m"
  "status_message (ioError m) = m"
  "status_message (corruption m) = m"
  "status_message (closed m) = m"
  by (simp_all add: notFound_def invalidArgument_def ioError_def corruption_def closed_def)

lemma statusCodeName_inject: "statusCodeName a = statusCodeName b \<longleftrightarrow> a = b"
  by (cases a; cases b) simp_all

text \<open>No code name contains a colon, so the rendering can be read back.\<close>

lemma statusCodeName_no_colon: "CHR '':'' \<notin> set (statusCodeName c)"
  by (cases c) simp_all

lemma takeWhile_no_colon:
  "CHR '':'' \<notin> set xs \<Longrightarrow> takeWhile (\<lambda>c. c \<noteq> CHR '':'') (xs @ CHR '':'' # ys) = xs"
  by (induction xs) auto

lemma toString_code:
  "takeWhile (\<lambda>c. c \<noteq> CHR '':'') (toString s) = statusCodeName (status_code s)"
proof (cases "status_ok s")
  case True
  then show ?thesis by (simp add: toString_def status_ok_def)
next
  case False
  then show ?thesis
    using takeWhile_no_colon [OF statusCodeName_no_colon, of "status_code s" "CHR '' '' # status_message s"]
    by (simp add: toString_def)
qed

end
