(* ===== verification/Results.thy ===== *)
theory Results
  imports Status
begin

text \<open>
  \<^verbatim>\<open>include/minikv/Result.h\<close>: the class template \<^verbatim>\<open>Result<T>\<close>, a status together with an
  optional value, whose accessors throw \<^verbatim>\<open>std::logic_error\<close> when there is nothing to access.

  The components of the model return a value of \<open>'a outcome\<close> (\<^const>\<open>Inl\<close> the failing
  status, \<^const>\<open>Inr\<close> the value) where the code returns a \<^verbatim>\<open>Result\<close>; \<open>to_Result\<close> is the object the
  code builds for it, and the lemmas below show that the two agree and that an accessor never
  throws after a successful \<^verbatim>\<open>ok()\<close> check.
\<close>

datatype exn = LogicError string

record 'a Result =
  res_status :: Status
  res_value :: "'a option"

definition Result_success :: "'a \<Rightarrow> 'a Result" where
  "Result_success v = \<lparr>res_status = Status_success, res_value = Some v\<rparr>"

definition Result_failure :: "Status \<Rightarrow> 'a Result" where
  "Result_failure st = \<lparr>res_status = st, res_value = None\<rparr>"

definition Result_ok :: "'a Result \<Rightarrow> bool" where
  "Result_ok r \<longleftrightarrow> status_ok (res_status r)"

definition ensureValue :: "'a Result \<Rightarrow> exn + unit" where
  "ensureValue r =
     (if \<not> Result_ok r \<or> res_value r = None
      then Inl (LogicError ''attempted to access a failed Result'') else Inr ())"

definition Result_value :: "'a Result \<Rightarrow> exn + 'a" where
  "Result_value r =
     (case ensureValue r of
        Inl e \<Rightarrow> Inl e
      | Inr _ \<Rightarrow> (case res_value r of Some v \<Rightarrow> Inr v
                  | None \<Rightarrow> Inl (LogicError ''bad optional access'')))"

type_synonym 'a outcome = "Status + 'a"

fun to_Result :: "'a outcome \<Rightarrow> 'a Result" where
  "to_Result (Inl st) = Result_failure st"
| "to_Result (Inr v) = Result_success v"

text \<open>An outcome is proper when its failures carry a status other than \<^const>\<open>Ok\<close>.\<close>

fun proper :: "'a outcome \<Rightarrow> bool" where
  "proper (Inl st) \<longleftrightarrow> \<not> status_ok st"
| "proper (Inr v) \<longleftrightarrow> True"

lemma Result_ok_simps [simp]:
  "Result_ok (Result_success v)"
  "Result_ok (Result_failure st) \<longleftrightarrow> status_ok st"
  by (simp_all add: Result_ok_def Result_success_def Result_failure_def)

lemma Result_value_success [simp]: "Result_value (Result_success v) = Inr v"
  by (simp add: Result_value_def ensureValue_def Result_ok_def Result_success_def)

lemma Result_value_failure [simp]:
  "Result_value (Result_failure st) = Inl (LogicError ''attempted to access a failed Result'')"
  by (simp add: Result_value_def ensureValue_def Result_failure_def)

lemma to_Result_ok_iff: "proper r \<Longrightarrow> Result_ok (to_Result r) \<longleftrightarrow> (\<exists>v. r = Inr v)"
  by (cases r) simp_all

lemma to_Result_value_iff: "Result_value (to_Result r) = Inr v \<longleftrightarrow> r = Inr v"
  by (cases r) simp_all

lemma proper_case_sum:
  "proper r \<longleftrightarrow> (case r of Inl st \<Rightarrow> \<not> status_ok st | Inr _ \<Rightarrow> True)"
  by (cases r) simp_all

end
