(* ===== verification/RecordCodec.thy ===== *)
theory RecordCodec
  imports Records Results Interfaces
begin

text \<open>
  The file-local part of \<^verbatim>\<open>src/AppendOnlyStore.cpp\<close>: little-endian fields of the 28-byte
  record header (\<^verbatim>\<open>put16\<close> \<dots> \<^verbatim>\<open>get64\<close>), \<^verbatim>\<open>makeHeader\<close>, \<^verbatim>\<open>parseHeader\<close> and \<^verbatim>\<open>writeRecord\<close>.
  A \<^verbatim>\<open>std::array<char, 28>\<close> is a \<^typ>\<open>string\<close> of length 28; every offset the code uses is
  in range.

  The lemmas give the byte layout of a header, the round trip of header and fields, and the
  fact that records form a prefix code, so that a log has one reading only.
\<close>

section \<open>Fields\<close>

definition put16 :: "string \<Rightarrow> nat \<Rightarrow> u16 \<Rightarrow> string" where
  "put16 bytes offset value =
     fold (\<lambda>index bs. bs[offset + index :=
       char_of_byte (ucast (drop_bit (index * 8) value AND 0xFF))]) [0..<2] bytes"

definition put32 :: "string \<Rightarrow> nat \<Rightarrow> u32 \<Rightarrow> string" where
  "put32 bytes offset value =
     fold (\<lambda>index bs. bs[offset + index :=
       char_of_byte (ucast (drop_bit (index * 8) value AND 0xFF))]) [0..<4] bytes"

definition put64 :: "string \<Rightarrow> nat \<Rightarrow> u64 \<Rightarrow> string" where
  "put64 bytes offset value =
     fold (\<lambda>index bs. bs[offset + index :=
       char_of_byte (ucast (drop_bit (index * 8) value AND 0xFF))]) [0..<8] bytes"

definition get16 :: "string \<Rightarrow> nat \<Rightarrow> u16" where
  "get16 bytes offset =
     fold (\<lambda>index value. value OR
       push_bit (index * 8) (ucast (byte_of_char (bytes ! (offset + index))))) [0..<2] 0"

definition get32 :: "string \<Rightarrow> nat \<Rightarrow> u32" where
  "get32 bytes offset =
     fold (\<lambda>index value. value OR
       push_bit (index * 8) (ucast (byte_of_char (bytes ! (offset + index))))) [0..<4] 0"

definition get64 :: "string \<Rightarrow> nat \<Rightarrow> u64" where
  "get64 bytes offset =
     fold (\<lambda>index value. value OR
       push_bit (index * 8) (ucast (byte_of_char (bytes ! (offset + index))))) [0..<8] 0"

section \<open>Headers\<close>

record ParsedHeader =
  ph_operation :: Operation
  ph_keySize :: u32
  ph_valueSize :: u32
  ph_expiresAtMs :: i64
  ph_checksum :: u32

definition makeHeader :: "Record \<Rightarrow> string" where
  "makeHeader r =
     (let header = replicate kRecordHeaderSize (char_of_byte 0);
          header = put32 header 0 kRecordMagic;
          header = put16 header 4 kRecordVersion;
          header = header[6 := char_of_byte (op_byte (rec_op r))];
          header = header[7 := char_of_byte 0];
          header = put32 header 8 (of_nat (length (rec_key r)));
          header = put32 header 12 (of_nat (length (rec_value r)));
          header = put64 header 16 (rec_expiresAtMs r)
      in put32 header 24
           (recordChecksum (rec_op r) (rec_expiresAtMs r) (rec_key r) (rec_value r)))"

definition parseHeader :: "string \<Rightarrow> ParsedHeader outcome" where
  "parseHeader header =
     (if get32 header 0 \<noteq> kRecordMagic
      then Inl (corruption ''record magic does not match MKV1'')
      else if get16 header 4 \<noteq> kRecordVersion
      then Inl (corruption ''unsupported record version'')
      else let operationByte = byte_of_char (header ! 6) in
      if operationByte \<noteq> op_byte OpSet \<and> operationByte \<noteq> op_byte OpDelete
      then Inl (corruption ''unknown record operation'')
      else
        let parsed = \<lparr>ph_operation = (if operationByte = op_byte OpSet then OpSet else OpDelete),
                      ph_keySize = get32 header 8,
                      ph_valueSize = get32 header 12,
                      ph_expiresAtMs = get64 header 16,
                      ph_checksum = get32 header 24\<rparr>
        in
        if ph_keySize parsed = 0 \<or> unat (ph_keySize parsed) > kMaximumKeySize
        then Inl (corruption ''invalid key size in record'')
        else if unat (ph_valueSize parsed) > kMaximumValueSize
        then Inl (corruption ''invalid value size in record'')
        else if ph_operation parsed = OpDelete \<and> ph_valueSize parsed \<noteq> 0
        then Inl (corruption ''delete record contains a value'')
        else Inr parsed)"

section \<open>Writing\<close>

text \<open>
  The output stream is the byte string written so far. \<open>fault = Some n\<close> is a failing write:
  only the first \<open>n\<close> bytes of the record reach the file and \<^verbatim>\<open>good()\<close> is false afterwards.
\<close>

definition writeRecord ::
  "nat option \<Rightarrow> string \<Rightarrow> Record \<Rightarrow> u64 \<Rightarrow> string \<times> RecordMetadata outcome" where
  "writeRecord fault output r recordOffset =
     (if rec_key r = [] \<or> length (rec_key r) > kMaximumKeySize
      then (output, Inl (invalidArgument ''key size is outside the supported range''))
      else if length (rec_value r) > kMaximumValueSize
      then (output, Inl (invalidArgument ''value exceeds 16 MiB''))
      else if rec_op r = OpDelete \<and> rec_value r \<noteq> []
      then (output, Inl (invalidArgument ''delete record must not contain a value''))
      else
        let bytes = makeHeader r @ rec_key r @ rec_value r
        in case fault of
             Some n \<Rightarrow> (output @ take n bytes, Inl (ioError ''failed to write append-only record''))
           | None \<Rightarrow>
               (output @ bytes,
                Inr \<lparr>md_recordOffset = recordOffset,
                     md_valueOffset =
                       recordOffset + of_nat kRecordHeaderSize + of_nat (length (rec_key r)),
                     md_valueSize = of_nat (length (rec_value r)),
                     md_expiresAtMs = rec_expiresAtMs r\<rparr>))"

section \<open>The bytes of a field\<close>

definition byte_at :: "nat \<Rightarrow> 'a::len word \<Rightarrow> char" where
  "byte_at i v = char_of_byte (ucast (drop_bit (i * 8) v AND 0xFF))"

definition le_bytes :: "nat \<Rightarrow> 'a::len word \<Rightarrow> string" where
  "le_bytes n v = map (\<lambda>i. byte_at i v) [0..<n]"

definition le_value :: "nat \<Rightarrow> nat \<Rightarrow> string \<Rightarrow> 'a::len word" where
  "le_value n offset bytes =
     fold (\<lambda>i v. v OR push_bit (i * 8) (ucast (byte_of_char (bytes ! (offset + i))))) [0..<n] 0"

lemma length_le_bytes [simp]: "length (le_bytes n v) = n"
  by (simp add: le_bytes_def)

lemma fold_update_segment:
  assumes "offset + n \<le> length bytes"
  shows "fold (\<lambda>i bs. bs[offset + i := f i]) [0..<n] bytes =
    take offset bytes @ map f [0..<n] @ drop (offset + n) bytes"
  using assms
proof (induction n)
  case 0
  then show ?case by simp
next
  case (Suc n)
  then have "drop (offset + n) bytes = bytes ! (offset + n) # drop (Suc (offset + n)) bytes"
    by (intro Cons_nth_drop_Suc [symmetric]) simp
  with Suc show ?case
    by (simp add: list_update_append)
qed

lemma put_segment:
  "offset + 2 \<le> length bytes \<Longrightarrow> put16 bytes offset v = take offset bytes @ le_bytes 2 v @ drop (offset + 2) bytes"
  "offset + 4 \<le> length bytes \<Longrightarrow> put32 bytes offset w = take offset bytes @ le_bytes 4 w @ drop (offset + 4) bytes"
  "offset + 8 \<le> length bytes \<Longrightarrow> put64 bytes offset x = take offset bytes @ le_bytes 8 x @ drop (offset + 8) bytes"
  unfolding put16_def put32_def put64_def le_bytes_def byte_at_def
  by (simp_all only: fold_update_segment)

lemma get_le_value:
  "get16 bytes offset = le_value 2 offset bytes"
  "get32 bytes offset = le_value 4 offset bytes"
  "get64 bytes offset = le_value 8 offset bytes"
  by (simp_all only: get16_def get32_def get64_def le_value_def)

lemma and_byte_mask: "v AND 0xFF = take_bit 8 (v :: 'a::len word)"
proof -
  have "(0xFF :: 'a word) = mask 8"
    by (simp add: mask_eq_exp_minus_1)
  then show ?thesis
    by (simp only: take_bit_eq_mask)
qed

lemma ucast_byte_at:
  fixes v :: "'a::len word"
  assumes "8 \<le> LENGTH('a)"
  shows "(ucast (byte_of_char (byte_at i v)) :: 'a word) = drop_bit (i * 8) v AND 0xFF"
  using assms
  by (intro bit_word_eqI) (auto simp: byte_at_def bit_ucast_iff and_byte_mask bit_take_bit_iff)

lemma take_bit_step:
  "take_bit (n * 8) v OR push_bit (n * 8) (drop_bit (n * 8) v AND 0xFF) = take_bit (Suc n * 8) v"
  for v :: "'a::len word"
  by (intro bit_word_eqI)
    (auto simp: bit_or_iff and_byte_mask bit_take_bit_iff bit_push_bit_iff bit_drop_bit_eq)

lemma le_value_le_bytes:
  fixes v :: "'a::len word"
  assumes "8 \<le> LENGTH('a)" and len: "length pre = offset"
  shows "n \<le> m \<Longrightarrow> le_value n offset (pre @ le_bytes m v @ post) = take_bit (n * 8) v"
proof (induction n)
  case 0
  show ?case by (simp add: le_value_def)
next
  case (Suc n)
  have "(pre @ le_bytes m v @ post) ! (offset + n) = byte_at n v"
    using len Suc.prems by (simp add: nth_append le_bytes_def)
  then have "le_value (Suc n) offset (pre @ le_bytes m v @ post) =
      take_bit (n * 8) v OR push_bit (n * 8) (drop_bit (n * 8) v AND 0xFF)"
    using Suc assms(1) by (simp add: le_value_def ucast_byte_at)
  then show ?case by (simp only: take_bit_step)
qed

text \<open>Reading a field back where it was written.\<close>

lemma get_at:
  "length pre = offset \<Longrightarrow> get16 (pre @ le_bytes 2 v @ post) offset = v"
  "length pre = offset \<Longrightarrow> get32 (pre @ le_bytes 4 w @ post) offset = w"
  "length pre = offset \<Longrightarrow> get64 (pre @ le_bytes 8 x @ post) offset = x"
  by (simp_all add: get_le_value le_value_le_bytes take_bit_word_eq_self)

text \<open>Conversely, the bytes of a field that was read.\<close>

lemma bit_le_value:
  assumes "n * 8 \<le> LENGTH('a)"
  shows "bit (le_value n offset bytes :: 'a::len word) m \<longleftrightarrow>
    m < n * 8 \<and> bit (byte_of_char (bytes ! (offset + m div 8))) (m mod 8)"
  using assms
proof (induction n)
  case 0
  then show ?case by (simp add: le_value_def)
next
  case (Suc n)
  have "bit (le_value (Suc n) offset bytes :: 'a word) m \<longleftrightarrow>
      bit (le_value n offset bytes :: 'a word) m \<or>
      (n * 8 \<le> m \<and> m < LENGTH('a) \<and> m - n * 8 < LENGTH('a) \<and>
       bit (byte_of_char (bytes ! (offset + n))) (m - n * 8))"
    by (auto simp: le_value_def bit_or_iff bit_push_bit_iff bit_ucast_iff)
  moreover have "m - n * 8 < 8" if "bit (byte_of_char (bytes ! (offset + n))) (m - n * 8)"
    using bit_imp_le_length [OF that] by simp
  moreover have "m div 8 = n \<and> m mod 8 = m - n * 8" if "n * 8 \<le> m" "m < Suc n * 8"
  proof -
    have d: "m div 8 = n" using that by (auto intro: div_nat_eqI)
    then show ?thesis by (simp add: modulo_nat_def)
  qed
  ultimately show ?case
    using Suc by (cases "m < n * 8") auto
qed

lemma byte_at_le_value:
  assumes "n * 8 \<le> LENGTH('a)" "i < n"
  shows "byte_at i (le_value n offset bytes :: 'a::len word) = bytes ! (offset + i)"
proof -
  have "ucast (drop_bit (i * 8) (le_value n offset bytes :: 'a word) AND 0xFF) =
      byte_of_char (bytes ! (offset + i))" (is "?l = ?r")
  proof (rule bit_word_eqI)
    fix m assume m: "m < LENGTH(8)"
    have "i * 8 + m < n * 8" using assms(2) m by simp
    moreover have "(i * 8 + m) div 8 = i" "(i * 8 + m) mod 8 = m" using m by simp_all
    ultimately show "bit ?l m = bit ?r m"
      using assms(1) m
      by (auto simp: bit_ucast_iff and_byte_mask bit_take_bit_iff bit_drop_bit_eq bit_le_value)
  qed
  then show ?thesis by (simp add: byte_at_def)
qed

lemma le_bytes_le_value:
  assumes "n * 8 \<le> LENGTH('a)" "offset + n \<le> length bytes"
  shows "le_bytes n (le_value n offset bytes :: 'a::len word) = take n (drop offset bytes)"
  using assms by (intro nth_equalityI) (auto simp: le_bytes_def byte_at_le_value)

lemma le_bytes_get:
  "offset + 2 \<le> length bytes \<Longrightarrow> le_bytes 2 (get16 bytes offset) = take 2 (drop offset bytes)"
  "offset + 4 \<le> length bytes \<Longrightarrow> le_bytes 4 (get32 bytes offset) = take 4 (drop offset bytes)"
  "offset + 8 \<le> length bytes \<Longrightarrow> le_bytes 8 (get64 bytes offset) = take 8 (drop offset bytes)"
  by (simp_all add: get_le_value le_bytes_le_value)

section \<open>The layout of a header\<close>

definition header_bytes :: "char \<Rightarrow> ParsedHeader \<Rightarrow> string" where
  "header_bytes reserved ph =
     le_bytes 4 kRecordMagic @ le_bytes 2 kRecordVersion @
     [char_of_byte (op_byte (ph_operation ph)), reserved] @
     le_bytes 4 (ph_keySize ph) @ le_bytes 4 (ph_valueSize ph) @
     le_bytes 8 (ph_expiresAtMs ph) @ le_bytes 4 (ph_checksum ph)"

definition header_ok :: "ParsedHeader \<Rightarrow> bool" where
  "header_ok ph \<longleftrightarrow>
     ph_keySize ph \<noteq> 0 \<and> unat (ph_keySize ph) \<le> kMaximumKeySize \<and>
     unat (ph_valueSize ph) \<le> kMaximumValueSize \<and>
     (ph_operation ph = OpDelete \<longrightarrow> ph_valueSize ph = 0)"

definition header_fields :: "Record \<Rightarrow> ParsedHeader" where
  "header_fields r =
     \<lparr>ph_operation = rec_op r, ph_keySize = of_nat (length (rec_key r)),
      ph_valueSize = of_nat (length (rec_value r)), ph_expiresAtMs = rec_expiresAtMs r,
      ph_checksum = recordChecksum (rec_op r) (rec_expiresAtMs r) (rec_key r) (rec_value r)\<rparr>"

lemma length_header_bytes [simp]: "length (header_bytes c ph) = 28"
  by (simp add: header_bytes_def)

lemma makeHeader_layout: "makeHeader r = header_bytes (char_of_byte 0) (header_fields r)"
proof -
  have "replicate 22 x = x # x # replicate 20 x" for x :: char
    by (simp add: numeral_eq_Suc)
  then show ?thesis
    by (simp add: makeHeader_def header_bytes_def header_fields_def put_segment Let_def
        format_constants list_update_append)
qed

lemma length_makeHeader [simp]: "length (makeHeader r) = 28"
  by (simp add: makeHeader_layout)

lemma header_bytes_get:
  "get32 (header_bytes c ph) 0 = kRecordMagic"
  "get16 (header_bytes c ph) 4 = kRecordVersion"
  "header_bytes c ph ! 6 = char_of_byte (op_byte (ph_operation ph))"
  "get32 (header_bytes c ph) 8 = ph_keySize ph"
  "get32 (header_bytes c ph) 12 = ph_valueSize ph"
  "get64 (header_bytes c ph) 16 = ph_expiresAtMs ph"
  "get32 (header_bytes c ph) 24 = ph_checksum ph"
proof -
  let ?m = "le_bytes 4 kRecordMagic" and ?v = "le_bytes 2 kRecordVersion"
  let ?o = "[char_of_byte (op_byte (ph_operation ph)), c]"
  let ?k = "le_bytes 4 (ph_keySize ph)" and ?s = "le_bytes 4 (ph_valueSize ph)"
  let ?e = "le_bytes 8 (ph_expiresAtMs ph)" and ?c = "le_bytes 4 (ph_checksum ph)"
  show "get32 (header_bytes c ph) 0 = kRecordMagic"
    unfolding header_bytes_def using get_at(2) [of "[]" 0] by simp
  show "get16 (header_bytes c ph) 4 = kRecordVersion"
    unfolding header_bytes_def using get_at(1) [of ?m 4] by simp
  show "header_bytes c ph ! 6 = char_of_byte (op_byte (ph_operation ph))"
    by (simp add: header_bytes_def nth_append)
  show "get32 (header_bytes c ph) 8 = ph_keySize ph"
    unfolding header_bytes_def using get_at(2) [of "?m @ ?v @ ?o" 8] by simp
  show "get32 (header_bytes c ph) 12 = ph_valueSize ph"
    unfolding header_bytes_def using get_at(2) [of "?m @ ?v @ ?o @ ?k" 12] by simp
  show "get64 (header_bytes c ph) 16 = ph_expiresAtMs ph"
    unfolding header_bytes_def using get_at(3) [of "?m @ ?v @ ?o @ ?k @ ?s" 16] by simp
  show "get32 (header_bytes c ph) 24 = ph_checksum ph"
    unfolding header_bytes_def using get_at(2) [of "?m @ ?v @ ?o @ ?k @ ?s @ ?e" 24 _ "[]"] by simp
qed

lemma take_segments: "take i (drop m xs) @ take j (drop (m + i) xs) = take (i + j) (drop m xs)"
  by (simp add: take_add add.commute)

lemma op_byte_cases: "b = op_byte OpSet \<or> b = op_byte OpDelete \<Longrightarrow>
    b = op_byte (if b = op_byte OpSet then OpSet else OpDelete)"
  by auto

text \<open>\<^verbatim>\<open>parseHeader\<close> reads back a well-formed header, whatever its reserved byte.\<close>

lemma parseHeader_header_bytes: "header_ok ph \<Longrightarrow> parseHeader (header_bytes c ph) = Inr ph"
  by (cases "ph_operation ph")
    (auto simp: parseHeader_def header_bytes_get header_ok_def Let_def)

lemma parseHeader_InrD:
  assumes "parseHeader h = Inr ph" "length h = 28"
  shows "header_ok ph" "h = header_bytes (h ! 7) ph"
proof -
  let ?b = "byte_of_char (h ! 6)"
  have f: "get32 h 0 = kRecordMagic" "get16 h 4 = kRecordVersion"
    "?b = op_byte OpSet \<or> ?b = op_byte OpDelete"
    "ph = \<lparr>ph_operation = (if ?b = op_byte OpSet then OpSet else OpDelete),
       ph_keySize = get32 h 8, ph_valueSize = get32 h 12, ph_expiresAtMs = get64 h 16,
       ph_checksum = get32 h 24\<rparr>"
    and ok: "header_ok ph"
    using assms(1) by (auto simp: parseHeader_def Let_def header_ok_def split: if_splits)
  show "header_ok ph" by (rule ok)
  have op: "char_of_byte (op_byte (ph_operation ph)) = h ! 6"
    using op_byte_cases [OF f(3)] f(4) by (metis ParsedHeader.select_convs(1) char_of_byte_of_char)
  have "header_bytes (h ! 7) ph =
      take 4 (drop 0 h) @ take 2 (drop 4 h) @ [h ! 6, h ! 7] @ take 4 (drop 8 h) @
      take 4 (drop 12 h) @ take 8 (drop 16 h) @ take 4 (drop 24 h)"
    unfolding header_bytes_def op using f(1,2) le_bytes_get [of 0 h] le_bytes_get [of 4 h]
      le_bytes_get [of 8 h] le_bytes_get [of 12 h] le_bytes_get [of 16 h] le_bytes_get [of 24 h]
      assms(2) by (simp add: f(4))
  also have "[h ! 6, h ! 7] = take 2 (drop 6 h)"
  proof -
    have "drop 6 h = h ! 6 # h ! 7 # drop 8 h"
      using Cons_nth_drop_Suc [of 6 h] Cons_nth_drop_Suc [of 7 h] assms(2) by simp
    then show ?thesis by simp
  qed
  also have "take 4 (drop 0 h) @ take 2 (drop 4 h) @ take 2 (drop 6 h) @ take 4 (drop 8 h) @
      take 4 (drop 12 h) @ take 8 (drop 16 h) @ take 4 (drop 24 h) = h"
    using take_segments [of 4 0 h 2] take_segments [of 6 0 h 2] take_segments [of 8 0 h 4]
      take_segments [of 12 0 h 4] take_segments [of 16 0 h 8] take_segments [of 24 0 h 4] assms(2)
    by (simp flip: append_assoc)
  finally show "h = header_bytes (h ! 7) ph" by simp
qed

section \<open>Records as bytes\<close>

definition validRecord :: "Record \<Rightarrow> bool" where
  "validRecord r \<longleftrightarrow>
     rec_key r \<noteq> [] \<and> length (rec_key r) \<le> kMaximumKeySize \<and>
     length (rec_value r) \<le> kMaximumValueSize \<and> (rec_op r = OpDelete \<longrightarrow> rec_value r = [])"

definition encodeRecord :: "Record \<Rightarrow> string" where
  "encodeRecord r = makeHeader r @ rec_key r @ rec_value r"

definition record_size :: "Record \<Rightarrow> nat" where
  "record_size r = kRecordHeaderSize + length (rec_key r) + length (rec_value r)"

definition record_metadata :: "u64 \<Rightarrow> Record \<Rightarrow> RecordMetadata" where
  "record_metadata offset r =
     \<lparr>md_recordOffset = offset,
      md_valueOffset = offset + of_nat kRecordHeaderSize + of_nat (length (rec_key r)),
      md_valueSize = of_nat (length (rec_value r)),
      md_expiresAtMs = rec_expiresAtMs r\<rparr>"

lemma length_encodeRecord [simp]: "length (encodeRecord r) = record_size r"
  by (simp add: encodeRecord_def record_size_def format_constants)

lemma record_size_ge: "28 \<le> record_size r"
  by (simp add: record_size_def format_constants)

lemma record_size_bound: "validRecord r \<Longrightarrow> record_size r \<le> 16781340"
  by (simp add: validRecord_def record_size_def format_constants)

lemma validRecord_sizes:
  assumes "validRecord r"
  shows "unat (of_nat (length (rec_key r)) :: u32) = length (rec_key r)"
    and "unat (of_nat (length (rec_value r)) :: u32) = length (rec_value r)"
  using assms by (simp_all add: validRecord_def format_constants unat_of_nat)

lemma header_fields_sizes:
  assumes "validRecord r"
  shows "unat (ph_keySize (header_fields r)) = length (rec_key r)"
    "unat (ph_valueSize (header_fields r)) = length (rec_value r)"
    "(ucast (ph_keySize (header_fields r)) :: u64) = of_nat (length (rec_key r))"
    "(ucast (ph_valueSize (header_fields r)) :: u64) = of_nat (length (rec_value r))"
proof -
  show s: "unat (ph_keySize (header_fields r)) = length (rec_key r)"
    "unat (ph_valueSize (header_fields r)) = length (rec_value r)"
    by (simp_all only: header_fields_def ParsedHeader.select_convs validRecord_sizes [OF assms])
  show "(ucast (ph_keySize (header_fields r)) :: u64) = of_nat (length (rec_key r))"
    "(ucast (ph_valueSize (header_fields r)) :: u64) = of_nat (length (rec_value r))"
    by (simp_all only: s [symmetric] of_nat_unat)
qed

lemma header_fields_simps [simp]:
  "ph_operation (header_fields r) = rec_op r"
  "ph_expiresAtMs (header_fields r) = rec_expiresAtMs r"
  "ph_checksum (header_fields r) =
     recordChecksum (rec_op r) (rec_expiresAtMs r) (rec_key r) (rec_value r)"
  by (simp_all add: header_fields_def)

lemma header_ok_fields: "validRecord r \<Longrightarrow> header_ok (header_fields r)"
  using validRecord_sizes [of r]
  by (auto simp: header_ok_def header_fields_def validRecord_def unat_eq_zero [symmetric]
      simp del: unat_eq_zero)

lemma parseHeader_makeHeader: "validRecord r \<Longrightarrow> parseHeader (makeHeader r) = Inr (header_fields r)"
  by (simp add: makeHeader_layout parseHeader_header_bytes header_ok_fields)

text \<open>\<^verbatim>\<open>writeRecord\<close> accepts exactly the valid records and appends their bytes.\<close>

lemma writeRecord_ok:
  "validRecord r \<Longrightarrow>
   writeRecord None output r offset = (output @ encodeRecord r, Inr (record_metadata offset r))"
  by (auto simp: writeRecord_def validRecord_def encodeRecord_def record_metadata_def)

lemma writeRecord_torn:
  "validRecord r \<Longrightarrow>
   writeRecord (Some n) output r offset =
     (output @ take n (encodeRecord r), Inl (ioError ''failed to write append-only record''))"
  by (auto simp: writeRecord_def validRecord_def encodeRecord_def)

lemma writeRecord_invalid:
  "\<not> validRecord r \<Longrightarrow> \<exists>m. writeRecord fault output r offset = (output, Inl (invalidArgument m))"
  by (auto simp: writeRecord_def validRecord_def)

lemma writeRecord_InrD:
  "writeRecord fault output r offset = (output', Inr md) \<Longrightarrow>
   validRecord r \<and> output' = output @ encodeRecord r \<and> md = record_metadata offset r"
  by (auto simp: writeRecord_def validRecord_def encodeRecord_def record_metadata_def Let_def
      split: if_splits option.splits)

lemma writeRecord_InlD:
  "writeRecord fault output r offset = (output', Inl st) \<Longrightarrow>
   \<not> status_ok st \<and> (\<exists>n. output' = output @ take n (encodeRecord r))"
  by (auto simp: writeRecord_def encodeRecord_def Let_def split: if_splits option.splits
      intro: exI [of _ 0])

text \<open>Two records whose encodings start the same stream are equal.\<close>

lemma encodeRecord_prefix_free:
  assumes "validRecord r" "validRecord r'" "encodeRecord r @ xs = encodeRecord r' @ ys"
  shows "r = r' \<and> xs = ys"
proof -
  have h: "makeHeader r = makeHeader r'"
    and rest: "rec_key r @ rec_value r @ xs = rec_key r' @ rec_value r' @ ys"
    using assms(3) append_eq_append_conv [of "makeHeader r" "makeHeader r'"]
    by (simp_all add: encodeRecord_def)
  have "header_fields r = header_fields r'"
    using parseHeader_makeHeader [OF assms(1)] parseHeader_makeHeader [OF assms(2)] h by simp
  then have eq: "ph_operation (header_fields r) = ph_operation (header_fields r')"
    "ph_expiresAtMs (header_fields r) = ph_expiresAtMs (header_fields r')"
    "unat (ph_keySize (header_fields r)) = unat (ph_keySize (header_fields r'))"
    "unat (ph_valueSize (header_fields r)) = unat (ph_valueSize (header_fields r'))"
    by simp_all
  have f: "rec_op r = rec_op r'" "rec_expiresAtMs r = rec_expiresAtMs r'"
    "length (rec_key r) = length (rec_key r')" "length (rec_value r) = length (rec_value r')"
    using eq validRecord_sizes [OF assms(1)] validRecord_sizes [OF assms(2)]
    by (simp_all only: header_fields_def ParsedHeader.select_convs)
  with rest have "rec_key r = rec_key r'" "rec_value r = rec_value r'" "xs = ys"
    by simp_all
  with f show ?thesis by simp
qed

interpretation records: prefix_code encodeRecord validRecord
proof unfold_locales
  show "encodeRecord r \<noteq> []" for r
    using record_size_ge [of r] by (metis length_encodeRecord list.size(3) not_numeral_le_zero)
  show "r = r' \<and> xs = ys"
    if "validRecord r" "validRecord r'" "encodeRecord r @ xs = encodeRecord r' @ ys"
    for r r' xs ys
    using that by (rule encodeRecord_prefix_free)
qed

end
