(* ===== verification/AppendOnlyStore.thy ===== *)
theory AppendOnlyStore
  imports RecordCodec
begin

text \<open>
  \<^verbatim>\<open>include/minikv/AppendOnlyStore.h\<close> and the class part of \<^verbatim>\<open>src/AppendOnlyStore.cpp\<close>: the
  append-only file with its recovery scan, appends, positioned reads and compaction.

  The state holds the path, whether \<^verbatim>\<open>file_\<close> is open, and the part of the disk the class owns: the
  data file and the compaction file, each absent or a byte string. Every public method holds
  \<^verbatim>\<open>fileMutex_\<close> for its whole body, so a method is one atomic function of the state. Every method
  that uses the stream first calls \<^verbatim>\<open>clear()\<close> and seeks, so neither the position nor the error
  bits of \<^verbatim>\<open>file_\<close> survive a method and they are not part of the state. No other process touches
  the two files.

  The operating system may fail. Each method takes a record of \<open>faults\<close> that says how every
  call that can fail behaves this time: an error message or flag, the number of bytes that a
  torn write leaves in the file, the number of bytes that a read delivers. The \<open>no_..._faults\<close>
  constants are the runs in which nothing fails. The wall clock read by \<^verbatim>\<open>recover\<close> is an argument.
\<close>

section \<open>State\<close>

record FileSystem =
  data_file :: "string option"
  tmp_file :: "string option"

record AppendOnlyStore =
  dataPath :: string
  file_open :: bool
  disk :: FileSystem

type_synonym index_map = "(string \<times> RecordMetadata) list"

record RecoveryState =
  rs_index :: index_map
  rs_validRecords :: u64
  rs_truncatedBytes :: u64

record CompactionState =
  comp_index :: index_map
  comp_oldFileBytes :: u64
  comp_newFileBytes :: u64

definition AppendOnlyStore_new :: "string \<Rightarrow> FileSystem \<Rightarrow> AppendOnlyStore" where
  "AppendOnlyStore_new path fs = \<lparr>dataPath = path, file_open = False, disk = fs\<rparr>"

definition AppendOnlyStore_close :: "AppendOnlyStore \<Rightarrow> AppendOnlyStore" where
  "AppendOnlyStore_close s = (if file_open s then s\<lparr>file_open := False\<rparr> else s)"

text \<open>The bytes of the data file, and writing them back.\<close>

definition contents :: "AppendOnlyStore \<Rightarrow> string" where
  "contents s = (case data_file (disk s) of Some bytes \<Rightarrow> bytes | None \<Rightarrow> [])"

definition set_contents :: "string \<Rightarrow> AppendOnlyStore \<Rightarrow> AppendOnlyStore" where
  "set_contents bytes s = s\<lparr>disk := (disk s)\<lparr>data_file := Some bytes\<rparr>\<rparr>"

definition set_temporary :: "string option \<Rightarrow> AppendOnlyStore \<Rightarrow> AppendOnlyStore" where
  "set_temporary bytes s = s\<lparr>disk := (disk s)\<lparr>tmp_file := bytes\<rparr>\<rparr>"

section \<open>Faults\<close>

record open_faults =
  of_mkdir :: "string option"
  of_create :: bool
  of_open :: bool

definition no_open_faults :: open_faults where
  "no_open_faults = \<lparr>of_mkdir = None, of_create = False, of_open = False\<rparr>"

type_synonym read_faults = "nat \<Rightarrow> nat \<Rightarrow> nat"

definition no_read_faults :: read_faults where
  "no_read_faults position requested = requested"

record recover_faults =
  rf_open :: open_faults
  rf_size :: "string option"
  rf_read :: read_faults
  rf_resize :: "string option"
  rf_reopen :: open_faults

definition no_recover_faults :: recover_faults where
  "no_recover_faults = \<lparr>rf_open = no_open_faults, rf_size = None, rf_read = no_read_faults,
     rf_resize = None, rf_reopen = no_open_faults\<rparr>"

record append_faults =
  af_open :: open_faults
  af_seek :: bool
  af_write :: "nat option"
  af_flush :: "nat option"

definition no_append_faults :: append_faults where
  "no_append_faults =
     \<lparr>af_open = no_open_faults, af_seek = False, af_write = None, af_flush = None\<rparr>"

record value_faults =
  vf_open :: open_faults
  vf_seek :: bool
  vf_read :: read_faults

definition no_value_faults :: value_faults where
  "no_value_faults = \<lparr>vf_open = no_open_faults, vf_seek = False, vf_read = no_read_faults\<rparr>"

record compact_faults =
  cf_open :: open_faults
  cf_size :: "string option"
  cf_stale :: bool
  cf_create :: bool
  cf_write :: "nat \<Rightarrow> nat option"
  cf_flush :: bool
  cf_remove :: bool
  cf_rename :: "string option"
  cf_reopen :: open_faults

definition no_compact_faults :: compact_faults where
  "no_compact_faults = \<lparr>cf_open = no_open_faults, cf_size = None, cf_stale = False,
     cf_create = False, cf_write = (\<lambda>_. None), cf_flush = False, cf_remove = False,
     cf_rename = None, cf_reopen = no_open_faults\<rparr>"

declare no_recover_faults_def [calm_env] no_append_faults_def [calm_env]
  no_value_faults_def [calm_env] no_compact_faults_def [calm_env]

section \<open>Opening\<close>

text \<open>\<^verbatim>\<open>parent_path()\<close> of a POSIX path is empty exactly when the path has no separator.\<close>

definition parent_path_empty :: "string \<Rightarrow> bool" where
  "parent_path_empty path \<longleftrightarrow> CHR ''/'' \<notin> set path"

definition ensureOpenLocked ::
  "open_faults \<Rightarrow> AppendOnlyStore \<Rightarrow> Status \<times> AppendOnlyStore" where
  "ensureOpenLocked io s =
     (if file_open s then (Status_success, s)
      else case (if parent_path_empty (dataPath s) then None else of_mkdir io) of
        Some message \<Rightarrow> (ioError (''failed to create data directory: '' @ message), s)
      | None \<Rightarrow>
          if data_file (disk s) = None \<and> of_create io
          then (ioError (''failed to create data file: '' @ dataPath s), s)
          else
            let s = (if data_file (disk s) = None then set_contents [] s else s)
            in if of_open io
               then (ioError (''failed to open data file: '' @ dataPath s), s)
               else (Status_success, s\<lparr>file_open := True\<rparr>))"

definition aos_open :: "open_faults \<Rightarrow> AppendOnlyStore \<Rightarrow> Status \<times> AppendOnlyStore" where
  "aos_open io s = ensureOpenLocked io s"

definition reopenLocked :: "open_faults \<Rightarrow> AppendOnlyStore \<Rightarrow> Status \<times> AppendOnlyStore" where
  "reopenLocked io s =
     (let s = (if file_open s then s\<lparr>file_open := False\<rparr> else s) in ensureOpenLocked io s)"

section \<open>Recovery\<close>

text \<open>\<^verbatim>\<open>file_.read\<close> at a position: what it delivers (\<^verbatim>\<open>gcount()\<close> is its length).\<close>

definition stream_read :: "read_faults \<Rightarrow> string \<Rightarrow> nat \<Rightarrow> nat \<Rightarrow> string" where
  "stream_read rd file position requested =
     take (rd position requested) (take requested (drop position file))"

text \<open>
  One round of the recovery loop. The scan of a record ends in one of three ways: the tail is
  incomplete (\<^verbatim>\<open>break\<close>), recovery fails (\<^verbatim>\<open>return\<close>), or a record was read.
\<close>

datatype Scan =
    ScanTruncated
  | ScanFailed Status
  | ScanRecord ParsedHeader string string u64

definition scanRecord :: "read_faults \<Rightarrow> string \<Rightarrow> u64 \<Rightarrow> u64 \<Rightarrow> Scan" where
  "scanRecord rd file position remaining =
     (if remaining < of_nat kRecordHeaderSize then ScanTruncated
      else
        let headerBytes = stream_read rd file (unat position) kRecordHeaderSize in
        if length headerBytes \<noteq> kRecordHeaderSize then ScanTruncated
        else case parseHeader headerBytes of
          Inl st \<Rightarrow>
            ScanFailed (corruption
              (''at byte '' @ to_string (unat position) @ '': '' @ status_message st))
        | Inr header \<Rightarrow>
            let payloadBytes = ucast (ph_keySize header) + ucast (ph_valueSize header) :: u64;
                recordBytes = of_nat kRecordHeaderSize + payloadBytes;
                keySize = unat (ph_keySize header);
                valueSize = unat (ph_valueSize header);
                keyAt = unat position + kRecordHeaderSize
            in
            if recordBytes > remaining then ScanTruncated
            else
              let key = stream_read rd file keyAt keySize in
              if length key \<noteq> keySize
              then ScanFailed (ioError ''failed while reading a record key'')
              else
                let value = stream_read rd file (keyAt + keySize) valueSize in
                if length value \<noteq> valueSize
                then ScanFailed (ioError ''failed while reading a record value'')
                else if recordChecksum (ph_operation header) (ph_expiresAtMs header) key value
                        \<noteq> ph_checksum header
                then ScanFailed (corruption
                       (''checksum mismatch at byte '' @ to_string (unat position)))
                else ScanRecord header key value recordBytes)"

definition replayRecord ::
  "i64 \<Rightarrow> u64 \<Rightarrow> ParsedHeader \<Rightarrow> string \<Rightarrow> index_map \<Rightarrow> index_map" where
  "replayRecord nowMs position header key idx =
     (if ph_operation header = OpDelete then AList.delete key idx
      else if isExpired (ph_expiresAtMs header) nowMs then AList.delete key idx
      else AList.update key
        \<lparr>md_recordOffset = position,
         md_valueOffset =
           position + of_nat kRecordHeaderSize + ucast (ph_keySize header),
         md_valueSize = ph_valueSize header,
         md_expiresAtMs = ph_expiresAtMs header\<rparr> idx)"

text \<open>A scanned record is at least a header long and fits into what remains.\<close>

lemma scanRecord_sizes:
  assumes "scanRecord rd file position remaining = ScanRecord h k v n"
  shows "unat n = 28 + unat (ph_keySize h) + unat (ph_valueSize h)" "n \<le> remaining" "header_ok h"
    "length k = unat (ph_keySize h)" "length v = unat (ph_valueSize h)"
proof -
  have p: "parseHeader (stream_read rd file (unat position) kRecordHeaderSize) = Inr h"
    and len: "length (stream_read rd file (unat position) kRecordHeaderSize) = 28"
    and n: "n = 28 + (ucast (ph_keySize h) + ucast (ph_valueSize h))" "n \<le> remaining"
    and kv: "length k = unat (ph_keySize h)" "length v = unat (ph_valueSize h)"
    using assms
    by (auto simp: scanRecord_def Let_def format_constants not_less split: if_splits sum.splits)
  show ok: "header_ok h" by (rule parseHeader_InrD(1) [OF p len])
  have "unat (ph_keySize h) \<le> 4096" "unat (ph_valueSize h) \<le> 16777216"
    using ok by (simp_all add: header_ok_def format_constants)
  then have "unat (ucast (ph_keySize h) + ucast (ph_valueSize h) :: u64) =
      unat (ph_keySize h) + unat (ph_valueSize h)"
    by (subst unat_add_in_range) simp_all
  then show "unat n = 28 + unat (ph_keySize h) + unat (ph_valueSize h)"
    using ok unfolding n(1) by (subst unat_add_in_range) (simp_all add: header_ok_def format_constants)
  show "n \<le> remaining" "length k = unat (ph_keySize h)" "length v = unat (ph_valueSize h)"
    by (fact n(2) kv)+
qed

lemma advance:
  assumes "position < totalBytes" "n \<le> totalBytes - position" "28 \<le> unat n"
  shows "unat (position + n) = unat position + unat n" "position + n \<le> totalBytes"
    "unat (totalBytes - (position + n)) < unat (totalBytes - (position :: u64))"
proof -
  have sub: "unat (totalBytes - position) = unat totalBytes - unat position"
    using assms(1) by (intro unat_sub_in_range) simp
  then have "unat n \<le> unat totalBytes - unat position"
    using assms(2) by (simp add: word_le_nat_alt)
  moreover have "unat position < unat totalBytes"
    using assms(1) by (simp add: word_less_nat_alt)
  moreover have "unat totalBytes < 2 ^ LENGTH(64)"
    by (rule unsigned_less)
  ultimately show s: "unat (position + n) = unat position + unat n"
    by (intro unat_add_in_range) linarith
  then show le: "position + n \<le> totalBytes"
    using \<open>unat n \<le> unat totalBytes - unat position\<close> \<open>unat position < unat totalBytes\<close>
    by (simp add: word_le_nat_alt)
  show "unat (totalBytes - (position + n)) < unat (totalBytes - position)"
    using s sub unat_sub_in_range [OF le] assms(3) \<open>unat position < unat totalBytes\<close> by linarith
qed

function recoverLoop ::
  "read_faults \<Rightarrow> i64 \<Rightarrow> string \<Rightarrow> u64 \<Rightarrow> u64 \<Rightarrow> RecoveryState \<Rightarrow> (RecoveryState \<times> u64) outcome" where
  "recoverLoop rd nowMs file totalBytes position state =
     (if position < totalBytes then
        let remaining = totalBytes - position in
        case scanRecord rd file position remaining of
          ScanTruncated \<Rightarrow> Inr (state\<lparr>rs_truncatedBytes := remaining\<rparr>, position)
        | ScanFailed st \<Rightarrow> Inl st
        | ScanRecord header key value recordBytes \<Rightarrow>
            recoverLoop rd nowMs file totalBytes (position + recordBytes)
              (state\<lparr>rs_index := replayRecord nowMs position header key (rs_index state),
                     rs_validRecords := rs_validRecords state + 1\<rparr>)
      else Inr (state, position))"
  by pat_completeness auto
termination
proof (relation "measure (\<lambda>(rd, nowMs, file, totalBytes, position, state). unat (totalBytes - position))", simp)
  fix rd nowMs bs totalBytes position state remaining h k v n
  assume "position < (totalBytes :: u64)" "remaining = totalBytes - position"
    "scanRecord rd bs position remaining = ScanRecord h k v n"
  then show "((rd, nowMs, bs, totalBytes, position + n,
       state\<lparr>rs_index := replayRecord nowMs position h k (rs_index state),
             rs_validRecords := rs_validRecords state + 1\<rparr>),
      (rd, nowMs, bs, totalBytes, position, state))
     \<in> measure (\<lambda>(rd, nowMs, bs, totalBytes, position, state). unat (totalBytes - position))"
    using scanRecord_sizes [of rd bs position remaining h k v n] advance(3) [of position totalBytes n]
    by simp
qed

declare recoverLoop.simps [simp del]

definition recover ::
  "recover_faults \<Rightarrow> i64 \<Rightarrow> AppendOnlyStore \<Rightarrow> RecoveryState outcome \<times> AppendOnlyStore" where
  "recover io nowMs s =
     (case ensureOpenLocked (rf_open io) s of (openStatus, s) \<Rightarrow>
      if \<not> status_ok openStatus then (Inl openStatus, s)
      else case rf_size io of
        Some message \<Rightarrow> (Inl (ioError (''failed to determine data file size: '' @ message)), s)
      | None \<Rightarrow>
          (case recoverLoop (rf_read io) nowMs (contents s) (of_nat (length (contents s))) 0
                  \<lparr>rs_index = [], rs_validRecords = 0, rs_truncatedBytes = 0\<rparr> of
             Inl st \<Rightarrow> (Inl st, s)
           | Inr (state, position) \<Rightarrow>
               if rs_truncatedBytes state > 0 then
                 (let s = s\<lparr>file_open := False\<rparr> in
                  case rf_resize io of
                    Some message \<Rightarrow>
                      (Inl (ioError (''failed to remove incomplete tail: '' @ message)), s)
                  | None \<Rightarrow>
                      (case reopenLocked (rf_reopen io)
                              (set_contents (take (unat position) (contents s)) s) of
                         (reopenStatus, s) \<Rightarrow>
                           if \<not> status_ok reopenStatus then (Inl reopenStatus, s)
                           else (Inr state, s)))
               else (Inr state, s)))"

section \<open>Appending\<close>

definition appendRecordLocked ::
  "append_faults \<Rightarrow> Record \<Rightarrow> AppendOnlyStore \<Rightarrow> RecordMetadata outcome \<times> AppendOnlyStore" where
  "appendRecordLocked io r s =
     (case ensureOpenLocked (af_open io) s of (openStatus, s) \<Rightarrow>
      if \<not> status_ok openStatus then (Inl openStatus, s)
      else if af_seek io then (Inl (ioError ''failed to seek to end of data file''), s)
      else
        let offset = of_nat (length (contents s)) in
        case writeRecord (af_write io) (contents s) r offset of
          (written, Inl st) \<Rightarrow> (Inl st, set_contents written s)
        | (written, Inr metadata) \<Rightarrow>
            (case af_flush io of
               Some n \<Rightarrow>
                 (Inl (ioError ''failed to flush append-only record''),
                  set_contents (take (length (contents s) + n) written) s)
             | None \<Rightarrow> (Inr metadata, set_contents written s)))"

definition appendSet ::
  "append_faults \<Rightarrow> string \<Rightarrow> string \<Rightarrow> i64 \<Rightarrow> AppendOnlyStore
   \<Rightarrow> RecordMetadata outcome \<times> AppendOnlyStore" where
  "appendSet io key value expiresAtMs s =
     appendRecordLocked io \<lparr>rec_op = OpSet, rec_key = key, rec_value = value,
       rec_expiresAtMs = expiresAtMs\<rparr> s"

definition appendDelete ::
  "append_faults \<Rightarrow> string \<Rightarrow> AppendOnlyStore \<Rightarrow> Status \<times> AppendOnlyStore" where
  "appendDelete io key s =
     (case appendRecordLocked io \<lparr>rec_op = OpDelete, rec_key = key, rec_value = [],
        rec_expiresAtMs = 0\<rparr> s of
        (Inl st, s) \<Rightarrow> (st, s)
      | (Inr _, s) \<Rightarrow> (Status_success, s))"

section \<open>Reading a value\<close>

definition readValue ::
  "value_faults \<Rightarrow> RecordMetadata \<Rightarrow> AppendOnlyStore \<Rightarrow> string outcome \<times> AppendOnlyStore" where
  "readValue io metadata s =
     (case ensureOpenLocked (vf_open io) s of (openStatus, s) \<Rightarrow>
      if \<not> status_ok openStatus then (Inl openStatus, s)
      else if vf_seek io \<or> sint (md_valueOffset metadata) < 0
      then (Inl (ioError ''failed to seek to value''), s)
      else
        let value = stream_read (vf_read io) (contents s)
                      (unat (md_valueOffset metadata)) (unat (md_valueSize metadata))
        in if length value \<noteq> unat (md_valueSize metadata)
           then (Inl (corruption ''value extends beyond the data file''), s)
           else (Inr value, s))"

section \<open>Compaction\<close>

text \<open>The loop over the live records: the temporary file so far, the offset, the new index.\<close>

fun compactLoop ::
  "(nat \<Rightarrow> nat option) \<Rightarrow> nat \<Rightarrow> Record list \<Rightarrow> string \<Rightarrow> u64 \<Rightarrow> index_map
   \<Rightarrow> string \<times> (index_map \<times> u64) outcome" where
  "compactLoop faults i [] output offset idx = (output, Inr (idx, offset))"
| "compactLoop faults i (r # rs) output offset idx =
     (case writeRecord (faults i) output r offset of
        (output, Inl st) \<Rightarrow> (output, Inl st)
      | (output, Inr metadata) \<Rightarrow>
          compactLoop faults (Suc i) rs output
            (offset + (of_nat kRecordHeaderSize + of_nat (length (rec_key r))
               + of_nat (length (rec_value r))))
            (AList.update (rec_key r) metadata idx))"

definition aos_compact ::
  "compact_faults \<Rightarrow> Record list \<Rightarrow> AppendOnlyStore
   \<Rightarrow> CompactionState outcome \<times> AppendOnlyStore" where
  "aos_compact io liveRecords s =
     (case ensureOpenLocked (cf_open io) s of (openStatus, s) \<Rightarrow>
      if \<not> status_ok openStatus then (Inl openStatus, s)
      else case cf_size io of
        Some message \<Rightarrow>
          (Inl (ioError (''failed to determine old data file size: '' @ message)), s)
      | None \<Rightarrow>
          let oldFileBytes = of_nat (length (contents s));
              s = (if cf_stale io then s else set_temporary None s)
          in
          if cf_create io then (Inl (ioError ''failed to create compaction file''), s)
          else
            case compactLoop (cf_write io) 0 liveRecords [] 0 [] of
              (output, Inl st) \<Rightarrow>
                (Inl st, set_temporary (if cf_remove io then Some output else None) s)
            | (output, Inr (idx, offset)) \<Rightarrow>
                if cf_flush io
                then (Inl (ioError ''failed to flush compaction file''),
                      set_temporary (if cf_remove io then Some output else None) s)
                else
                  let s = (set_temporary (Some output) s)\<lparr>file_open := False\<rparr>
                  in case cf_rename io of
                    Some message \<Rightarrow>
                      (case reopenLocked (cf_reopen io) s of (reopenStatus, s) \<Rightarrow>
                       if \<not> status_ok reopenStatus then (Inl reopenStatus, s)
                       else (Inl (ioError
                         (''failed to replace data file after compaction: '' @ message)), s))
                  | None \<Rightarrow>
                      (case reopenLocked (cf_reopen io)
                              (set_temporary None (set_contents output s)) of
                         (reopenStatus, s) \<Rightarrow>
                       if \<not> status_ok reopenStatus then (Inl reopenStatus, s)
                       else (Inr \<lparr>comp_index = idx, comp_oldFileBytes = oldFileBytes,
                                  comp_newFileBytes = offset\<rparr>, s)))"

text \<open>\<^verbatim>\<open>fileSize() const\<close>: 0 when the size cannot be determined.\<close>

definition fileSize :: "bool \<Rightarrow> AppendOnlyStore \<Rightarrow> u64" where
  "fileSize size_error s =
     (if size_error \<or> data_file (disk s) = None then 0 else of_nat (length (contents s)))"

end
