(* ===== verification/LogRecovery.thy ===== *)
theory LogRecovery
  imports AppendOnlyStore
begin

text \<open>
  What the recovery scan of \<^verbatim>\<open>AppendOnlyStore::recover\<close> computes. A log is the concatenation of
  encoded valid records; a torn tail is a proper prefix of one more record, which is what an
  interrupted append leaves. The reference \<open>log_state\<close> folds the records into the latest
  binding of each key. The lemmas show that the scan of a log with a torn tail rebuilds exactly
  the unexpired part of \<open>log_state\<close> and drops exactly the tail, that a changed payload byte is
  reported as corruption and leaves the file alone, and that whatever the scan accepts is a log.
\<close>

section \<open>Logs and their meaning\<close>

definition log_bytes :: "Record list \<Rightarrow> string" where
  "log_bytes rs = concat (map encodeRecord rs)"

definition torn_tail :: "string \<Rightarrow> bool" where
  "torn_tail tail \<longleftrightarrow>
     (\<exists>r n. validRecord r \<and> n < record_size r \<and> tail = take n (encodeRecord r))"

type_synonym log_map = "string \<rightharpoonup> RecordMetadata \<times> string"

fun log_state :: "nat \<Rightarrow> Record list \<Rightarrow> log_map \<Rightarrow> log_map" where
  "log_state off [] m = m"
| "log_state off (r # rs) m =
     log_state (off + record_size r) rs
       (case rec_op r of
          OpSet \<Rightarrow> m(rec_key r \<mapsto> (record_metadata (of_nat off) r, rec_value r))
        | OpDelete \<Rightarrow> m(rec_key r := None))"

text \<open>The metadata that a reader at time \<open>now\<close> may still see.\<close>

definition unexpired :: "i64 \<Rightarrow> log_map \<Rightarrow> string \<rightharpoonup> RecordMetadata" where
  "unexpired now m k =
     (case m k of
        None \<Rightarrow> None
      | Some (md, v) \<Rightarrow> if isExpired (md_expiresAtMs md) now then None else Some md)"

text \<open>The index that the scan builds from the records of a log.\<close>

fun replay :: "i64 \<Rightarrow> nat \<Rightarrow> Record list \<Rightarrow> index_map \<Rightarrow> index_map" where
  "replay now off [] idx = idx"
| "replay now off (r # rs) idx =
     replay now (off + record_size r) rs
       (replayRecord now (of_nat off) (header_fields r) (rec_key r) idx)"

lemma log_bytes_simps [simp]:
  "log_bytes [] = []"
  "log_bytes (r # rs) = encodeRecord r @ log_bytes rs"
  "log_bytes (rs @ rs') = log_bytes rs @ log_bytes rs'"
  by (simp_all add: log_bytes_def)

lemma log_state_append:
  "log_state off (rs @ rs') m = log_state (off + length (log_bytes rs)) rs' (log_state off rs m)"
  by (induction rs arbitrary: off m) (simp_all add: add.assoc)

lemma torn_tail_Nil [simp]: "torn_tail []"
proof -
  have "validRecord \<lparr>rec_op = OpSet, rec_key = ''k'', rec_value = [], rec_expiresAtMs = 0\<rparr>"
    by (simp add: validRecord_def format_constants)
  then show ?thesis
    unfolding torn_tail_def using record_size_ge by (metis le_zero_eq not_gr0 take0 zero_neq_numeral)
qed

lemma replayRecord_fields:
  assumes "validRecord r"
  shows "replayRecord now off (header_fields r) (rec_key r) idx =
     (if rec_op r = OpDelete \<or> isExpired (rec_expiresAtMs r) now then AList.delete (rec_key r) idx
      else AList.update (rec_key r) (record_metadata off r) idx)"
  unfolding replayRecord_def record_metadata_def header_fields_sizes(3) [OF assms]
  by (simp add: header_fields_def)

lemma distinct_replay:
  "\<forall>r \<in> set rs. validRecord r \<Longrightarrow> distinct (map fst idx) \<Longrightarrow> distinct (map fst (replay now off rs idx))"
  by (induction rs arbitrary: off idx) (auto simp: replayRecord_fields)

lemma map_of_replay:
  assumes "\<forall>r \<in> set rs. validRecord r" "map_of idx = unexpired now m"
  shows "map_of (replay now off rs idx) = unexpired now (log_state off rs m)"
  using assms
proof (induction rs arbitrary: off idx m)
  case Nil
  then show ?case by simp
next
  case (Cons r rs)
  let ?m = "case rec_op r of
      OpSet \<Rightarrow> m(rec_key r \<mapsto> (record_metadata (of_nat off) r, rec_value r))
    | OpDelete \<Rightarrow> m(rec_key r := None)"
  have "map_of (replayRecord now (of_nat off) (header_fields r) (rec_key r) idx) = unexpired now ?m"
    using Cons.prems
    by (auto simp: replayRecord_fields unexpired_def fun_eq_iff record_metadata_def
        split: Operation.splits)
  with Cons show ?case by simp
qed

section \<open>One round of the scan\<close>

lemma stream_read_no_faults [simp]:
  "stream_read no_read_faults file position n = take n (drop position file)"
  by (simp add: stream_read_def no_read_faults_def)

lemma remaining_word:
  "p \<le> length bs \<Longrightarrow> (of_nat (length bs) :: u64) - of_nat p = of_nat (length bs - p)"
  by (simp add: of_nat_diff)

text \<open>A header whose payload is complete and matches its checksum, whatever the reserved byte.\<close>

lemma scanRecord_complete:
  assumes bs: "drop p bs = header_bytes c h @ key @ value @ rest" and len: "length bs < 2 ^ 63"
    and h: "header_ok h" "length key = unat (ph_keySize h)" "length value = unat (ph_valueSize h)"
    and rem: "remaining = of_nat (length bs - p)"
  shows "scanRecord no_read_faults bs (of_nat p) remaining =
    (if recordChecksum (ph_operation h) (ph_expiresAtMs h) key value = ph_checksum h
     then ScanRecord h key value (of_nat (28 + length key + length value))
     else ScanFailed (corruption (''checksum mismatch at byte '' @ to_string p)))"
proof -
  let ?n = "28 + length key + length value"
  have "length (drop p bs) = length (header_bytes c h @ key @ value @ rest)"
    by (simp only: bs)
  then have fit: "?n \<le> length bs - p" and p: "p < length bs"
    by auto
  then have up: "unat (of_nat p :: u64) = p" and ur: "unat remaining = length bs - p"
    unfolding rem using len by (auto intro!: unat_of_nat_in_range simp del: of_nat_diff)
  have rb: "of_nat kRecordHeaderSize + (ucast (ph_keySize h) + ucast (ph_valueSize h)) = (of_nat ?n :: u64)"
    unfolding h(2,3) of_nat_add of_nat_unat by (simp add: format_constants add.assoc)
  have un: "unat (of_nat ?n :: u64) = ?n"
    using fit len by (intro unat_of_nat_in_range) simp
  have hd: "take kRecordHeaderSize (drop p bs) = header_bytes c h"
    by (simp add: bs format_constants)
  have "drop (p + 28) bs = drop 28 (drop p bs)" "drop (p + 28 + length key) bs = drop (28 + length key) (drop p bs)"
    by (simp_all add: add.commute add.left_commute)
  then have ky: "take (length key) (drop (p + 28) bs) = key"
    and vl: "take (length value) (drop (p + 28 + length key) bs) = value"
    by (simp_all add: bs)
  have big: "\<not> remaining < of_nat kRecordHeaderSize"
    using ur fit by (simp add: word_less_nat_alt format_constants)
  have fits: "\<not> remaining < of_nat ?n"
    using ur fit un by (simp only: word_less_nat_alt not_less)
  show ?thesis
    unfolding scanRecord_def stream_read_no_faults up hd Let_def rb
    using big fits parseHeader_header_bytes [OF h(1), of c] h(2,3) ky vl
    by (simp add: format_constants add.assoc)
qed

lemma scanRecord_whole:
  assumes "drop p bs = encodeRecord r @ rest" "length bs < 2 ^ 63" "validRecord r"
    and "remaining = of_nat (length bs - p)"
  shows "scanRecord no_read_faults bs (of_nat p) remaining =
    ScanRecord (header_fields r) (rec_key r) (rec_value r) (of_nat (record_size r))"
proof -
  have "drop p bs = header_bytes (char_of_byte 0) (header_fields r) @ rec_key r @ rec_value r @ rest"
    using assms(1) by (simp add: encodeRecord_def makeHeader_layout)
  from scanRecord_complete [OF this assms(2) header_ok_fields [OF assms(3)]
      header_fields_sizes(1,2) [OF assms(3), symmetric] assms(4)]
  show ?thesis
    by (simp only: header_fields_simps if_True simp_thms record_size_def kRecordHeaderSize_def)
qed

text \<open>A complete header whose payload does not fit into what remains.\<close>

lemma scanRecord_overlong:
  assumes bs: "drop p bs = header_bytes c h @ rest" and len: "length bs < 2 ^ 63" and h: "header_ok h"
    and short: "length rest < unat (ph_keySize h) + unat (ph_valueSize h)"
    and rem: "remaining = of_nat (length bs - p)"
  shows "scanRecord no_read_faults bs (of_nat p) remaining = ScanTruncated"
proof -
  let ?n = "28 + (unat (ph_keySize h) + unat (ph_valueSize h))"
  have lp: "length bs - p = 28 + length rest"
    using arg_cong [OF bs, of length] by simp
  then have p: "p < length bs" by simp
  then have up: "unat (of_nat p :: u64) = p"
    using len by (intro unat_of_nat_in_range) simp
  have ur: "unat remaining = length bs - p"
    unfolding rem using len by (intro unat_of_nat_in_range) (simp del: of_nat_diff)
  have hd: "take kRecordHeaderSize (drop p bs) = header_bytes c h"
    by (simp add: bs format_constants)
  have "of_nat kRecordHeaderSize + (ucast (ph_keySize h) + ucast (ph_valueSize h)) = (of_nat ?n :: u64)"
    by (simp add: format_constants)
  moreover have "?n < 2 ^ 63"
    using h by (auto simp: header_ok_def format_constants)
  then have "unat (of_nat ?n :: u64) = ?n"
    by (intro unat_of_nat_in_range) simp
  then have "remaining < of_nat ?n"
    unfolding word_less_nat_alt ur lp using short by linarith
  moreover have "\<not> remaining < of_nat kRecordHeaderSize"
    unfolding word_less_nat_alt ur lp by (simp add: format_constants)
  ultimately show ?thesis
    unfolding scanRecord_def stream_read_no_faults up hd Let_def
    using parseHeader_header_bytes [OF h, of c] by (simp add: format_constants)
qed

lemma scanRecord_torn:
  assumes bs: "drop p bs = take n (encodeRecord r)" and len: "length bs < 2 ^ 63"
    and r: "validRecord r" and n: "n < record_size r"
    and rem: "remaining = of_nat (length bs - p)"
  shows "scanRecord no_read_faults bs (of_nat p) remaining = ScanTruncated"
proof -
  have ln: "length bs - p = n"
    using arg_cong [OF bs, of length] n by simp
  have ur: "unat remaining = n"
    unfolding rem ln using len ln by (intro unat_of_nat_in_range) simp
  show ?thesis
  proof (cases "n < 28")
    case True
    with ur show ?thesis
      by (simp add: scanRecord_def word_less_nat_alt format_constants)
  next
    case False
    have "drop p bs = header_bytes (char_of_byte 0) (header_fields r) @ take (n - 28) (rec_key r @ rec_value r)"
      unfolding bs encodeRecord_def makeHeader_layout using False by simp
    then show ?thesis
      by (rule scanRecord_overlong [OF _ len header_ok_fields [OF r] _ rem])
        (use n False header_fields_sizes(1,2) [OF r] in \<open>auto simp: record_size_def format_constants\<close>)
  qed
qed

section \<open>The scan of a log with a torn tail\<close>

text \<open>The scan goes over the records of a log one by one and replays them.\<close>

lemma recoverLoop_records:
  assumes "\<forall>r \<in> set rs. validRecord r" "length bs < 2 ^ 63"
    and "drop p bs = log_bytes rs @ tail" "p \<le> length bs"
  shows "recoverLoop no_read_faults now bs (of_nat (length bs)) (of_nat p) st =
    recoverLoop no_read_faults now bs (of_nat (length bs)) (of_nat (p + length (log_bytes rs)))
      (st\<lparr>rs_index := replay now p rs (rs_index st),
          rs_validRecords := rs_validRecords st + of_nat (length rs)\<rparr>)"
  using assms(1,3,4)
proof (induction rs arbitrary: p st)
  case Nil
  then show ?case by simp
next
  case (Cons r rs)
  have r: "validRecord r" and dr: "drop p bs = encodeRecord r @ (log_bytes rs @ tail)"
    using Cons.prems by simp_all
  have "record_size r \<le> length (drop p bs)"
    by (simp add: dr)
  then have fit: "p + record_size r \<le> length bs" and p: "p < length bs"
    using Cons.prems(3) record_size_ge [of r] by auto
  have "(of_nat p :: u64) < of_nat (length bs)"
    using assms(2) p by (simp add: word_less_nat_alt unat_of_nat)
  moreover have "scanRecord no_read_faults bs (of_nat p) (of_nat (length bs) - of_nat p) =
      ScanRecord (header_fields r) (rec_key r) (rec_value r) (of_nat (record_size r))"
    using assms(2) r dr Cons.prems(3) by (simp add: remaining_word scanRecord_whole del: of_nat_diff)
  moreover have "drop (p + record_size r) bs = log_bytes rs @ tail"
    using arg_cong [OF dr, of "drop (record_size r)"] by (simp add: add.commute)
  ultimately show ?case
    using Cons.IH [of "p + record_size r"] Cons.prems(1) fit
    by (subst recoverLoop.simps) (simp add: add.assoc add.commute [of 1])
qed

lemma recoverLoop_cut:
  assumes "\<forall>r \<in> set rs. validRecord r" "length bs < 2 ^ 63"
    and dr: "drop p bs = log_bytes rs @ tail" and p: "p \<le> length bs"
    and cut: "tail \<noteq> [] \<Longrightarrow> scanRecord no_read_faults bs (of_nat (p + length (log_bytes rs)))
      (of_nat (length tail)) = ScanTruncated"
  shows "recoverLoop no_read_faults now bs (of_nat (length bs)) (of_nat p) st =
    Inr (st\<lparr>rs_index := replay now p rs (rs_index st),
            rs_validRecords := rs_validRecords st + of_nat (length rs),
            rs_truncatedBytes :=
              (if tail = [] then rs_truncatedBytes st else of_nat (length tail))\<rparr>,
         of_nat (p + length (log_bytes rs)))"
proof -
  let ?q = "p + length (log_bytes rs)"
  have lb: "length bs = ?q + length tail"
    using arg_cong [OF dr, of length] p by simp
  show ?thesis
  proof (cases "tail = []")
    case True
    with lb show ?thesis
      by (subst recoverLoop_records [OF assms(1,2) dr p]) (simp add: recoverLoop.simps)
  next
    case False
    have "?q < length bs" using lb False by simp
    then have "(of_nat ?q :: u64) < of_nat (length bs)"
      using assms(2) by (simp add: word_less_nat_alt unat_of_nat del: of_nat_add)
    moreover have "of_nat (length bs) - of_nat ?q = (of_nat (length tail) :: u64)"
      by (simp add: lb)
    ultimately show ?thesis
      using False cut
      by (subst recoverLoop_records [OF assms(1,2) dr p], subst recoverLoop.simps) simp
  qed
qed

lemma recoverLoop_log:
  assumes "\<forall>r \<in> set rs. validRecord r" "torn_tail tail" "length bs < 2 ^ 63"
    and dr: "drop p bs = log_bytes rs @ tail" and p: "p \<le> length bs"
  shows "recoverLoop no_read_faults now bs (of_nat (length bs)) (of_nat p) st =
    Inr (st\<lparr>rs_index := replay now p rs (rs_index st),
            rs_validRecords := rs_validRecords st + of_nat (length rs),
            rs_truncatedBytes :=
              (if tail = [] then rs_truncatedBytes st else of_nat (length tail))\<rparr>,
         of_nat (p + length (log_bytes rs)))"
proof (rule recoverLoop_cut [OF assms(1,3) dr p])
  obtain r n where t: "validRecord r" "n < record_size r" "tail = take n (encodeRecord r)"
    using assms(2) unfolding torn_tail_def by blast
  have "drop (p + length (log_bytes rs)) bs = take n (encodeRecord r)"
    using arg_cong [OF dr, of "drop (length (log_bytes rs))"] t(3) by (simp add: add.commute)
  moreover have "length tail = length bs - (p + length (log_bytes rs))"
    using arg_cong [OF dr, of length] p by simp
  ultimately show "scanRecord no_read_faults bs (of_nat (p + length (log_bytes rs)))
      (of_nat (length tail)) = ScanTruncated"
    using assms(3) t(1,2) by (intro scanRecord_torn) simp_all
qed

section \<open>Opening without faults\<close>

lemma ensureOpen_no_faults [calm_env]:
  "ensureOpenLocked no_open_faults s =
     (Status_success,
      if file_open s then s
      else (if data_file (disk s) = None then set_contents [] s else s)\<lparr>file_open := True\<rparr>)"
  by (simp add: ensureOpenLocked_def no_open_faults_def)

lemma contents_simps [simp]:
  "contents (set_contents bs s) = bs"
  "contents (set_temporary t s) = contents s"
  "contents (s\<lparr>file_open := b\<rparr>) = contents s"
  "data_file (disk (set_contents bs s)) = Some bs"
  "data_file (disk (set_temporary t s)) = data_file (disk s)"
  "tmp_file (disk (set_contents bs s)) = tmp_file (disk s)"
  "tmp_file (disk (set_temporary t s)) = t"
  "file_open (set_contents bs s) = file_open s"
  "file_open (set_temporary t s) = file_open s"
  "dataPath (set_contents bs s) = dataPath s"
  "dataPath (set_temporary t s) = dataPath s"
  by (simp_all add: contents_def set_contents_def set_temporary_def)

lemma contents_Some: "data_file (disk s) = Some bs \<Longrightarrow> contents s = bs"
  by (simp add: contents_def)

lemma set_contents_same: "data_file (disk s) = Some bs \<Longrightarrow> set_contents bs s = s"
  by (simp add: set_contents_def)

lemma set_contents_set_contents [simp]: "set_contents a (set_contents b s) = set_contents a s"
  by (simp add: set_contents_def)

section \<open>Recovery of a log with a torn tail\<close>

lemma recover_cut:
  assumes df: "data_file (disk s) = Some (log_bytes rs @ tail)"
    and rs: "\<forall>r \<in> set rs. validRecord r" and len: "length (log_bytes rs @ tail) < 2 ^ 63"
    and cut: "tail \<noteq> [] \<Longrightarrow> scanRecord no_read_faults (log_bytes rs @ tail) (of_nat (length (log_bytes rs)))
      (of_nat (length tail)) = ScanTruncated"
  shows "recover no_recover_faults now s =
    (Inr \<lparr>rs_index = replay now 0 rs [], rs_validRecords = of_nat (length rs),
          rs_truncatedBytes = of_nat (length tail)\<rparr>,
     (set_contents (log_bytes rs) s)\<lparr>file_open := True\<rparr>)"
proof -
  let ?bs = "log_bytes rs @ tail"
  let ?s = "s\<lparr>file_open := True\<rparr>"
  have open': "ensureOpenLocked no_open_faults s = (Status_success, ?s)"
    using df by (simp add: calm_env)
  have df': "data_file (disk ?s) = Some ?bs" "contents ?s = ?bs" "contents s = ?bs"
    using df by (simp_all add: contents_Some)
  have loop: "recoverLoop no_read_faults now ?bs (of_nat (length ?bs)) 0
      \<lparr>rs_index = [], rs_validRecords = 0, rs_truncatedBytes = 0\<rparr> =
    Inr (\<lparr>rs_index = replay now 0 rs [], rs_validRecords = of_nat (length rs),
          rs_truncatedBytes = of_nat (length tail)\<rparr>, of_nat (length (log_bytes rs)))"
    using recoverLoop_cut [OF rs len, of 0 tail] cut by simp
  have pos: "unat (of_nat (length (log_bytes rs)) :: u64) = length (log_bytes rs)"
    using len by (intro unat_of_nat_in_range) simp
  show ?thesis
  proof (cases "tail = []")
    case True
    with open' df df' loop show ?thesis
      by (simp add: recover_def calm_env set_contents_def)
  next
    case False
    moreover have "unat (of_nat (length tail) :: u64) = length tail"
      using len by (intro unat_of_nat_in_range) simp
    ultimately have "(0 :: u64) < of_nat (length tail)"
      by (simp add: word_less_nat_alt)
    with open' df' loop pos show ?thesis
      by (simp add: recover_def calm_env reopenLocked_def
          set_contents_def)
  qed
qed

theorem recover_log:
  assumes df: "data_file (disk s) = Some (log_bytes rs @ tail)"
    and rs: "\<forall>r \<in> set rs. validRecord r" and tail: "torn_tail tail"
    and len: "length (log_bytes rs @ tail) < 2 ^ 63"
  shows "recover no_recover_faults now s =
    (Inr \<lparr>rs_index = replay now 0 rs [], rs_validRecords = of_nat (length rs),
          rs_truncatedBytes = of_nat (length tail)\<rparr>,
     (set_contents (log_bytes rs) s)\<lparr>file_open := True\<rparr>)"
proof (rule recover_cut [OF df rs len])
  obtain r n where "validRecord r" "n < record_size r" "tail = take n (encodeRecord r)"
    using tail unfolding torn_tail_def by blast
  then show "scanRecord no_read_faults (log_bytes rs @ tail) (of_nat (length (log_bytes rs)))
      (of_nat (length tail)) = ScanTruncated"
    using len by (intro scanRecord_torn) simp_all
qed

section \<open>Corruption\<close>

text \<open>The scan up to a record whose payload does not match its checksum.\<close>

lemma recoverLoop_bad_checksum:
  assumes "\<forall>r \<in> set rs. validRecord r" "length bs < 2 ^ 63"
    and "drop p bs = log_bytes rs @ header_bytes c h @ key @ value @ rest" "p \<le> length bs"
    and h: "header_ok h" "length key = unat (ph_keySize h)" "length value = unat (ph_valueSize h)"
    and bad: "recordChecksum (ph_operation h) (ph_expiresAtMs h) key value \<noteq> ph_checksum h"
  shows "recoverLoop no_read_faults now bs (of_nat (length bs)) (of_nat p) st =
    Inl (corruption (''checksum mismatch at byte '' @ to_string (p + length (log_bytes rs))))"
proof -
  let ?q = "p + length (log_bytes rs)"
  let ?tail = "header_bytes c h @ key @ value @ rest"
  have lb: "length bs = ?q + length ?tail"
    using arg_cong [OF assms(3), of length] assms(4) by simp
  have dr: "drop ?q bs = ?tail"
    using arg_cong [OF assms(3), of "drop (length (log_bytes rs))"] by (simp add: add.commute)
  have "?q < length bs" using lb by simp
  then have "(of_nat ?q :: u64) < of_nat (length bs)"
    using assms(2) by (simp add: word_less_nat_alt unat_of_nat del: of_nat_add)
  moreover have "of_nat (length bs) - of_nat ?q = (of_nat (length bs - ?q) :: u64)"
    by (simp add: lb)
  moreover have "scanRecord no_read_faults bs (of_nat ?q) (of_nat (length bs - ?q)) =
      ScanFailed (corruption (''checksum mismatch at byte '' @ to_string ?q))"
    using scanRecord_complete [OF dr assms(2) h refl] bad by simp
  ultimately show ?thesis
    by (subst recoverLoop_records [OF assms(1-4)], subst recoverLoop.simps) (simp del: of_nat_add of_nat_diff)
qed

text \<open>
  One changed byte in the key or in the value of any record of the log: recovery reports
  corruption at that record and leaves the file as it was.
\<close>

lemma recover_bad_checksum:
  assumes df: "data_file (disk s) =
      Some (log_bytes rs @ header_bytes c h @ key @ value @ rest)"
    and rs: "\<forall>r \<in> set rs. validRecord r"
    and len: "length (log_bytes rs @ header_bytes c h @ key @ value @ rest) < 2 ^ 63"
    and h: "header_ok h" "length key = unat (ph_keySize h)" "length value = unat (ph_valueSize h)"
    and bad: "recordChecksum (ph_operation h) (ph_expiresAtMs h) key value \<noteq> ph_checksum h"
  shows "recover no_recover_faults now s =
    (Inl (corruption (''checksum mismatch at byte '' @ to_string (length (log_bytes rs)))),
     s\<lparr>file_open := True\<rparr>)"
proof -
  let ?bs = "log_bytes rs @ header_bytes c h @ key @ value @ rest"
  have "ensureOpenLocked no_open_faults s = (Status_success, s\<lparr>file_open := True\<rparr>)"
    using df by (simp add: calm_env)
  moreover have "contents s = ?bs"
    using df by (rule contents_Some)
  moreover have "recoverLoop no_read_faults now ?bs (of_nat (length ?bs)) 0 st =
      Inl (corruption (''checksum mismatch at byte '' @ to_string (length (log_bytes rs))))" for st
    using recoverLoop_bad_checksum [OF rs len, of 0 c h key "value" rest] h bad by simp
  ultimately show ?thesis
    by (simp add: recover_def calm_env)
qed

section \<open>Whatever the scan accepts is a log\<close>

text \<open>
  A record of a file the scan accepted: its encoding up to the reserved header byte, which
  \<^verbatim>\<open>parseHeader\<close> does not look at.
\<close>

definition encodeWith :: "char \<Rightarrow> Record \<Rightarrow> string" where
  "encodeWith c r = header_bytes c (header_fields r) @ rec_key r @ rec_value r"

lemma encodeWith_zero: "encodeWith (char_of_byte 0) r = encodeRecord r"
  by (simp add: encodeWith_def encodeRecord_def makeHeader_layout)

lemma scanRecord_sound:
  assumes scan: "scanRecord no_read_faults bs (of_nat p) remaining = ScanRecord h k v n"
    and p: "p < length bs" "length bs < 2 ^ 63" and rem: "remaining = of_nat (length bs - p)"
  obtains c r where "validRecord r" "header_fields r = h" "rec_key r = k" "rec_value r = v"
    "take (unat n) (drop p bs) = encodeWith c r" "unat n = record_size r" "p + unat n \<le> length bs"
proof -
  let ?r = "\<lparr>rec_op = ph_operation h, rec_key = k, rec_value = v, rec_expiresAtMs = ph_expiresAtMs h\<rparr>"
  let ?h = "take 28 (drop p bs)"
  have up: "unat (of_nat p :: u64) = p" and ur: "unat remaining = length bs - p"
    unfolding rem using p by (auto intro!: unat_of_nat_in_range simp del: of_nat_diff)
  note sz = scanRecord_sizes [OF scan]
  have f: "length ?h = 28" "parseHeader ?h = Inr h"
    "k = take (unat (ph_keySize h)) (drop (p + 28) bs)"
    "v = take (unat (ph_valueSize h)) (drop (p + 28 + unat (ph_keySize h)) bs)"
    "recordChecksum (ph_operation h) (ph_expiresAtMs h) k v = ph_checksum h"
    using scan by (auto simp: scanRecord_def Let_def up kRecordHeaderSize_def
        split: if_splits sum.splits)
  have "unat n \<le> length bs - p"
    using sz(2) ur by (simp add: word_le_nat_alt)
  then have fit: "p + unat n \<le> length bs" using p by simp
  have "(of_nat (length k) :: u32) = ph_keySize h" "(of_nat (length v) :: u32) = ph_valueSize h"
    using sz(4,5) by simp_all
  then have hf: "header_fields ?r = h"
    using f(5) by (simp add: header_fields_def)
  have "k \<noteq> []"
    using sz(3,4) by (auto simp: header_ok_def unat_eq_zero)
  then have valid: "validRecord ?r"
    using sz(3,4,5) by (auto simp: header_ok_def validRecord_def)
  have "?h = header_bytes (?h ! 7) h"
    by (rule parseHeader_InrD(2) [OF f(2,1)])
  moreover have "take (unat n) (drop p bs) = ?h @ k @ v"
    using take_segments [of 28 p bs "unat (ph_keySize h)"]
      take_segments [of "28 + unat (ph_keySize h)" p bs "unat (ph_valueSize h)"] f(3,4)
    unfolding sz(1) by (metis append.assoc add.assoc)
  ultimately have "take (unat n) (drop p bs) = encodeWith (?h ! 7) ?r"
    unfolding encodeWith_def hf Record.select_convs by (metis append.assoc)
  moreover have "unat n = record_size ?r"
    using sz by (simp add: record_size_def format_constants)
  ultimately show ?thesis
    using that [of ?r] valid hf fit by simp
qed

lemma recoverLoop_sound:
  assumes "recoverLoop no_read_faults now bs (of_nat (length bs)) (of_nat p) st = Inr (st', pos)"
    and "length bs < 2 ^ 63" "p \<le> length bs"
  shows "\<exists>crs. (\<forall>(c, r) \<in> set crs. validRecord r) \<and> unat pos \<le> length bs \<and>
    take (unat pos - p) (drop p bs) = concat (map (\<lambda>(c, r). encodeWith c r) crs) \<and>
    rs_validRecords st' = rs_validRecords st + of_nat (length crs) \<and>
    rs_index st' = replay now p (map snd crs) (rs_index st) \<and> p \<le> unat pos"
  using assms
proof (induction "length bs - p" arbitrary: p st rule: less_induct)
  case less
  show ?case
  proof (cases "p < length bs")
    case False
    with less.prems have "p = length bs" by simp
    with less.prems show ?thesis
      by (intro exI [of _ "[]"]) (auto simp: recoverLoop.simps unat_of_nat)
  next
    case True
    then have lt: "(of_nat p :: u64) < of_nat (length bs)"
      using less.prems(2) by (simp add: word_less_nat_alt unat_of_nat)
    let ?rem = "of_nat (length bs) - of_nat p :: u64"
    have rem: "?rem = of_nat (length bs - p)"
      using True by simp
    show ?thesis
    proof (cases "scanRecord no_read_faults bs (of_nat p) ?rem")
      case ScanTruncated
      with less.prems lt True show ?thesis
        by (intro exI [of _ "[]"]) (auto simp: recoverLoop.simps [of _ _ _ _ "of_nat p"] unat_of_nat)
    next
      case (ScanFailed st)
      with less.prems lt show ?thesis by (simp add: recoverLoop.simps [of _ _ _ _ "of_nat p"])
    next
      case (ScanRecord h k v n)
      obtain c r where r: "validRecord r" "header_fields r = h" "rec_key r = k" "rec_value r = v"
        "take (unat n) (drop p bs) = encodeWith c r" "unat n = record_size r" "p + unat n \<le> length bs"
        using scanRecord_sound [OF ScanRecord True less.prems(2) rem] by blast
      let ?p = "p + record_size r"
      let ?st = "st\<lparr>rs_index := replayRecord now (of_nat p) h k (rs_index st),
                  rs_validRecords := rs_validRecords st + 1\<rparr>"
      have n: "n = of_nat (record_size r)" using r(6) by (metis of_nat_unat ucast_id)
      have "recoverLoop no_read_faults now bs (of_nat (length bs)) (of_nat ?p) ?st = Inr (st', pos)"
        using less.prems(1) lt ScanRecord n
        by (simp add: recoverLoop.simps [of _ _ _ _ "of_nat p"])
      moreover have "length bs - ?p < length bs - p"
        using record_size_ge [of r] True by simp
      ultimately obtain crs where crs: "\<forall>(c, r) \<in> set crs. validRecord r" "unat pos \<le> length bs"
        "take (unat pos - ?p) (drop ?p bs) = concat (map (\<lambda>(c, r). encodeWith c r) crs)"
        "rs_validRecords st' = rs_validRecords ?st + of_nat (length crs)"
        "rs_index st' = replay now ?p (map snd crs) (rs_index ?st)" "?p \<le> unat pos"
        using less.hyps [of ?p ?st] less.prems(2) r(6,7) by auto
      have "take (unat pos - p) (drop p bs) =
          take (record_size r) (drop p bs) @ take (unat pos - ?p) (drop ?p bs)"
        using take_add [of "record_size r" "unat pos - ?p" "drop p bs"] crs(6)
        by (simp add: add.commute)
      then show ?thesis
        using crs r by (intro exI [of _ "(c, r) # crs"]) auto
    qed
  qed
qed

text \<open>The bytes the scan reports as truncated are exactly those behind the last record.\<close>

lemma recoverLoop_truncated:
  assumes "recoverLoop no_read_faults now bs (of_nat (length bs)) (of_nat p) st = Inr (st', pos)"
    and "length bs < 2 ^ 63" "p \<le> length bs"
  shows "rs_truncatedBytes st' =
    (if unat pos = length bs then rs_truncatedBytes st else of_nat (length bs - unat pos))"
  using assms
proof (induction "length bs - p" arbitrary: p st rule: less_induct)
  case less
  show ?case
  proof (cases "p < length bs")
    case False
    with less.prems have "p = length bs" by simp
    with less.prems show ?thesis by (auto simp: recoverLoop.simps unat_of_nat)
  next
    case True
    then have lt: "(of_nat p :: u64) < of_nat (length bs)"
      using less.prems(2) by (simp add: word_less_nat_alt unat_of_nat)
    have up: "unat (of_nat p :: u64) = p"
      using less.prems(2) True by (intro unat_of_nat_in_range) simp
    have rem: "(of_nat (length bs) - of_nat p :: u64) = of_nat (length bs - p)"
      using True by simp
    show ?thesis
    proof (cases "scanRecord no_read_faults bs (of_nat p) (of_nat (length bs) - of_nat p)")
      case ScanTruncated
      with less.prems(1) lt have "st' = st\<lparr>rs_truncatedBytes := of_nat (length bs - p)\<rparr>" "pos = of_nat p"
        unfolding rem by (auto simp: recoverLoop.simps [of _ _ _ _ "of_nat p"] rem simp del: of_nat_diff)
      with up True show ?thesis by simp
    next
      case (ScanFailed st)
      with less.prems lt show ?thesis by (simp add: recoverLoop.simps [of _ _ _ _ "of_nat p"])
    next
      case (ScanRecord h k v n)
      obtain c r where r: "unat n = record_size r" "p + unat n \<le> length bs"
        using scanRecord_sound [OF ScanRecord True less.prems(2) rem] by blast
      have n: "n = of_nat (record_size r)" using r(1) by (metis of_nat_unat ucast_id)
      let ?st = "st\<lparr>rs_index := replayRecord now (of_nat p) h k (rs_index st),
                  rs_validRecords := rs_validRecords st + 1\<rparr>"
      have "recoverLoop no_read_faults now bs (of_nat (length bs)) (of_nat (p + record_size r)) ?st =
          Inr (st', pos)"
        using less.prems(1) lt ScanRecord n by (simp add: recoverLoop.simps [of _ _ _ _ "of_nat p"])
      moreover have "length bs - (p + record_size r) < length bs - p"
        using record_size_ge [of r] True by simp
      ultimately show ?thesis
        using less.hyps [of "p + record_size r" ?st] less.prems(2) r by simp
    qed
  qed
qed

lemma recoverLoop_complete:
  assumes "recoverLoop no_read_faults now bs (of_nat (length bs)) (of_nat 0) st = Inr (st', pos)"
    and "length bs < 2 ^ 63" "rs_truncatedBytes st = 0" "\<not> 0 < rs_truncatedBytes st'"
    and "unat pos \<le> length bs"
  shows "unat pos = length bs"
proof (rule ccontr)
  assume ne: "unat pos \<noteq> length bs"
  let ?n = "length bs - unat pos"
  have "unat (of_nat ?n :: u64) = ?n"
    using assms(2) by (intro unat_of_nat_in_range) simp
  moreover have "0 < ?n" using ne assms(5) by simp
  moreover have "rs_truncatedBytes st' = of_nat ?n"
    using recoverLoop_truncated [OF assms(1,2)] ne by simp
  ultimately show False
    using assms(4) by (simp add: word_less_nat_alt)
qed

end
