(* ===== verification/KeyValueStore.thy ===== *)
theory KeyValueStore
  imports LruCache LogRecovery
begin

text \<open>
  \<^verbatim>\<open>include/minikv/KeyValueStore.h\<close> and \<^verbatim>\<open>src/KeyValueStore.cpp\<close>: the engine. Its state is the
  configuration, the storage back end, the cache, the index, the open and stop flags, whether the
  cleaner thread is joinable, and the counters.

  Each method is cut at its locks into sections, and is their composition as one thread runs them.
  The checks before a lock are \<open>set_checks\<close>, \<open>get_checks\<close>, \<open>remove_checks\<close> and the tests of
  \<^verbatim>\<open>opened_\<close>. What runs under the exclusive \<^verbatim>\<open>indexMutex_\<close> is one section: \<open>set_locked\<close>,
  \<open>eraseIfExpired\<close>, \<open>remove_locked\<close>, \<open>sweep_locked\<close>, \<open>compact_locked\<close>. Under the shared lock KEYS reads
  the index once (\<open>keys_section\<close>), and GET has three sections, one for each call on the cache or the
  storage (\<open>get_lookup\<close>, \<open>get_read\<close>, \<open>get_fill\<close>, composed in \<open>get_shared\<close>). \<open>Concurrency\<close> interleaves
  the sections of several threads.

  The wall clock (each method reads it at most once) and the faults of the storage calls are
  arguments. \<^verbatim>\<open>unixTimeMilliseconds() + ttl->count()\<close> is a signed addition: where it overflows the
  C++ standard leaves the behaviour undefined, and the model has the two's complement wrap-around
  that compilers emit. An unordered container iterates in an unspecified order, which is
  the order of the association list; every result the methods compute from it is sorted.
\<close>

section \<open>State\<close>

record StoreConfig =
  cfg_dataFile :: string
  cfg_cacheCapacity :: nat
  cfg_cleanupInterval :: i64
  cfg_startBackgroundCleaner :: bool

record EngineStatistics =
  st_keyCount :: nat
  st_dataFileBytes :: u64
  st_getOperations :: u64
  st_setOperations :: u64
  st_deleteOperations :: u64
  st_expiredKeys :: u64
  st_compactions :: u64
  st_recoveredRecords :: u64
  st_truncatedTailBytes :: u64
  st_cache :: CacheStatistics

record CompactionSummary =
  sum_liveKeys :: nat
  sum_oldFileBytes :: u64
  sum_newFileBytes :: u64

record KeyValueStore =
  kv_config :: StoreConfig
  kv_storage :: AppendOnlyStore
  kv_cache :: "(string, string) LruCache"
  kv_index :: index_map
  kv_opened :: bool
  kv_stopRequested :: bool
  kv_cleaner :: bool
  kv_getOperations :: u64
  kv_setOperations :: u64
  kv_deleteOperations :: u64
  kv_expiredKeys :: u64
  kv_compactions :: u64
  kv_recoveredRecords :: u64
  kv_truncatedTailBytes :: u64

definition KeyValueStore_new :: "StoreConfig \<Rightarrow> FileSystem \<Rightarrow> KeyValueStore" where
  "KeyValueStore_new cfg fs =
     \<lparr>kv_config = cfg, kv_storage = AppendOnlyStore_new (cfg_dataFile cfg) fs,
      kv_cache = lru_new (cfg_cacheCapacity cfg), kv_index = [], kv_opened = False,
      kv_stopRequested = False, kv_cleaner = False, kv_getOperations = 0, kv_setOperations = 0,
      kv_deleteOperations = 0, kv_expiredKeys = 0, kv_compactions = 0,
      kv_recoveredRecords = 0, kv_truncatedTailBytes = 0\<rparr>"

section \<open>Opening and closing\<close>

record store_open_faults =
  so_open :: open_faults
  so_recover :: recover_faults
  so_thread :: "string option"

definition no_store_open_faults :: store_open_faults where
  "no_store_open_faults =
     \<lparr>so_open = no_open_faults, so_recover = no_recover_faults, so_thread = None\<rparr>"

declare no_store_open_faults_def [calm_env]

definition kv_open ::
  "store_open_faults \<Rightarrow> i64 \<Rightarrow> KeyValueStore \<Rightarrow> Status \<times> KeyValueStore" where
  "kv_open io nowMs s =
     (if kv_opened s then (Status_success, s)
      else if sint (cfg_cleanupInterval (kv_config s)) \<le> 0
      then (invalidArgument ''cleanup interval must be greater than zero'', s)
      else case aos_open (so_open io) (kv_storage s) of (openStatus, storage) \<Rightarrow>
        let s = s\<lparr>kv_storage := storage\<rparr> in
        if \<not> status_ok openStatus then (openStatus, s)
        else case recover (so_recover io) nowMs (kv_storage s) of
          (Inl st, storage) \<Rightarrow> (st, s\<lparr>kv_storage := storage\<rparr>)
        | (Inr state, storage) \<Rightarrow>
            let s = s\<lparr>kv_storage := storage, kv_index := rs_index state,
                     kv_cache := lru_clear (kv_cache s),
                     kv_recoveredRecords := rs_validRecords state,
                     kv_truncatedTailBytes := rs_truncatedBytes state,
                     kv_stopRequested := False, kv_opened := True\<rparr>
            in if cfg_startBackgroundCleaner (kv_config s)
               then case so_thread io of
                   Some what \<Rightarrow>
                     (ioError (''failed to start cleaner thread: '' @ what),
                      s\<lparr>kv_opened := False\<rparr>)
                 | None \<Rightarrow> (Status_success, s\<lparr>kv_cleaner := True\<rparr>)
               else (Status_success, s))"

definition kv_close :: "KeyValueStore \<Rightarrow> Status \<times> KeyValueStore" where
  "kv_close s =
     (let wasOpen = kv_opened s; s = s\<lparr>kv_opened := False\<rparr>
      in if \<not> wasOpen then (Status_success, s)
         else (Status_success,
               s\<lparr>kv_stopRequested := True,
                 kv_cleaner := (if kv_cleaner s then False else kv_cleaner s)\<rparr>))"

text \<open>The destructor: \<^verbatim>\<open>close()\<close>, then the storage closes its file.\<close>

definition kv_destroy :: "KeyValueStore \<Rightarrow> FileSystem" where
  "kv_destroy s = disk (AppendOnlyStore_close (kv_storage (snd (kv_close s))))"

section \<open>Validation\<close>

definition validateKey :: "string \<Rightarrow> Status" where
  "validateKey key =
     (if key = [] then invalidArgument ''key must not be empty''
      else if length key > kMaximumKeySize then invalidArgument ''key exceeds 4 KiB''
      else Status_success)"

definition validateValue :: "string \<Rightarrow> Status" where
  "validateValue value =
     (if length value > kMaximumValueSize then invalidArgument ''value exceeds 16 MiB''
      else Status_success)"

section \<open>SET\<close>

definition set_checks ::
  "string \<Rightarrow> string \<Rightarrow> i64 option \<Rightarrow> i64 \<Rightarrow> KeyValueStore \<Rightarrow> i64 outcome" where
  "set_checks key value ttl nowMs s =
     (if \<not> kv_opened s then Inl (closed ''store is not open'')
      else if \<not> status_ok (validateKey key) then Inl (validateKey key)
      else if \<not> status_ok (validateValue value) then Inl (validateValue value)
      else case ttl of
        None \<Rightarrow> Inr 0
      | Some count \<Rightarrow>
          if sint count \<le> 0 then Inl (invalidArgument ''TTL must be greater than zero'')
          else Inr (nowMs + count))"

definition set_locked ::
  "append_faults \<Rightarrow> string \<Rightarrow> string \<Rightarrow> i64 \<Rightarrow> KeyValueStore \<Rightarrow> Status \<times> KeyValueStore" where
  "set_locked io key value expiresAtMs s =
     (if \<not> kv_opened s then (closed ''store was closed during SET'', s)
      else case appendSet io key value expiresAtMs (kv_storage s) of
        (Inl st, storage) \<Rightarrow> (st, s\<lparr>kv_storage := storage\<rparr>)
      | (Inr metadata, storage) \<Rightarrow>
          (Status_success,
           s\<lparr>kv_storage := storage,
             kv_index := AList.update key metadata (kv_index s),
             kv_cache := lru_put key value (kv_cache s),
             kv_setOperations := kv_setOperations s + 1\<rparr>))"

definition kv_set ::
  "append_faults \<Rightarrow> i64 \<Rightarrow> string \<Rightarrow> string \<Rightarrow> i64 option \<Rightarrow> KeyValueStore
   \<Rightarrow> Status \<times> KeyValueStore" where
  "kv_set io nowMs key value ttl s =
     (case set_checks key value ttl nowMs s of
        Inl st \<Rightarrow> (st, s)
      | Inr expiresAtMs \<Rightarrow> set_locked io key value expiresAtMs s)"

section \<open>GET and EXISTS\<close>

definition eraseIfExpired :: "string \<Rightarrow> i64 \<Rightarrow> KeyValueStore \<Rightarrow> bool \<times> KeyValueStore" where
  "eraseIfExpired key nowMs s =
     (case map_of (kv_index s) key of
        None \<Rightarrow> (False, s)
      | Some metadata \<Rightarrow>
          if \<not> isExpired (md_expiresAtMs metadata) nowMs then (False, s)
          else (True, s\<lparr>kv_cache := lru_erase key (kv_cache s),
                       kv_index := AList.delete key (kv_index s),
                       kv_expiredKeys := kv_expiredKeys s + 1\<rparr>))"

definition get_checks :: "string \<Rightarrow> KeyValueStore \<Rightarrow> Status \<times> KeyValueStore" where
  "get_checks key s =
     (if \<not> kv_opened s then (closed ''store is not open'', s)
      else if \<not> status_ok (validateKey key) then (validateKey key, s)
      else (Status_success, s\<lparr>kv_getOperations := kv_getOperations s + 1\<rparr>))"

text \<open>
  Under the shared lock a GET looks the key up (in the index, then in the cache), reads the value
  from the storage and fills the cache; the cache and the storage have locks of their own.
\<close>

datatype LookupResult = LookupAbsent | LookupExpired | LookupHit string | LookupMiss RecordMetadata

definition get_lookup :: "i64 \<Rightarrow> string \<Rightarrow> KeyValueStore \<Rightarrow> LookupResult \<times> KeyValueStore" where
  "get_lookup nowMs key s =
     (case map_of (kv_index s) key of
        None \<Rightarrow> (LookupAbsent, s)
      | Some metadata \<Rightarrow>
          if isExpired (md_expiresAtMs metadata) nowMs then (LookupExpired, s)
          else case lru_get key (kv_cache s) of
            (Some cached, cache) \<Rightarrow> (LookupHit cached, s\<lparr>kv_cache := cache\<rparr>)
          | (None, cache) \<Rightarrow> (LookupMiss metadata, s\<lparr>kv_cache := cache\<rparr>))"

definition get_read ::
  "value_faults \<Rightarrow> RecordMetadata \<Rightarrow> KeyValueStore \<Rightarrow> string outcome \<times> KeyValueStore" where
  "get_read io metadata s =
     (case readValue io metadata (kv_storage s) of (r, storage) \<Rightarrow> (r, s\<lparr>kv_storage := storage\<rparr>))"

definition get_fill :: "string \<Rightarrow> string \<Rightarrow> KeyValueStore \<Rightarrow> KeyValueStore" where
  "get_fill key value s = s\<lparr>kv_cache := lru_put key value (kv_cache s)\<rparr>"

text \<open>The shared section either has the result or has found an expired entry.\<close>

datatype GetPhase = GetReturns "string outcome" | GetExpired

definition get_shared ::
  "value_faults \<Rightarrow> i64 \<Rightarrow> string \<Rightarrow> KeyValueStore \<Rightarrow> GetPhase \<times> KeyValueStore" where
  "get_shared io nowMs key s =
     (case get_lookup nowMs key s of
        (LookupAbsent, s) \<Rightarrow> (GetReturns (Inl (notFound ''key does not exist'')), s)
      | (LookupExpired, s) \<Rightarrow> (GetExpired, s)
      | (LookupHit cached, s) \<Rightarrow> (GetReturns (Inr cached), s)
      | (LookupMiss metadata, s) \<Rightarrow>
          (case get_read io metadata s of
             (Inl st, s) \<Rightarrow> (GetReturns (Inl st), s)
           | (Inr value, s) \<Rightarrow> (GetReturns (Inr value), get_fill key value s)))"

lemma get_shared_eq:
  "get_shared io nowMs key s =
     (case map_of (kv_index s) key of
        None \<Rightarrow> (GetReturns (Inl (notFound ''key does not exist'')), s)
      | Some metadata \<Rightarrow>
          if isExpired (md_expiresAtMs metadata) nowMs then (GetExpired, s)
          else case lru_get key (kv_cache s) of
            (Some cached, cache) \<Rightarrow> (GetReturns (Inr cached), s\<lparr>kv_cache := cache\<rparr>)
          | (None, cache) \<Rightarrow>
              (case readValue io metadata (kv_storage s) of
                 (Inl st, storage) \<Rightarrow>
                   (GetReturns (Inl st), s\<lparr>kv_cache := cache, kv_storage := storage\<rparr>)
               | (Inr value, storage) \<Rightarrow>
                   (GetReturns (Inr value),
                    s\<lparr>kv_cache := lru_put key value cache, kv_storage := storage\<rparr>)))"
  by (auto simp: get_shared_def get_lookup_def get_read_def get_fill_def
      split: option.splits prod.splits sum.splits)

definition kv_get ::
  "value_faults \<Rightarrow> i64 \<Rightarrow> string \<Rightarrow> KeyValueStore \<Rightarrow> string outcome \<times> KeyValueStore" where
  "kv_get io nowMs key s =
     (case get_checks key s of (st, s) \<Rightarrow>
      if \<not> status_ok st then (Inl st, s)
      else case get_shared io nowMs key s of
        (GetReturns r, s) \<Rightarrow> (r, s)
      | (GetExpired, s) \<Rightarrow>
          (Inl (notFound ''key has expired''), snd (eraseIfExpired key nowMs s)))"

definition kv_exists ::
  "value_faults \<Rightarrow> i64 \<Rightarrow> string \<Rightarrow> KeyValueStore \<Rightarrow> bool outcome \<times> KeyValueStore" where
  "kv_exists io nowMs key s =
     (case kv_get io nowMs key s of
        (Inr _, s) \<Rightarrow> (Inr True, s)
      | (Inl st, s) \<Rightarrow> if status_code st = NotFound then (Inr False, s) else (Inl st, s))"

section \<open>DEL\<close>

definition remove_checks :: "string \<Rightarrow> KeyValueStore \<Rightarrow> Status" where
  "remove_checks key s =
     (if \<not> kv_opened s then closed ''store is not open'' else validateKey key)"

definition remove_locked ::
  "append_faults \<Rightarrow> i64 \<Rightarrow> string \<Rightarrow> KeyValueStore \<Rightarrow> Status \<times> KeyValueStore" where
  "remove_locked io nowMs key s =
     (case map_of (kv_index s) key of
        None \<Rightarrow> (notFound ''key does not exist'', s)
      | Some metadata \<Rightarrow>
          if isExpired (md_expiresAtMs metadata) nowMs
          then (notFound ''key has expired'',
                s\<lparr>kv_cache := lru_erase key (kv_cache s),
                  kv_index := AList.delete key (kv_index s),
                  kv_expiredKeys := kv_expiredKeys s + 1\<rparr>)
          else case appendDelete io key (kv_storage s) of (appendStatus, storage) \<Rightarrow>
            let s = s\<lparr>kv_storage := storage\<rparr> in
            if \<not> status_ok appendStatus then (appendStatus, s)
            else (Status_success,
                  s\<lparr>kv_cache := lru_erase key (kv_cache s),
                    kv_index := AList.delete key (kv_index s),
                    kv_deleteOperations := kv_deleteOperations s + 1\<rparr>))"

definition kv_remove ::
  "append_faults \<Rightarrow> i64 \<Rightarrow> string \<Rightarrow> KeyValueStore \<Rightarrow> Status \<times> KeyValueStore" where
  "kv_remove io nowMs key s =
     (if \<not> status_ok (remove_checks key s) then (remove_checks key s, s)
      else remove_locked io nowMs key s)"

section \<open>Expiry sweep and KEYS\<close>

text \<open>The erase-while-iterating loop: the kept entries, the cache, the number removed.\<close>

fun sweepExpired ::
  "i64 \<Rightarrow> index_map \<Rightarrow> (string, string) LruCache \<Rightarrow> nat
   \<Rightarrow> index_map \<times> (string, string) LruCache \<times> nat" where
  "sweepExpired nowMs [] cache removed = ([], cache, removed)"
| "sweepExpired nowMs ((key, metadata) # rest) cache removed =
     (if isExpired (md_expiresAtMs metadata) nowMs
      then sweepExpired nowMs rest (lru_erase key cache) (removed + 1)
      else case sweepExpired nowMs rest cache removed of
        (kept, cache, removed) \<Rightarrow> ((key, metadata) # kept, cache, removed))"

definition sweep_locked :: "i64 \<Rightarrow> KeyValueStore \<Rightarrow> nat \<times> KeyValueStore" where
  "sweep_locked nowMs s =
     (case sweepExpired nowMs (kv_index s) (kv_cache s) 0 of (kept, cache, removed) \<Rightarrow>
        (removed, s\<lparr>kv_index := kept, kv_cache := cache,
                    kv_expiredKeys := kv_expiredKeys s + of_nat removed\<rparr>))"

definition kv_cleanupExpired :: "i64 \<Rightarrow> KeyValueStore \<Rightarrow> nat \<times> KeyValueStore" where
  "kv_cleanupExpired nowMs s = (if \<not> kv_opened s then (0, s) else sweep_locked nowMs s)"

text \<open>\<^verbatim>\<open>prefix.empty() || key.compare(0, prefix.size(), prefix) == 0\<close>\<close>

definition hasPrefix :: "string \<Rightarrow> string \<Rightarrow> bool" where
  "hasPrefix prefix key \<longleftrightarrow> prefix = [] \<or> take (length prefix) key = prefix"

definition keys_section :: "string \<Rightarrow> KeyValueStore \<Rightarrow> string list" where
  "keys_section prefix s = sort (filter (hasPrefix prefix) (map fst (kv_index s)))"

definition kv_keys ::
  "i64 \<Rightarrow> string \<Rightarrow> KeyValueStore \<Rightarrow> string list outcome \<times> KeyValueStore" where
  "kv_keys nowMs prefix s =
     (if \<not> kv_opened s then (Inl (closed ''store is not open''), s)
      else
        let s = snd (kv_cleanupExpired nowMs s)
        in (Inr (keys_section prefix s), s))"

section \<open>COMPACT\<close>

record store_compact_faults =
  sc_read :: "nat \<Rightarrow> value_faults"
  sc_compact :: compact_faults

definition no_store_compact_faults :: store_compact_faults where
  "no_store_compact_faults = \<lparr>sc_read = (\<lambda>_. no_value_faults), sc_compact = no_compact_faults\<rparr>"

declare no_store_compact_faults_def [calm_env]

text \<open>The sweep of \<^verbatim>\<open>compact()\<close>, which counts each expired key as it goes.\<close>

fun compactSweep ::
  "i64 \<Rightarrow> index_map \<Rightarrow> (string, string) LruCache \<Rightarrow> u64
   \<Rightarrow> index_map \<times> (string, string) LruCache \<times> u64" where
  "compactSweep nowMs [] cache expired = ([], cache, expired)"
| "compactSweep nowMs ((key, metadata) # rest) cache expired =
     (if isExpired (md_expiresAtMs metadata) nowMs
      then compactSweep nowMs rest (lru_erase key cache) (expired + 1)
      else case compactSweep nowMs rest cache expired of
        (kept, cache, expired) \<Rightarrow> ((key, metadata) # kept, cache, expired))"

fun collectLive ::
  "(nat \<Rightarrow> value_faults) \<Rightarrow> nat \<Rightarrow> index_map \<Rightarrow> AppendOnlyStore
   \<Rightarrow> Record list outcome \<times> AppendOnlyStore" where
  "collectLive io i [] storage = (Inr [], storage)"
| "collectLive io i ((key, metadata) # rest) storage =
     (case readValue (io i) metadata storage of
        (Inl st, storage) \<Rightarrow> (Inl st, storage)
      | (Inr value, storage) \<Rightarrow>
          (case collectLive io (Suc i) rest storage of
             (Inl st, storage) \<Rightarrow> (Inl st, storage)
           | (Inr records, storage) \<Rightarrow>
               (Inr (\<lparr>rec_op = OpSet, rec_key = key, rec_value = value,
                      rec_expiresAtMs = md_expiresAtMs metadata\<rparr> # records), storage)))"

definition compact_locked ::
  "store_compact_faults \<Rightarrow> i64 \<Rightarrow> KeyValueStore \<Rightarrow> CompactionSummary outcome \<times> KeyValueStore" where
  "compact_locked io nowMs s =
     (case compactSweep nowMs (kv_index s) (kv_cache s) (kv_expiredKeys s) of
        (kept, cache, expired) \<Rightarrow>
        let s = s\<lparr>kv_index := kept, kv_cache := cache, kv_expiredKeys := expired\<rparr> in
        case collectLive (sc_read io) 0 (kv_index s) (kv_storage s) of
          (Inl st, storage) \<Rightarrow> (Inl st, s\<lparr>kv_storage := storage\<rparr>)
        | (Inr liveRecords, storage) \<Rightarrow>
            (case aos_compact (sc_compact io) (sort_key rec_key liveRecords) storage of
               (Inl st, storage) \<Rightarrow> (Inl st, s\<lparr>kv_storage := storage\<rparr>)
             | (Inr state, storage) \<Rightarrow>
                 let s = s\<lparr>kv_storage := storage, kv_index := comp_index state,
                          kv_cache := lru_clear (kv_cache s),
                          kv_compactions := kv_compactions s + 1\<rparr>
                 in (Inr \<lparr>sum_liveKeys = length (kv_index s),
                          sum_oldFileBytes = comp_oldFileBytes state,
                          sum_newFileBytes = comp_newFileBytes state\<rparr>, s)))"

definition kv_compact ::
  "store_compact_faults \<Rightarrow> i64 \<Rightarrow> KeyValueStore \<Rightarrow> CompactionSummary outcome \<times> KeyValueStore" where
  "kv_compact io nowMs s =
     (if \<not> kv_opened s then (Inl (closed ''store is not open''), s)
      else compact_locked io nowMs s)"

section \<open>Statistics\<close>

definition kv_statistics :: "bool \<Rightarrow> KeyValueStore \<Rightarrow> EngineStatistics" where
  "kv_statistics size_error s =
     \<lparr>st_keyCount = length (kv_index s),
      st_dataFileBytes = fileSize size_error (kv_storage s),
      st_getOperations = kv_getOperations s,
      st_setOperations = kv_setOperations s,
      st_deleteOperations = kv_deleteOperations s,
      st_expiredKeys = kv_expiredKeys s,
      st_compactions = kv_compactions s,
      st_recoveredRecords = kv_recoveredRecords s,
      st_truncatedTailBytes = kv_truncatedTailBytes s,
      st_cache = lru_statistics (kv_cache s)\<rparr>"

section \<open>The cleaner thread\<close>

text \<open>
  \<^verbatim>\<open>cleanerLoop\<close>, as a function of its wake-ups: each \<^verbatim>\<open>wait_for\<close> ends either because
  \<^verbatim>\<open>stopRequested_\<close> was set in the meantime or after the interval, at some clock reading. When
  the list is used up the thread is still waiting.
\<close>

datatype Wakeup = WakeStop | WakeTimeout i64

fun cleanerLoop :: "Wakeup list \<Rightarrow> KeyValueStore \<Rightarrow> KeyValueStore" where
  "cleanerLoop wakeups s =
     (if kv_stopRequested s then s
      else case wakeups of
        [] \<Rightarrow> s
      | WakeStop # _ \<Rightarrow> s\<lparr>kv_stopRequested := True\<rparr>
      | WakeTimeout nowMs # rest \<Rightarrow> cleanerLoop rest (snd (kv_cleanupExpired nowMs s)))"

declare cleanerLoop.simps [simp del]

end
