(* ===== verification/ValueLog.thy ===== *)
theory ValueLog
  imports LogRecovery
begin

text \<open>
  \<open>AppendOnlyStore\<close> as the engine uses it: a log of values. \<open>stored_at bs md k v\<close> says that the
  metadata \<open>md\<close> points at an intact SET record of key \<open>k\<close> and value \<open>v\<close> in the bytes \<open>bs\<close>. Under
  any faults an append adds a prefix of one encoded record to the file, so what is stored stays
  stored; a read returns the stored value or an error; a compaction replaces the file by the
  complete log of the live records or leaves it alone.
\<close>

section \<open>Stored values\<close>

definition stored_at :: "string \<Rightarrow> RecordMetadata \<Rightarrow> string \<Rightarrow> string \<Rightarrow> bool" where
  "stored_at bs md k v \<longleftrightarrow>
     length bs < 2 ^ 63 \<and>
     (\<exists>r p. validRecord r \<and> rec_op r = OpSet \<and> rec_key r = k \<and> rec_value r = v \<and>
       md = record_metadata (of_nat p) r \<and> p + record_size r \<le> length bs \<and>
       take (record_size r) (drop p bs) = encodeRecord r)"

definition slice :: "string \<Rightarrow> RecordMetadata \<Rightarrow> string" where
  "slice bs md = take (unat (md_valueSize md)) (drop (unat (md_valueOffset md)) bs)"

lemma record_metadata_simps [simp]:
  "md_recordOffset (record_metadata off r) = off"
  "md_expiresAtMs (record_metadata off r) = rec_expiresAtMs r"
  by (simp_all add: record_metadata_def)

lemma sint_small: "unat (w :: i64) < 2 ^ 63 \<Longrightarrow> sint w = int (unat w)"
proof -
  assume "unat w < 2 ^ 63"
  then have "int (unat w) < int (2 ^ 63)" by (simp only: of_nat_less_iff)
  then have lt: "uint w < 2 ^ 63" by simp
  have "- (2 ^ 63) \<le> uint w"
    by (rule order_trans [OF _ uint_ge_0]) simp
  then have "signed_take_bit 63 (uint w) = uint w"
    using lt by (rule signed_take_bit_int_eq_self)
  then show ?thesis by (simp add: sint_uint)
qed

lemma record_metadata_position:
  assumes "validRecord r" "p + record_size r < 2 ^ 63"
  shows "unat (md_valueOffset (record_metadata (of_nat p) r)) = p + 28 + length (rec_key r)"
    and "unat (md_valueSize (record_metadata (of_nat p) r)) = length (rec_value r)"
    and "\<not> sint (md_valueOffset (record_metadata (of_nat p) r)) < 0"
proof -
  have o: "md_valueOffset (record_metadata (of_nat p) r) = of_nat (p + 28 + length (rec_key r))"
    by (simp add: record_metadata_def format_constants)
  have b: "p + 28 + length (rec_key r) < 2 ^ 63"
    using assms(2) by (simp add: record_size_def format_constants)
  then show u: "unat (md_valueOffset (record_metadata (of_nat p) r)) = p + 28 + length (rec_key r)"
    unfolding o by (intro unat_of_nat_in_range) simp
  show "unat (md_valueSize (record_metadata (of_nat p) r)) = length (rec_value r)"
    using validRecord_sizes(2) [OF assms(1)] by (simp add: record_metadata_def)
  show "\<not> sint (md_valueOffset (record_metadata (of_nat p) r)) < 0"
    using sint_small [of "md_valueOffset (record_metadata (of_nat p) r)"] b unfolding u by simp
qed

lemma stored_at_slice:
  assumes "stored_at bs md k v"
  shows "slice bs md = v" "unat (md_valueSize md) = length v" "\<not> sint (md_valueOffset md) < 0"
proof -
  obtain r p where r: "validRecord r" "rec_value r = v" "md = record_metadata (of_nat p) r"
    "p + record_size r \<le> length bs" "take (record_size r) (drop p bs) = encodeRecord r"
    and len: "length bs < 2 ^ 63"
    using assms unfolding stored_at_def by blast
  note pos = record_metadata_position [OF r(1), of p]
  show "unat (md_valueSize md) = length v" "\<not> sint (md_valueOffset md) < 0"
    using pos r len by simp_all
  have "slice bs md = take (length v) (drop (28 + length (rec_key r)) (drop p bs))"
    using pos(1,2) r len by (simp add: slice_def add.commute add.left_commute)
  also have "\<dots> = take (length v) (drop (28 + length (rec_key r)) (take (record_size r) (drop p bs)))"
    using r(2) by (simp add: drop_take record_size_def format_constants)
  also have "\<dots> = v"
    unfolding r(5) using r(2) by (simp add: encodeRecord_def)
  finally show "slice bs md = v" .
qed

lemma stored_at_append:
  assumes "stored_at bs md k v" "length (bs @ xs) < 2 ^ 63"
  shows "stored_at (bs @ xs) md k v"
proof -
  obtain r p where r: "validRecord r" "rec_op r = OpSet" "rec_key r = k" "rec_value r = v"
    "md = record_metadata (of_nat p) r" "p + record_size r \<le> length bs"
    "take (record_size r) (drop p bs) = encodeRecord r"
    using assms(1) unfolding stored_at_def by blast
  moreover have "take (record_size r) (drop p (bs @ xs)) = encodeRecord r"
    by (rule take_eq_append_drop [OF r(7)]) simp
  ultimately show ?thesis
    using assms(2) unfolding stored_at_def by (intro conjI exI [of _ r] exI [of _ p]) auto
qed

lemma stored_at_new:
  assumes "validRecord r" "rec_op r = OpSet" "length bs + record_size r < 2 ^ 63"
  shows "stored_at (bs @ encodeRecord r) (record_metadata (of_nat (length bs)) r)
    (rec_key r) (rec_value r)"
  unfolding stored_at_def using assms by (intro conjI exI [of _ r] exI [of _ "length bs"]) auto

section \<open>Opening and appending under faults\<close>

lemma ensureOpen_frame:
  assumes "ensureOpenLocked io s = (st, s')"
  shows "contents s' = contents s" "dataPath s' = dataPath s"
    "status_ok st \<Longrightarrow> file_open s'" "data_file (disk s) \<noteq> None \<Longrightarrow> disk s' = disk s"
    "data_file (disk s) \<noteq> None \<Longrightarrow> data_file (disk s') \<noteq> None"
    "tmp_file (disk s') = tmp_file (disk s)"
  using assms
  by (auto simp: ensureOpenLocked_def Let_def contents_def set_contents_def
      split: if_splits option.splits)

lemma reopen_frame:
  assumes "reopenLocked io s = (st, s')"
  shows "contents s' = contents s" "dataPath s' = dataPath s"
    "status_ok st \<Longrightarrow> file_open s'" "data_file (disk s) \<noteq> None \<Longrightarrow> disk s' = disk s"
    "data_file (disk s) \<noteq> None \<Longrightarrow> data_file (disk s') \<noteq> None"
    "tmp_file (disk s') = tmp_file (disk s)"
  using assms ensureOpen_frame [of io "s\<lparr>file_open := False\<rparr>" st s'] ensureOpen_frame [of io s st s']
  by (auto simp: reopenLocked_def Let_def split: if_splits)

text \<open>
  An append, whatever fails: the file grows by a prefix of the encoded record; success means the
  whole record is there and the metadata points at it.
\<close>

lemma append_cases:
  assumes "appendRecordLocked io r s = (res, s')"
  obtains (appended) "res = Inr (record_metadata (of_nat (length (contents s))) r)" "validRecord r"
      "contents s' = contents s @ encodeRecord r" "data_file (disk s') \<noteq> None"
  | (failed) st n where "res = Inl st" "\<not> status_ok st"
      "contents s' = contents s @ take n (encodeRecord r)"
      "data_file (disk s) \<noteq> None \<Longrightarrow> data_file (disk s') \<noteq> None"
proof -
  obtain st1 s1 where open': "ensureOpenLocked (af_open io) s = (st1, s1)" by fastforce
  note fr = ensureOpen_frame [OF open']
  show ?thesis
  proof (cases "\<not> status_ok st1 \<or> af_seek io")
    case True
    then have "\<exists>st. res = Inl st \<and> \<not> status_ok st \<and> s' = s1"
      using assms open' by (auto simp: appendRecordLocked_def split: if_splits)
    then show ?thesis using fr by (auto intro: failed [of _ 0])
  next
    case False
    obtain written wres where w: "writeRecord (af_write io) (contents s1) r
        (of_nat (length (contents s1))) = (written, wres)" by fastforce
    have res: "(res, s') = (case wres of Inl st \<Rightarrow> (Inl st, set_contents written s1)
        | Inr md \<Rightarrow> (case af_flush io of
            Some n \<Rightarrow> (Inl (ioError ''failed to flush append-only record''),
              set_contents (take (length (contents s1) + n) written) s1)
          | None \<Rightarrow> (Inr md, set_contents written s1)))"
      using assms open' False w by (simp add: appendRecordLocked_def Let_def split: sum.splits)
    show ?thesis
    proof (cases wres)
      case (Inl st)
      then obtain n where "\<not> status_ok st" "written = contents s1 @ take n (encodeRecord r)"
        using w writeRecord_InlD by blast
      with Inl res fr(1) show ?thesis by (intro failed [of st n]) simp_all
    next
      case (Inr md)
      then have ok: "validRecord r" "written = contents s1 @ encodeRecord r"
        "md = record_metadata (of_nat (length (contents s1))) r"
        using w writeRecord_InrD by blast+
      show ?thesis
      proof (cases "af_flush io")
        case None
        with res Inr ok fr(1) show ?thesis by (auto intro: appended)
      next
        case (Some n)
        with res Inr ok fr(1) show ?thesis by (auto intro: failed)
      qed
    qed
  qed
qed

lemma append_no_faults:
  assumes "validRecord r" "data_file (disk s) = Some bs"
  shows "appendRecordLocked no_append_faults r s =
    (Inr (record_metadata (of_nat (length bs)) r),
     (set_contents (bs @ encodeRecord r) s)\<lparr>file_open := True\<rparr>)"
  using assms
  by (simp add: appendRecordLocked_def calm_env writeRecord_ok
      contents_Some Let_def set_contents_def)

section \<open>Reading under faults\<close>

lemma stream_read_short: "length (stream_read rd bs p n) = n \<Longrightarrow> stream_read rd bs p n = take n (drop p bs)"
  by (auto simp: stream_read_def)

lemma read_cases:
  assumes "readValue io md s = (res, s')"
  shows "contents s' = contents s" "data_file (disk s) \<noteq> None \<Longrightarrow> disk s' = disk s"
    "dataPath s' = dataPath s"
    "\<And>v. res = Inr v \<Longrightarrow> v = slice (contents s) md" "\<And>st. res = Inl st \<Longrightarrow> \<not> status_ok st"
proof -
  obtain st1 s1 where open': "ensureOpenLocked (vf_open io) s = (st1, s1)" by fastforce
  note fr = ensureOpen_frame [OF open']
  have s': "s' = s1"
    using assms open' by (auto simp: readValue_def Let_def split: if_splits)
  then show "contents s' = contents s" "dataPath s' = dataPath s"
    "data_file (disk s) \<noteq> None \<Longrightarrow> disk s' = disk s"
    using fr by simp_all
  show "v = slice (contents s) md" if "res = Inr v" for v
    using that assms open' fr(1) stream_read_short
    by (auto simp: readValue_def Let_def slice_def split: if_splits)
  show "\<not> status_ok st" if "res = Inl st" for st
    using that assms open' by (auto simp: readValue_def Let_def split: if_splits)
qed

lemma read_no_faults:
  assumes "stored_at (contents s) md k v"
  shows "fst (readValue no_value_faults md s) = Inr v"
proof -
  have "data_file (disk s) \<noteq> None"
  proof
    assume "data_file (disk s) = None"
    then have "record_size r = 0" if "p + record_size r \<le> length (contents s)" for r p
      using that by (simp add: contents_def)
    with assms record_size_ge show False
      unfolding stored_at_def by (metis not_numeral_le_zero)
  qed
  then have "snd (ensureOpenLocked no_open_faults s) = s\<lparr>file_open := True\<rparr>"
    by (auto simp: calm_env)
  then have "ensureOpenLocked no_open_faults s = (Status_success, s\<lparr>file_open := True\<rparr>)"
    by (simp add: calm_env)
  with stored_at_slice [OF assms] show ?thesis
    by (simp add: readValue_def calm_env slice_def Let_def del: length_take)
qed

section \<open>Compaction under faults\<close>

text \<open>The index of the new file: where each live record went.\<close>

fun compacted_index :: "nat \<Rightarrow> Record list \<Rightarrow> index_map \<Rightarrow> index_map" where
  "compacted_index off [] idx = idx"
| "compacted_index off (r # rs) idx =
     compacted_index (off + record_size r) rs
       (AList.update (rec_key r) (record_metadata (of_nat off) r) idx)"

lemma record_size_word:
  "of_nat kRecordHeaderSize + of_nat (length (rec_key r)) + of_nat (length (rec_value r)) =
   (of_nat (record_size r) :: u64)"
  by (simp add: record_size_def)

lemma compactLoop_InrD:
  "compactLoop faults i rs out (of_nat off) idx = (out', Inr (idx', off')) \<Longrightarrow>
   (\<forall>r \<in> set rs. validRecord r) \<and> out' = out @ log_bytes rs \<and>
   idx' = compacted_index off rs idx \<and> off' = of_nat (off + length (log_bytes rs))"
proof (induction rs arbitrary: i out off idx)
  case Nil
  then show ?case by simp
next
  case (Cons r rs)
  obtain out1 res1 where w: "writeRecord (faults i) out r (of_nat off) = (out1, res1)"
    by fastforce
  with Cons.prems obtain md where md: "res1 = Inr md"
    by (cases res1) simp_all
  have ok: "validRecord r" "out1 = out @ encodeRecord r" "md = record_metadata (of_nat off) r"
    using writeRecord_InrD w md by blast+
  have "compactLoop faults (Suc i) rs out1 (of_nat (off + record_size r))
      (AList.update (rec_key r) md idx) = (out', Inr (idx', off'))"
    using Cons.prems w md by (simp add: record_size_word)
  from Cons.IH [OF this] ok show ?case by (simp add: add.assoc)
qed

lemma compactLoop_InlD:
  "compactLoop faults i rs out off idx = (out', Inl st) \<Longrightarrow> \<not> status_ok st"
proof (induction rs arbitrary: i out off idx)
  case Nil
  then show ?case by simp
next
  case (Cons r rs)
  obtain out1 res1 where w: "writeRecord (faults i) out r off = (out1, res1)"
    by fastforce
  show ?case
  proof (cases res1)
    case (Inl st1)
    with w have "\<not> status_ok st1" using writeRecord_InlD by blast
    with Inl w Cons.prems show ?thesis by simp
  next
    case (Inr md)
    with w Cons show ?thesis by simp
  qed
qed

lemma compactLoop_no_faults:
  "\<forall>r \<in> set rs. validRecord r \<Longrightarrow>
   compactLoop (\<lambda>_. None) i rs out (of_nat off) idx =
     (out @ log_bytes rs,
      Inr (compacted_index off rs idx, of_nat (off + length (log_bytes rs))))"
proof (induction rs arbitrary: i out off idx)
  case Nil
  then show ?case by simp
next
  case (Cons r rs)
  then show ?case
    using Cons.IH [of "Suc i" "out @ encodeRecord r" "off + record_size r"]
    by (simp add: writeRecord_ok record_size_word [unfolded add.assoc] add.assoc)
qed

text \<open>
  Atomicity: however the compaction ends, the data file is the old one or the complete new log;
  and it is the new log with a failure only when the rename succeeded and the reopen did not.
\<close>

text \<open>The end of a compaction, from the rename of the complete temporary file on.\<close>

lemma reopen_file_open: "reopenLocked f s = (st, s') \<Longrightarrow> file_open s' \<longleftrightarrow> status_ok st"
  by (auto simp: reopenLocked_def ensureOpenLocked_def Let_def split: if_splits option.splits)

lemma compact_rename_cases:
  assumes "data_file (disk s) \<noteq> None"
    and "(res, s') = (case cf_rename io of
      Some message \<Rightarrow>
        (case reopenLocked (cf_reopen io) s of (reopenStatus, s) \<Rightarrow>
         if \<not> status_ok reopenStatus then (Inl reopenStatus, s)
         else (Inl (ioError (''failed to replace data file after compaction: '' @ message)), s))
    | None \<Rightarrow>
        (case reopenLocked (cf_reopen io) (set_temporary None (set_contents out s)) of
           (reopenStatus, s) \<Rightarrow>
         if \<not> status_ok reopenStatus then (Inl reopenStatus, s) else (Inr state, s)))"
  obtains (renamed) "contents s' = out" "data_file (disk s') \<noteq> None" "file_open s'" "res = Inr state"
  | (kept) st where "res = Inl st" "\<not> status_ok st" "contents s' = contents s" "data_file (disk s') \<noteq> None"
  | (closed) st where "res = Inl st" "\<not> status_ok st" "contents s' = out" "data_file (disk s') \<noteq> None"
      "cf_rename io = None" "\<not> file_open s'"
proof (cases "cf_rename io")
  case (Some message)
  obtain st4 s4 where r: "reopenLocked (cf_reopen io) s = (st4, s4)" by fastforce
  note fr4 = reopen_frame [OF r]
  have "\<exists>st. res = Inl st \<and> \<not> status_ok st \<and> s' = s4"
    using assms(2) Some r by (auto split: if_splits)
  with fr4 assms(1) show ?thesis by (auto intro: kept)
next
  case None
  obtain st4 s4 where r: "reopenLocked (cf_reopen io) (set_temporary None (set_contents out s)) = (st4, s4)"
    by fastforce
  note fr4 = reopen_frame [OF r] and op4 = reopen_file_open [OF r]
  have res: "(res, s') = (if \<not> status_ok st4 then (Inl st4, s4) else (Inr state, s4))"
    using assms(2) None r by simp
  show ?thesis
  proof (cases "status_ok st4")
    case True
    with res fr4 op4 show ?thesis by (auto intro: renamed)
  next
    case False
    with res fr4 None op4 show ?thesis by (auto intro: closed)
  qed
qed

lemma compact_cases:
  assumes "aos_compact io live s = (res, s')" "data_file (disk s) \<noteq> None"
  obtains (compacted) "\<forall>r \<in> set live. validRecord r" "contents s' = log_bytes live"
      "data_file (disk s') \<noteq> None" "file_open s'"
      "res = Inr \<lparr>comp_index = compacted_index 0 live [],
         comp_oldFileBytes = of_nat (length (contents s)),
         comp_newFileBytes = of_nat (length (log_bytes live))\<rparr>"
  | (untouched) st where "res = Inl st" "\<not> status_ok st" "contents s' = contents s"
      "data_file (disk s') \<noteq> None"
  | (stranded) st where "res = Inl st" "\<not> status_ok st" "contents s' = log_bytes live"
      "data_file (disk s') \<noteq> None" "cf_rename io = None" "\<not> file_open s'"
      "\<forall>r \<in> set live. validRecord r"
proof -
  obtain st1 s1 where open': "ensureOpenLocked (cf_open io) s = (st1, s1)" by fastforce
  note fr = ensureOpen_frame [OF open']
  have df: "data_file (disk s1) \<noteq> None" using fr assms(2) by simp
  show ?thesis
  proof (cases "\<not> status_ok st1 \<or> cf_size io \<noteq> None \<or> cf_create io")
    case True
    then show ?thesis
      using assms(1) open' fr(1) df
      by (auto simp: aos_compact_def Let_def split: if_splits option.splits intro: untouched)
  next
    case False
    define s2 where "s2 = (if cf_stale io then s1 else set_temporary None s1)"
    have s2: "contents s2 = contents s" "data_file (disk s2) \<noteq> None"
      using fr(1) df by (auto simp: s2_def)
    obtain out lres where loop: "compactLoop (cf_write io) 0 live [] 0 [] = (out, lres)" by fastforce
    show ?thesis
    proof (cases "(\<exists>st. lres = Inl st) \<or> cf_flush io")
      case True
      have "\<exists>st t. res = Inl st \<and> \<not> status_ok st \<and> s' = set_temporary t s2"
        using assms(1) open' False loop True compactLoop_InlD [of "cf_write io" 0 live "[]" 0 "[]" out]
        by (cases lres) (auto simp: aos_compact_def Let_def s2_def)
      then show ?thesis using s2 by (auto intro: untouched)
    next
      case noflush: False
      then obtain idx off where "lres = Inr (idx, off)" by (cases lres) auto
      with loop have lp: "compactLoop (cf_write io) 0 live [] 0 [] = (out, Inr (idx, off))" by simp
      then have l: "\<forall>r \<in> set live. validRecord r" "out = log_bytes live"
        "idx = compacted_index 0 live []" "off = of_nat (length (log_bytes live))"
        using compactLoop_InrD [of "cf_write io" 0 live "[]" 0 "[]" out idx off] by simp_all
      let ?s3 = "(set_temporary (Some out) s2)\<lparr>file_open := False\<rparr>"
      have df3: "data_file (disk ?s3) \<noteq> None" using s2(2) by simp
      have "(res, s') = aos_compact io live s" using assms(1) by simp
      also note aos_compact_def
      finally have run: "(res, s') = (case cf_rename io of
          Some message \<Rightarrow>
            (case reopenLocked (cf_reopen io) ?s3 of (reopenStatus, s) \<Rightarrow>
             if \<not> status_ok reopenStatus then (Inl reopenStatus, s)
             else (Inl (ioError (''failed to replace data file after compaction: '' @ message)), s))
        | None \<Rightarrow>
            (case reopenLocked (cf_reopen io) (set_temporary None (set_contents out ?s3)) of
               (reopenStatus, s) \<Rightarrow>
             if \<not> status_ok reopenStatus then (Inl reopenStatus, s)
             else (Inr \<lparr>comp_index = idx, comp_oldFileBytes = of_nat (length (contents s1)),
                        comp_newFileBytes = off\<rparr>, s)))"
        using open' False noflush lp by (simp add: s2_def Let_def split: option.split)
      from df3 run show ?thesis
      proof (cases rule: compact_rename_cases)
        case renamed
        with l fr(1) show ?thesis by (auto intro: compacted)
      next
        case (kept st)
        with s2(1) show ?thesis by (auto intro: untouched)
      next
        case (closed st)
        with l show ?thesis by (auto intro: stranded)
      qed
    qed
  qed
qed

section \<open>The storage contract\<close>

definition log_ready :: "AppendOnlyStore \<Rightarrow> bool" where
  "log_ready s \<longleftrightarrow> data_file (disk s) \<noteq> None \<and> length (contents s) < 2 ^ 63"

definition log_holds :: "AppendOnlyStore \<Rightarrow> RecordMetadata \<Rightarrow> string \<Rightarrow> string \<Rightarrow> bool" where
  "log_holds s = stored_at (contents s)"

text \<open>File offsets are signed 64-bit numbers, so a file has less than \<open>2^63\<close> bytes.\<close>

definition log_fits :: "string \<Rightarrow> string option \<Rightarrow> AppendOnlyStore \<Rightarrow> bool" where
  "log_fits k v s \<longleftrightarrow>
     length (contents s) + kRecordHeaderSize + length k
       + (case v of None \<Rightarrow> 0 | Some x \<Rightarrow> length x) < 2 ^ 63"

lemma append_length:
  assumes "appendRecordLocked io r s = (res, s')"
  shows "length (contents s') \<le> length (contents s) + record_size r"
  using assms by (rule append_cases) auto

lemma append_contents:
  assumes "appendRecordLocked io r s = (res, s')"
  obtains xs where "contents s' = contents s @ xs" "length xs \<le> record_size r"
  using assms by (rule append_cases) (auto intro: that)

lemma append_ready_keeps:
  assumes "appendRecordLocked io r s = (res, s')" "log_ready s"
    and "length (contents s) + record_size r < 2 ^ 63"
  shows "log_ready s'" "log_holds s md k v \<Longrightarrow> log_holds s' md k v"
proof -
  obtain xs where xs: "contents s' = contents s @ xs" "length xs \<le> record_size r"
    using assms(1) by (rule append_contents)
  have "data_file (disk s') \<noteq> None"
    using assms(1) by (rule append_cases) (use assms(2) in \<open>auto simp: log_ready_def\<close>)
  with xs assms(3) show "log_ready s'" by (simp add: log_ready_def)
  show "log_holds s md k v \<Longrightarrow> log_holds s' md k v"
    unfolding log_holds_def xs(1) by (rule stored_at_append) (use xs assms(3) in simp_all)
qed

lemma appendDelete_snd:
  "snd (appendDelete io k s) =
   snd (appendRecordLocked io \<lparr>rec_op = OpDelete, rec_key = k, rec_value = [], rec_expiresAtMs = 0\<rparr> s)"
  by (auto simp: appendDelete_def split: sum.splits prod.splits)

interpretation vlog: value_log log_ready log_holds log_fits appendSet appendDelete readValue
proof unfold_locales
  fix s :: AppendOnlyStore and k v and f :: append_faults and e :: i64
  assume s: "log_ready s"
  {
    assume "log_fits k (Some v) s"
    then have room: "length (contents s) + record_size
        \<lparr>rec_op = OpSet, rec_key = k, rec_value = v, rec_expiresAtMs = e\<rparr> < 2 ^ 63"
      by (simp add: log_fits_def record_size_def)
    note app = append_ready_keeps [OF surjective_pairing s room, where io = f]
    show "log_ready (snd (appendSet f k v e s))"
      unfolding appendSet_def by (rule app(1))
    show "log_holds (snd (appendSet f k v e s)) md k' v'" if "log_holds s md k' v'" for md k' v'
      unfolding appendSet_def by (rule app(2) [OF that])
    show "log_holds s' md k v" if "appendSet f k v e s = (Inr md, s')" for md s'
      using that unfolding appendSet_def
      by (rule append_cases) (use room in \<open>auto simp: log_holds_def dest: stored_at_new\<close>)
  }
  assume "log_fits k None s"
  then have room: "length (contents s) + record_size
      \<lparr>rec_op = OpDelete, rec_key = k, rec_value = [], rec_expiresAtMs = 0\<rparr> < 2 ^ 63"
    by (simp add: log_fits_def record_size_def)
  note app = append_ready_keeps [OF surjective_pairing s room, where io = f]
  show "log_ready (snd (appendDelete f k s))"
    unfolding appendDelete_snd by (rule app(1))
  show "log_holds (snd (appendDelete f k s)) md k' v'" if "log_holds s md k' v'" for md k' v'
    unfolding appendDelete_snd by (rule app(2) [OF that])
next
  fix s :: AppendOnlyStore and g :: value_faults and md
  assume s: "log_ready s"
  note rd = read_cases [OF surjective_pairing, where io = g and md = md and s = s]
  show "log_ready (snd (readValue g md s))"
    using s rd(1,2) by (simp add: log_ready_def)
  show "log_holds (snd (readValue g md s)) md' k' v'" if "log_holds s md' k' v'" for md' k' v'
    using that rd(1) by (simp add: log_holds_def)
  show "v' = v" if "log_holds s md k v" "readValue g md s = (Inr v', s')" for k v v' s'
    using that read_cases(4) [OF that(2)] stored_at_slice(1) by (auto simp: log_holds_def)
qed

end
