(* ===== verification/StoreInvariant.thy ===== *)
theory StoreInvariant
  imports KeyValueStore ValueLog "HOL-Library.Multiset"
begin

text \<open>
  What every method of the engine keeps, whatever its storage calls meet. The abstract value of a
  store is \<open>kv_bindings\<close>, the map from keys to value and expiry time that index and file describe
  together; a reader at time \<open>now\<close> sees \<open>visible now\<close> of it. \<open>kv_safe\<close> says that the log holds the
  value of every indexed key, that the cache is well-formed and that every cached value is the
  current one.
\<close>

section \<open>Abstract value and invariant\<close>

type_synonym ttl_map = "string \<rightharpoonup> string \<times> i64"

definition kv_values :: "KeyValueStore \<Rightarrow> string \<rightharpoonup> string" where
  "kv_values s k = map_option (slice (contents (kv_storage s))) (map_of (kv_index s) k)"

definition kv_bindings :: "KeyValueStore \<Rightarrow> ttl_map" where
  "kv_bindings s k =
     map_option (\<lambda>md. (slice (contents (kv_storage s)) md, md_expiresAtMs md))
       (map_of (kv_index s) k)"

definition visible :: "i64 \<Rightarrow> ttl_map \<Rightarrow> string \<rightharpoonup> string" where
  "visible now m k =
     (case m k of None \<Rightarrow> None | Some (v, e) \<Rightarrow> if isExpired e now then None else Some v)"

text \<open>Storage, index and cache describe the map \<open>t\<close> from keys to values.\<close>

definition coherent ::
  "AppendOnlyStore \<Rightarrow> index_map \<Rightarrow> (string, string) LruCache \<Rightarrow> (string \<rightharpoonup> string) \<Rightarrow> bool" where
  "coherent st idx c t \<longleftrightarrow>
     log_ready st \<and> distinct (map fst idx) \<and> covered (log_holds st) (map_of idx) t \<and>
     lru_inv c \<and> lru_lookup c \<subseteq>\<^sub>m t"

definition kv_safe :: "KeyValueStore \<Rightarrow> bool" where
  "kv_safe s \<longleftrightarrow> coherent (kv_storage s) (kv_index s) (kv_cache s) (kv_values s)"

lemma covered_slice:
  assumes "covered (log_holds st) idx t"
  shows "t k = map_option (slice (contents st)) (idx k)"
proof (cases "idx k")
  case None
  with covered_None [OF assms, of k] show ?thesis by simp
next
  case (Some md)
  with covered_Some [OF assms, of k md] stored_at_slice(1) show ?thesis
    by (auto simp: log_holds_def)
qed

lemma coherent_values:
  "coherent st idx c t \<Longrightarrow> t k = map_option (slice (contents st)) (map_of idx k)"
  unfolding coherent_def by (blast intro: covered_slice)

text \<open>A state is safe as soon as its parts describe some map, which then is \<open>kv_values\<close>.\<close>

lemma kv_safeI:
  assumes "coherent (kv_storage s) (kv_index s) (kv_cache s) t"
  shows "kv_safe s" "kv_values s = t"
proof -
  show eq: "kv_values s = t"
    using coherent_values [OF assms] by (simp add: kv_values_def fun_eq_iff)
  show "kv_safe s"
    using assms by (simp add: kv_safe_def eq)
qed

lemma kv_safeD:
  assumes "kv_safe s"
  shows "coherent (kv_storage s) (kv_index s) (kv_cache s) (kv_values s)"
  using assms by (simp add: kv_safe_def)

lemma kv_bindings_pair:
  "kv_bindings s k =
     (case (kv_values s k, map_of (kv_index s) k) of
        (Some v, Some md) \<Rightarrow> Some (v, md_expiresAtMs md) | _ \<Rightarrow> None)"
  by (simp add: kv_bindings_def kv_values_def split: option.splits)

lemma kv_bindings_eqI:
  assumes "kv_values s' k = kv_values s k" "map_of (kv_index s') k = map_of (kv_index s) k"
  shows "kv_bindings s' k = kv_bindings s k"
  using assms by (simp add: kv_bindings_pair)

lemma visible_kv_bindings:
  "visible now (kv_bindings s) k =
     (case map_of (kv_index s) k of None \<Rightarrow> None
      | Some md \<Rightarrow> if isExpired (md_expiresAtMs md) now then None else kv_values s k)"
  by (simp add: visible_def kv_bindings_def kv_values_def split: option.splits)

lemma visible_entry:
  "map_of (kv_index s) k = Some md \<Longrightarrow> \<not> isExpired (md_expiresAtMs md) now \<Longrightarrow>
   visible now (kv_bindings s) k = kv_values s k"
  by (simp add: visible_kv_bindings)

lemma visible_values: "visible now (kv_bindings s) k = Some v \<Longrightarrow> kv_values s k = Some v"
  by (auto simp: visible_kv_bindings split: option.splits if_splits)

lemma visible_erase_expired:
  assumes "\<And>v e. m k = Some (v, e) \<Longrightarrow> isExpired e now" "sint now \<le> sint now'"
  shows "visible now' (m(k := None)) = visible now' m"
  using assms isExpired_mono by (fastforce simp: visible_def fun_eq_iff split: option.splits)

section \<open>The steps that the methods are made of\<close>

lemma coherent_append:
  assumes "coherent st idx c t" "log_fits k (Some v) st" "appendSet f k v e st = (Inr md, st')"
  shows "coherent st' (AList.update k md idx) (lru_put k v c) (t(k \<mapsto> v))"
  using assms vlog.append_covered [of st k v f e md st' "map_of idx" t]
    vlog.append_ready [of st k v f e] lru.put_coherent [of c t k v] lru.inv_put [of c k v]
  by (simp add: coherent_def)

lemma coherent_append_keeps:
  "coherent st idx c t \<Longrightarrow> log_fits k (Some v) st \<Longrightarrow> coherent (snd (appendSet f k v e st)) idx c t"
  by (simp add: coherent_def vlog.append_keeps_covered vlog.append_ready)

lemma coherent_delete_keeps:
  "coherent st idx c t \<Longrightarrow> log_fits k None st \<Longrightarrow> coherent (snd (appendDelete f k st)) idx c t"
  by (simp add: coherent_def vlog.remove_keeps_covered vlog.remove_ready)

lemma coherent_erase:
  "coherent st idx c t \<Longrightarrow> coherent st (AList.delete k idx) (lru_erase k c) (t(k := None))"
  by (simp add: coherent_def covered_erase lru.erase_coherent lru.inv_erase)

lemma coherent_lookup: "coherent st idx c t \<Longrightarrow> coherent st idx (snd (lru_get k c)) t"
  by (simp add: coherent_def lru.get_coherent lru.inv_get)

lemma coherent_hit: "coherent st idx c t \<Longrightarrow> lru_get k c = (Some v, c') \<Longrightarrow> t k = Some v"
  unfolding coherent_def by (blast intro: lru.hit_is_true)

lemma coherent_read: "coherent st idx c t \<Longrightarrow> coherent (snd (readValue f md st)) idx c t"
  by (simp add: coherent_def vlog.read_keeps_covered vlog.read_ready)

lemma coherent_read_value:
  "coherent st idx c t \<Longrightarrow> map_of idx k = Some md \<Longrightarrow> readValue f md st = (Inr v, st') \<Longrightarrow> t k = Some v"
  unfolding coherent_def by (blast intro: vlog.read_covered)

lemma coherent_fill: "coherent st idx c t \<Longrightarrow> t k = Some v \<Longrightarrow> coherent st idx (lru_put k v c) t"
  by (simp add: coherent_def lru.fill_coherent lru.inv_put)

lemma coherent_clear: "coherent st idx c t \<Longrightarrow> coherent st idx (lru_clear c) t"
  by (simp add: coherent_def lru.clear_coherent lru.inv_clear)

lemma appendSet_expiry: "appendSet f k v e st = (Inr md, st') \<Longrightarrow> md_expiresAtMs md = e"
  unfolding appendSet_def by (erule append_cases) auto

section \<open>SET\<close>

text \<open>
  A SET, whatever the append meets, either stores exactly the new binding, or fails and leaves
  the abstract value, the index and the cache as they were.
\<close>

lemma set_locked_cases:
  assumes "kv_safe s" "log_fits key (Some v) (kv_storage s)" "set_locked io key v e s = (st, s')"
  obtains (stored) "st = Status_success" "kv_opened s" "kv_safe s'"
      "kv_bindings s' = (kv_bindings s)(key \<mapsto> (v, e))"
      "kv_setOperations s' = kv_setOperations s + 1"
  | (failed) "\<not> status_ok st" "kv_safe s'" "kv_bindings s' = kv_bindings s"
      "kv_setOperations s' = kv_setOperations s"
proof (cases "kv_opened s")
  case False
  with assms show ?thesis by (intro failed) (auto simp: set_locked_def)
next
  case True
  note coh = kv_safeD [OF assms(1)]
  obtain res storage where app: "appendSet io key v e (kv_storage s) = (res, storage)" by fastforce
  show ?thesis
  proof (cases res)
    case err: (Inl st1)
    have "coherent storage (kv_index s) (kv_cache s) (kv_values s)"
      using coherent_append_keeps [OF coh assms(2), of io e] app by simp
    moreover have s': "s' = s\<lparr>kv_storage := storage\<rparr>" "st = st1"
      using assms(3) True app err by (simp_all add: set_locked_def)
    moreover have "\<not> status_ok st1"
      using app err unfolding appendSet_def by (auto elim: append_cases)
    ultimately show ?thesis
      using kv_safeI [of s' "kv_values s"] kv_bindings_eqI [of s' _ s] by (intro failed) auto
  next
    case ok: (Inr md)
    have s': "s' = s\<lparr>kv_storage := storage, kv_index := AList.update key md (kv_index s),
        kv_cache := lru_put key v (kv_cache s), kv_setOperations := kv_setOperations s + 1\<rparr>"
      "st = Status_success"
      using assms(3) True app ok by (simp_all add: set_locked_def)
    have "coherent storage (AList.update key md (kv_index s)) (lru_put key v (kv_cache s))
        ((kv_values s)(key \<mapsto> v))"
      using coherent_append [OF coh assms(2)] app ok by simp
    then have safe: "kv_safe s'" "kv_values s' = (kv_values s)(key \<mapsto> v)"
      using kv_safeI [of s'] s' by simp_all
    moreover have "kv_bindings s' = (kv_bindings s)(key \<mapsto> (v, e))"
      using appendSet_expiry [of io key v e "kv_storage s" md storage] app ok s' safe(2)
      by (auto simp: fun_eq_iff kv_bindings_pair)
    ultimately show ?thesis
      using s' True by (intro stored) auto
  qed
qed

lemma kv_set_cases:
  assumes "kv_safe s" "log_fits key (Some v) (kv_storage s)" "kv_set io now key v ttl s = (st, s')"
  obtains (stored) e where "st = Status_success" "set_checks key v ttl now s = Inr e" "kv_safe s'"
      "kv_bindings s' = (kv_bindings s)(key \<mapsto> (v, e))"
      "kv_setOperations s' = kv_setOperations s + 1"
  | (failed) "\<not> status_ok st" "kv_safe s'" "kv_bindings s' = kv_bindings s"
      "kv_setOperations s' = kv_setOperations s"
proof (cases "set_checks key v ttl now s")
  case (Inl st1)
  then have "\<not> status_ok st1"
    by (auto simp: set_checks_def validateKey_def validateValue_def split: if_splits option.splits)
  with Inl assms show ?thesis by (intro failed) (auto simp: kv_set_def)
next
  case (Inr e)
  then have "set_locked io key v e s = (st, s')"
    using assms(3) by (simp add: kv_set_def)
  from assms(1,2) this show ?thesis
    by (cases rule: set_locked_cases) (use stored [OF _ Inr] failed in simp_all)
qed

section \<open>Dropping an expired key\<close>

lemma erase_key_safe:
  assumes "kv_safe s" "kv_index s' = AList.delete k (kv_index s)"
    "kv_cache s' = lru_erase k (kv_cache s)" "kv_storage s' = kv_storage s"
  shows "kv_safe s'" "kv_bindings s' = (kv_bindings s)(k := None)"
proof -
  have "coherent (kv_storage s') (kv_index s') (kv_cache s') ((kv_values s)(k := None))"
    using coherent_erase [OF kv_safeD [OF assms(1)], of k] assms by simp
  note safe = kv_safeI [OF this]
  show "kv_safe s'" by (fact safe(1))
  show "kv_bindings s' = (kv_bindings s)(k := None)"
    using safe(2) assms(2) by (auto simp: kv_bindings_pair fun_eq_iff)
qed

lemma same_values_safe:
  assumes "coherent (kv_storage s') (kv_index s') (kv_cache s') (kv_values s)"
    "kv_index s' = kv_index s"
  shows "kv_safe s'" "kv_bindings s' = kv_bindings s"
  using kv_safeI [OF assms(1)] assms(2) by (simp_all add: fun_eq_iff kv_bindings_pair)

lemma same_parts_safe:
  assumes "kv_safe s" "kv_index s' = kv_index s" "kv_cache s' = kv_cache s" "kv_storage s' = kv_storage s"
  shows "kv_safe s'" "kv_bindings s' = kv_bindings s"
  using same_values_safe [of s' s] kv_safeD [OF assms(1)] assms by simp_all

section \<open>GET and EXISTS\<close>

text \<open>
  The sections of a GET keep the invariant and the abstract value. The lookup's hit is the visible
  value, its miss the metadata of an unexpired entry; a read that succeeds returns the stored value.
\<close>

lemma readValue_code: "readValue f md st = (Inl e, st') \<Longrightarrow> status_code e \<in> {IoError, Corruption}"
  by (auto simp: readValue_def ensureOpenLocked_def Let_def split: if_splits option.splits)

lemma get_checks_safe:
  assumes "kv_safe s" "get_checks k s = (st, s')"
  shows "kv_safe s'" "kv_index s' = kv_index s" "kv_bindings s' = kv_bindings s"
proof -
  have p: "kv_index s' = kv_index s" "kv_cache s' = kv_cache s" "kv_storage s' = kv_storage s"
    using assms(2) by (auto simp: get_checks_def split: if_splits)
  show "kv_safe s'" "kv_bindings s' = kv_bindings s"
    by (rule same_parts_safe [OF assms(1) p])+
  show "kv_index s' = kv_index s" by (fact p(1))
qed

lemma get_lookup_ok:
  assumes "kv_safe s" "get_lookup now k s = (r, s')"
  shows "kv_safe s'" "kv_index s' = kv_index s" "kv_bindings s' = kv_bindings s"
    "r = LookupHit v \<Longrightarrow> visible now (kv_bindings s) k = Some v"
    "r = LookupMiss md \<Longrightarrow> map_of (kv_index s) k = Some md \<and> \<not> isExpired (md_expiresAtMs md) now"
    "r = LookupAbsent \<Longrightarrow> kv_bindings s k = None"
proof -
  note coh = kv_safeD [OF assms(1)]
  obtain hit cache where hit: "lru_get k (kv_cache s) = (hit, cache)" by fastforce
  have s': "s' = s \<or> s' = s\<lparr>kv_cache := cache\<rparr>"
    using assms(2) hit by (auto simp: get_lookup_def split: option.splits if_splits)
  then show ix: "kv_index s' = kv_index s" by auto
  have "coherent (kv_storage s') (kv_index s') (kv_cache s') (kv_values s)"
    using s' coh coherent_lookup [OF coh, of k] hit by auto
  from same_values_safe [OF this ix] show "kv_safe s'" "kv_bindings s' = kv_bindings s" .
  show "r = LookupMiss md \<Longrightarrow> map_of (kv_index s) k = Some md \<and> \<not> isExpired (md_expiresAtMs md) now"
    using assms(2) by (auto simp: get_lookup_def split: option.splits if_splits prod.splits)
  show "r = LookupAbsent \<Longrightarrow> kv_bindings s k = None"
    using assms(2) by (auto simp: get_lookup_def kv_bindings_def split: option.splits if_splits prod.splits)
  show "visible now (kv_bindings s) k = Some v" if h: "r = LookupHit v"
  proof -
    have "hit = Some v" "\<exists>md. map_of (kv_index s) k = Some md \<and> \<not> isExpired (md_expiresAtMs md) now"
      using assms(2) h hit by (auto simp: get_lookup_def split: option.splits if_splits)
    moreover from this have "kv_values s k = Some v"
      using coherent_hit [OF coh] hit by blast
    ultimately show ?thesis by (auto simp: visible_kv_bindings)
  qed
qed

lemma get_read_ok:
  assumes "kv_safe s" "get_read io md s = (r, s')"
  shows "kv_safe s'" "kv_index s' = kv_index s" "kv_bindings s' = kv_bindings s"
    "r = Inr v \<Longrightarrow> map_of (kv_index s) k = Some md \<Longrightarrow> kv_values s k = Some v"
    "r = Inl st \<Longrightarrow> status_code st \<in> {IoError, Corruption}"
proof -
  note coh = kv_safeD [OF assms(1)]
  obtain q storage where rd: "readValue io md (kv_storage s) = (q, storage)" by fastforce
  then have s': "s' = s\<lparr>kv_storage := storage\<rparr>" "r = q"
    using assms(2) by (simp_all add: get_read_def)
  then show ix: "kv_index s' = kv_index s" by simp
  have "coherent (kv_storage s') (kv_index s') (kv_cache s') (kv_values s)"
    using coherent_read [OF coh, of io md] rd s' by simp
  from same_values_safe [OF this ix] show "kv_safe s'" "kv_bindings s' = kv_bindings s" .
  show "r = Inr v \<Longrightarrow> map_of (kv_index s) k = Some md \<Longrightarrow> kv_values s k = Some v"
    using coherent_read_value [OF coh] rd s' by blast
  show "r = Inl st \<Longrightarrow> status_code st \<in> {IoError, Corruption}"
    using readValue_code rd s' by blast
qed

lemma get_fill_ok:
  assumes "kv_safe s" "kv_values s k = Some v"
  shows "kv_safe (get_fill k v s)" "kv_index (get_fill k v s) = kv_index s"
    "kv_bindings (get_fill k v s) = kv_bindings s"
proof -
  show ix: "kv_index (get_fill k v s) = kv_index s" by (simp add: get_fill_def)
  have "coherent (kv_storage (get_fill k v s)) (kv_index (get_fill k v s)) (kv_cache (get_fill k v s))
      (kv_values s)"
    using coherent_fill [OF kv_safeD [OF assms(1)] assms(2)] by (simp add: get_fill_def)
  from same_values_safe [OF this ix] show "kv_safe (get_fill k v s)"
    "kv_bindings (get_fill k v s) = kv_bindings s" .
qed

lemma get_shared_safe:
  assumes "kv_safe s" "get_shared io now key s = (GetReturns res, s')"
  shows "kv_safe s'" "kv_bindings s' = kv_bindings s"
    "res = Inr v \<Longrightarrow> visible now (kv_bindings s) key = Some v"
    "res = Inl st \<Longrightarrow> status_code st = NotFound \<and> kv_bindings s key = None
       \<or> status_code st \<in> {IoError, Corruption}"
proof -
  obtain l s1 where look: "get_lookup now key s = (l, s1)" by fastforce
  note lk = get_lookup_ok [OF assms(1) look]
  have "kv_safe s' \<and> kv_bindings s' = kv_bindings s \<and>
    (case res of Inr v \<Rightarrow> visible now (kv_bindings s) key = Some v
     | Inl st \<Rightarrow> status_code st = NotFound \<and> kv_bindings s key = None
         \<or> status_code st \<in> {IoError, Corruption})"
  proof (cases l)
    case (LookupMiss md)
    obtain r s2 where read: "get_read io md s1 = (r, s2)" by fastforce
    note rd = get_read_ok [OF lk(1) read]
    have md: "map_of (kv_index s1) key = Some md" "\<not> isExpired (md_expiresAtMs md) now"
      using lk(2,5) LookupMiss by simp_all
    show ?thesis
    proof (cases r)
      case (Inl st)
      with assms(2) look LookupMiss read lk(3) rd(1,3) rd(5) [OF Inl] show ?thesis
        by (auto simp: get_shared_def)
    next
      case (Inr v)
      then have v: "visible now (kv_bindings s2) key = Some v"
        using visible_entry [OF md] rd(3) rd(4) [OF Inr md(1)] by simp
      then have "kv_values s2 key = Some v" by (rule visible_values)
      from get_fill_ok [OF rd(1) this] show ?thesis
        using assms(2) look LookupMiss read lk(3) rd(3) Inr v by (auto simp: get_shared_def)
    qed
  qed (use assms look lk in \<open>auto simp: get_shared_def\<close>)
  then show "kv_safe s'" "kv_bindings s' = kv_bindings s"
    "res = Inr v \<Longrightarrow> visible now (kv_bindings s) key = Some v"
    "res = Inl st \<Longrightarrow> status_code st = NotFound \<and> kv_bindings s key = None
       \<or> status_code st \<in> {IoError, Corruption}"
    by (auto split: sum.splits)
qed

lemma get_shared_expired:
  assumes "get_shared io now key s = (GetExpired, s')"
  obtains md where "map_of (kv_index s) key = Some md" "isExpired (md_expiresAtMs md) now" "s' = s"
  using assms by (auto simp: get_shared_eq split: option.splits if_splits prod.splits sum.splits)

lemma erase_expired_entry:
  assumes "kv_safe s" "map_of (kv_index s) k = Some md" "isExpired (md_expiresAtMs md) now"
  shows "kv_safe (snd (eraseIfExpired k now s))"
    "kv_bindings (snd (eraseIfExpired k now s)) = (kv_bindings s)(k := None)"
  using erase_key_safe [OF assms(1), of "snd (eraseIfExpired k now s)" k] assms(2,3)
  by (simp_all add: eraseIfExpired_def)

lemma erase_expired_ok:
  assumes "kv_safe s"
  shows "kv_safe (snd (eraseIfExpired k now s))"
    "kv_bindings (snd (eraseIfExpired k now s)) = kv_bindings s \<or>
     (\<exists>v e. kv_bindings s k = Some (v, e) \<and> isExpired e now) \<and>
     kv_bindings (snd (eraseIfExpired k now s)) = (kv_bindings s)(k := None)"
proof -
  consider "snd (eraseIfExpired k now s) = s"
    | md where "map_of (kv_index s) k = Some md" "isExpired (md_expiresAtMs md) now"
    by (force simp: eraseIfExpired_def split: option.splits)
  then have "kv_safe (snd (eraseIfExpired k now s)) \<and>
    (kv_bindings (snd (eraseIfExpired k now s)) = kv_bindings s \<or>
     (\<exists>v e. kv_bindings s k = Some (v, e) \<and> isExpired e now) \<and>
     kv_bindings (snd (eraseIfExpired k now s)) = (kv_bindings s)(k := None))"
    using erase_expired_entry [OF assms] assms by cases (auto simp: kv_bindings_def)
  then show "kv_safe (snd (eraseIfExpired k now s))"
    "kv_bindings (snd (eraseIfExpired k now s)) = kv_bindings s \<or>
     (\<exists>v e. kv_bindings s k = Some (v, e) \<and> isExpired e now) \<and>
     kv_bindings (snd (eraseIfExpired k now s)) = (kv_bindings s)(k := None)"
    by blast+
qed

text \<open>
  A GET, whatever the read meets: a value it returns is the visible one, \<^verbatim>\<open>NOT_FOUND\<close> means that
  there is none, and any other failure is a closed store, an invalid key or a failed read. The
  abstract value changes only by dropping the key when it has expired.
\<close>

lemma kv_get_cases:
  assumes "kv_safe s" "kv_get io now key s = (res, s')"
  obtains (hit) v where "res = Inr v" "kv_opened s" "visible now (kv_bindings s) key = Some v"
      "kv_safe s'" "kv_bindings s' = kv_bindings s"
  | (absent) st where "res = Inl st" "status_code st = NotFound" "kv_opened s"
      "visible now (kv_bindings s) key = None" "kv_safe s'"
      "kv_bindings s' = (kv_bindings s)(key := None)"
  | (failed) st where "res = Inl st" "\<not> status_ok st" "status_code st \<noteq> NotFound"
      "kv_safe s'" "kv_bindings s' = kv_bindings s"
proof -
  obtain c s0 where checks: "get_checks key s = (c, s0)" by fastforce
  note safe = get_checks_safe [OF assms(1) checks]
  show ?thesis
  proof (cases "status_ok c")
    case False
    then have e: "res = Inl c" "s' = s0" "status_code c \<noteq> NotFound"
      using assms(2) checks by (auto simp: kv_get_def get_checks_def validateKey_def split: if_splits)
    from failed [OF e(1) False e(3)] show ?thesis using e(2) safe by simp
  next
    case True
    then have op: "kv_opened s" using checks by (auto simp: get_checks_def split: if_splits)
    obtain phase s1 where sh: "get_shared io now key s0 = (phase, s1)" by fastforce
    show ?thesis
    proof (cases phase)
      case (GetReturns r)
      then have s': "res = r" "s' = s1"
        using assms(2) True checks sh by (simp_all add: kv_get_def)
      note sh' = get_shared_safe [OF safe(1) sh [unfolded GetReturns], unfolded safe(3)]
      show ?thesis
      proof (cases r)
        case (Inr v)
        from hit [OF s'(1) [unfolded Inr] op sh'(3) [OF Inr]] show ?thesis
          using sh'(1,2) s'(2) by simp
      next
        case (Inl st)
        consider "status_code st = NotFound" "kv_bindings s key = None"
          | "status_code st \<in> {IoError, Corruption}"
          using sh'(4) [OF Inl] by metis
        then show ?thesis
        proof cases
          case 1
          then have v: "visible now (kv_bindings s) key = None" "(kv_bindings s)(key := None) = kv_bindings s"
            by (auto simp: visible_def)
          from absent [OF s'(1) [unfolded Inl] 1(1) op v(1)] show ?thesis
            using sh'(1,2) s'(2) v(2) by simp
        next
          case 2
          then have "\<not> status_ok st" "status_code st \<noteq> NotFound" by (auto simp: status_ok_def)
          from failed [OF s'(1) [unfolded Inl] this] show ?thesis
            using sh'(1,2) s'(2) by simp
        qed
      qed
    next
      case GetExpired
      then obtain md where md: "map_of (kv_index s0) key = Some md" "isExpired (md_expiresAtMs md) now"
        and s1: "s1 = s0" using sh by (auto elim: get_shared_expired)
      have s': "res = Inl (notFound ''key has expired'')" "s' = snd (eraseIfExpired key now s0)"
        using assms(2) True checks sh GetExpired s1 by (simp_all add: kv_get_def)
      have "visible now (kv_bindings s) key = None"
        using md safe(2) by (simp add: visible_kv_bindings)
      from absent [OF s'(1) _ op this erase_expired_entry [OF safe(1) md, folded s'(2), unfolded safe(3)]]
      show ?thesis by simp
    qed
  qed
qed

section \<open>DEL\<close>

text \<open>
  A DEL, whatever the append meets, either removes the visible binding, or finds none (and then
  drops the key if it has expired), or fails and leaves the abstract value as it was.
\<close>

lemma append_code:
  "appendRecordLocked io r st = (Inl e, st') \<Longrightarrow> status_code e \<in> {IoError, InvalidArgument}"
  by (auto simp: appendRecordLocked_def ensureOpenLocked_def writeRecord_def Let_def
      split: if_splits option.splits prod.splits sum.splits)

lemma appendDelete_status:
  assumes "appendDelete io key st = (r, st')"
  obtains (appended) "r = Status_success" | (failed) "\<not> status_ok r" "status_code r \<noteq> NotFound"
proof -
  obtain res st1 where app: "appendRecordLocked io \<lparr>rec_op = OpDelete, rec_key = key, rec_value = [],
      rec_expiresAtMs = 0\<rparr> st = (res, st1)" by fastforce
  show ?thesis
  proof (cases res)
    case (Inl e)
    have "\<not> status_ok e" "status_code e \<noteq> NotFound"
      using append_code [OF app [unfolded Inl]] by (auto simp: status_ok_def)
    then show ?thesis
      using assms app Inl by (intro failed) (simp_all add: appendDelete_def)
  next
    case (Inr md)
    then show ?thesis
      using assms app by (intro appended) (simp add: appendDelete_def)
  qed
qed

lemma remove_locked_cases:
  assumes "kv_safe s" "log_fits k None (kv_storage s)" "remove_locked io now k s = (st, s')"
  obtains (removed) v where "st = Status_success" "visible now (kv_bindings s) k = Some v" "kv_safe s'"
      "kv_bindings s' = (kv_bindings s)(k := None)"
  | (absent) "status_code st = NotFound" "visible now (kv_bindings s) k = None" "kv_safe s'"
      "kv_bindings s' = (kv_bindings s)(k := None)"
  | (failed) "\<not> status_ok st" "status_code st \<noteq> NotFound" "kv_safe s'" "kv_bindings s' = kv_bindings s"
proof (cases "map_of (kv_index s) k")
  case None
  then have "kv_bindings s k = None" by (simp add: kv_bindings_def)
  moreover from this have "(kv_bindings s)(k := None) = kv_bindings s" by auto
  ultimately show ?thesis
    using assms None by (intro absent) (auto simp: remove_locked_def visible_def)
next
  case (Some md)
  show ?thesis
  proof (cases "isExpired (md_expiresAtMs md) now")
    case True
    with Some assms(3) have s': "status_code st = NotFound" "kv_index s' = AList.delete k (kv_index s)"
      "kv_cache s' = lru_erase k (kv_cache s)" "kv_storage s' = kv_storage s"
      by (auto simp: remove_locked_def)
    have "visible now (kv_bindings s) k = None"
      using Some True by (simp add: visible_kv_bindings)
    with s'(1) erase_key_safe [OF assms(1) s'(2-4)] show ?thesis by (intro absent)
  next
    case False
    obtain r storage where app: "appendDelete io k (kv_storage s) = (r, storage)" by fastforce
    let ?s = "s\<lparr>kv_storage := storage\<rparr>"
    have safe: "kv_safe ?s" "kv_bindings ?s = kv_bindings s"
      using same_values_safe [of ?s s] coherent_delete_keeps [OF kv_safeD [OF assms(1)] assms(2), of io] app
      by simp_all
    have vis: "visible now (kv_bindings s) k = Some (slice (contents (kv_storage s)) md)"
      using Some False by (simp add: visible_kv_bindings kv_values_def)
    from app show ?thesis
    proof (cases rule: appendDelete_status)
      case appended
      with assms(3) Some False app have s': "st = Status_success" "kv_index s' = AList.delete k (kv_index ?s)"
        "kv_cache s' = lru_erase k (kv_cache ?s)" "kv_storage s' = kv_storage ?s"
        by (auto simp: remove_locked_def Let_def)
      from erase_key_safe [OF safe(1) s'(2-4)] show ?thesis
        unfolding safe(2) by (intro removed [OF s'(1) vis])
    next
      case err: failed
      with assms(3) Some False app have "st = r" "s' = ?s"
        by (auto simp: remove_locked_def Let_def)
      with err safe show ?thesis by (intro failed) simp_all
    qed
  qed
qed

lemma kv_remove_cases:
  assumes "kv_safe s" "log_fits key None (kv_storage s)" "kv_remove io now key s = (st, s')"
  obtains (removed) v where "st = Status_success" "visible now (kv_bindings s) key = Some v"
      "kv_safe s'" "kv_bindings s' = (kv_bindings s)(key := None)"
  | (absent) "status_code st = NotFound" "kv_opened s" "visible now (kv_bindings s) key = None"
      "kv_safe s'" "kv_bindings s' = (kv_bindings s)(key := None)"
  | (failed) "\<not> status_ok st" "status_code st \<noteq> NotFound" "kv_safe s'" "kv_bindings s' = kv_bindings s"
proof (cases "status_ok (remove_checks key s)")
  case False
  then have "\<not> status_ok st \<and> status_code st \<noteq> NotFound \<and> s' = s"
    using assms(3) by (auto simp: kv_remove_def remove_checks_def validateKey_def split: if_splits)
  with assms(1) show ?thesis using failed by blast
next
  case True
  then have "kv_opened s" "remove_locked io now key s = (st, s')"
    using assms(3) by (auto simp: kv_remove_def remove_checks_def split: if_splits)
  from assms(1,2) this(2) show ?thesis
    by (cases rule: remove_locked_cases) (use removed absent [OF _ \<open>kv_opened s\<close>] failed in blast)+
qed

section \<open>The expiry sweep\<close>

abbreviation live_entries :: "i64 \<Rightarrow> index_map \<Rightarrow> index_map" where
  "live_entries now \<equiv> filter (\<lambda>(k, md). \<not> isExpired (md_expiresAtMs md) now)"

abbreviation sweep_cache ::
  "i64 \<Rightarrow> index_map \<Rightarrow> (string, string) LruCache \<Rightarrow> (string, string) LruCache" where
  "sweep_cache now \<equiv>
     fold (\<lambda>(k, md) c. if isExpired (md_expiresAtMs md) now then lru_erase k c else c)"

text \<open>Both sweeps keep the unexpired entries in order and erase the others from the cache.\<close>

lemma sweepExpired_result:
  "sweepExpired now idx c n =
     (live_entries now idx,
      sweep_cache now idx c,
      n + length (filter (\<lambda>(k, md). isExpired (md_expiresAtMs md) now) idx))"
  by (induction now idx c n rule: sweepExpired.induct) auto

lemma compactSweep_result:
  "compactSweep now idx c n =
     (live_entries now idx,
      sweep_cache now idx c,
      n + of_nat (length (filter (\<lambda>(k, md). isExpired (md_expiresAtMs md) now) idx)))"
  by (induction now idx c n rule: compactSweep.induct) (auto simp: add.assoc)

text \<open>Dropping the expired keys one after the other keeps the invariant.\<close>

definition drop_expired :: "i64 \<Rightarrow> ttl_map \<Rightarrow> ttl_map" where
  "drop_expired now m k =
     (case m k of None \<Rightarrow> None | Some (v, e) \<Rightarrow> if isExpired e now then None else Some (v, e))"

lemma visible_drop_expired:
  assumes "sint now \<le> sint now'"
  shows "visible now' (drop_expired now m) = visible now' m"
  using isExpired_mono [OF _ assms]
  by (auto simp: fun_eq_iff visible_def drop_expired_def split: option.splits)

definition swept :: "i64 \<Rightarrow> index_map \<Rightarrow> (string \<rightharpoonup> string) \<Rightarrow> string \<rightharpoonup> string" where
  "swept now idx t k =
     (case map_of idx k of
        None \<Rightarrow> t k | Some md \<Rightarrow> if isExpired (md_expiresAtMs md) now then None else t k)"

lemma sweep_cache_coherent:
  assumes "lru_inv c" "lru_lookup c \<subseteq>\<^sub>m t" "distinct (map fst idx)"
  shows "lru_inv (sweep_cache now idx c)" "lru_lookup (sweep_cache now idx c) \<subseteq>\<^sub>m swept now idx t"
proof -
  have "lru_inv (sweep_cache now idx c) \<and> lru_lookup (sweep_cache now idx c) \<subseteq>\<^sub>m swept now idx t"
    using assms
  proof (induction idx arbitrary: c t)
    case Nil
    then show ?case by (simp add: swept_def map_le_def)
  next
    case (Cons x idx)
    obtain k md where x: "x = (k, md)" by fastforce
    have none: "map_of idx k = None"
      using Cons.prems(3) x by (simp add: map_of_eq_None_iff)
    show ?case
    proof (cases "isExpired (md_expiresAtMs md) now")
      case True
      have sw: "swept now idx (t(k := None)) = swept now (x # idx) t"
        using none True x by (auto simp: swept_def fun_eq_iff split: option.splits)
      then show ?thesis
        using Cons.IH [OF lru.inv_erase lru.erase_coherent, of c t k] Cons.prems True x
        unfolding sw by simp
    next
      case False
      have "swept now idx t = swept now (x # idx) t"
        using none False x by (auto simp: swept_def fun_eq_iff)
      then show ?thesis
        using Cons.IH [of c t] Cons.prems False x by simp
    qed
  qed
  then show "lru_inv (sweep_cache now idx c)"
    "lru_lookup (sweep_cache now idx c) \<subseteq>\<^sub>m swept now idx t" by blast+
qed

lemma map_of_unexpired:
  "distinct (map fst idx) \<Longrightarrow>
   map_of (live_entries now idx) k =
     (case map_of idx k of None \<Rightarrow> None
      | Some md \<Rightarrow> if isExpired (md_expiresAtMs md) now then None else Some md)"
  using map_of_filter_distinct [of idx "\<lambda>k md. \<not> isExpired (md_expiresAtMs md) now" k]
  by (simp split: option.splits)

lemma coherent_sweep:
  assumes "coherent st idx c t"
  shows "coherent st (live_entries now idx)
    (sweep_cache now idx c)
    (swept now idx t)"
proof -
  have d: "distinct (map fst idx)" and c: "lru_inv c" "lru_lookup c \<subseteq>\<^sub>m t"
    and cov: "covered (log_holds st) (map_of idx) t" and r: "log_ready st"
    using assms by (simp_all add: coherent_def)
  have "covered (log_holds st) (map_of (live_entries now idx))
      (swept now idx t)"
    using cov unfolding covered_def map_of_unexpired [OF d] swept_def
    by (auto split: option.splits) (metis option.distinct(1) option.exhaust)+
  then show ?thesis
    using sweep_cache_coherent [OF c d, of now] d r
    by (simp add: coherent_def distinct_map_fst_filter)
qed

lemma sweep_bindings:
  assumes "kv_safe s" "kv_index s' = live_entries now (kv_index s)"
    and "kv_cache s' = sweep_cache now (kv_index s) (kv_cache s)"
    and "kv_storage s' = kv_storage s"
  shows "kv_safe s'" "kv_bindings s' = drop_expired now (kv_bindings s)"
proof -
  note coh = kv_safeD [OF assms(1)]
  have "coherent (kv_storage s') (kv_index s') (kv_cache s') (swept now (kv_index s) (kv_values s))"
    using coherent_sweep [OF coh, of now] assms by simp
  from kv_safeI(1) [OF this] show "kv_safe s'" .
  have "distinct (map fst (kv_index s))"
    using coh by (simp add: coherent_def)
  then show "kv_bindings s' = drop_expired now (kv_bindings s)"
    by (auto simp: fun_eq_iff kv_bindings_def drop_expired_def assms(2,4) map_of_unexpired
        split: option.splits)
qed

lemma kv_cleanup_safe:
  assumes "kv_safe s" "kv_opened s" "kv_cleanupExpired now s = (n, s')"
  shows "kv_safe s'" "kv_bindings s' = drop_expired now (kv_bindings s)"
    "n = length (kv_index s) - length (kv_index s')"
    "kv_expiredKeys s' = kv_expiredKeys s + of_nat n" "kv_storage s' = kv_storage s"
    "kv_index s' = live_entries now (kv_index s)"
    "kv_opened s'" "kv_config s' = kv_config s"
proof -
  have s': "s' = s\<lparr>kv_index := live_entries now (kv_index s),
      kv_cache := sweep_cache now (kv_index s) (kv_cache s),
      kv_expiredKeys := kv_expiredKeys s + of_nat n\<rparr>"
    "n = length (filter (\<lambda>(k, md). isExpired (md_expiresAtMs md) now) (kv_index s))"
    using assms(2,3) by (auto simp: kv_cleanupExpired_def sweep_locked_def sweepExpired_result)
  show "kv_safe s'" "kv_bindings s' = drop_expired now (kv_bindings s)"
    using sweep_bindings [OF assms(1), of s' now] s'(1) by simp_all
  show "n = length (kv_index s) - length (kv_index s')"
    using sum_length_filter_compl [of "\<lambda>(k, md). isExpired (md_expiresAtMs md) now" "kv_index s"]
    by (simp add: s' case_prod_beta')
  show "kv_expiredKeys s' = kv_expiredKeys s + of_nat n" "kv_storage s' = kv_storage s"
    "kv_index s' = live_entries now (kv_index s)"
    "kv_opened s'" "kv_config s' = kv_config s"
    using assms(2) by (simp_all add: s'(1))
qed

section \<open>KEYS\<close>

lemma kv_keys_safe:
  assumes "kv_safe s" "kv_opened s" "kv_keys now prefix s = (res, s')"
  shows "res = Inr (sorted_list_of_set
      {k. hasPrefix prefix k \<and> visible now (kv_bindings s) k \<noteq> None})"
    "kv_safe s'" "kv_bindings s' = drop_expired now (kv_bindings s)"
proof -
  obtain n s1 where cl: "kv_cleanupExpired now s = (n, s1)" by fastforce
  note cl' = kv_cleanup_safe [OF assms(1,2) cl]
  have s': "res = Inr (sort (filter (hasPrefix prefix) (map fst (kv_index s'))))" "s' = s1"
    using assms(2,3) cl by (auto simp: kv_keys_def keys_section_def Let_def)
  show "kv_safe s'" "kv_bindings s' = drop_expired now (kv_bindings s)"
    using cl'(1,2) s'(2) by simp_all
  have d: "distinct (map fst (kv_index s))"
    using kv_safeD [OF assms(1)] by (simp add: coherent_def)
  have "fst ` set (kv_index s') = {k. visible now (kv_bindings s) k \<noteq> None}"
  proof (rule set_eqI)
    fix k
    have "k \<in> fst ` set (kv_index s') \<longleftrightarrow> map_of (kv_index s') k \<noteq> None"
      by (simp add: map_of_eq_None_iff)
    also have "\<dots> \<longleftrightarrow> visible now (kv_bindings s) k \<noteq> None"
      unfolding s'(2) cl'(6) map_of_unexpired [OF d]
      by (auto simp: visible_kv_bindings kv_values_def split: option.splits)
    finally show "k \<in> fst ` set (kv_index s') \<longleftrightarrow> k \<in> {k. visible now (kv_bindings s) k \<noteq> None}"
      by simp
  qed
  then have "set (filter (hasPrefix prefix) (map fst (kv_index s'))) =
      {k. hasPrefix prefix k \<and> visible now (kv_bindings s) k \<noteq> None}"
    by auto
  moreover have "distinct (filter (hasPrefix prefix) (map fst (kv_index s')))"
    using d unfolding s'(2) cl'(6) by (intro distinct_filter distinct_map_fst_filter)
  ultimately show "res = Inr (sorted_list_of_set
      {k. hasPrefix prefix k \<and> visible now (kv_bindings s) k \<noteq> None})"
    using sorted_list_of_set_sort_remdups [of "filter (hasPrefix prefix) (map fst (kv_index s'))"]
    unfolding s'(1) by (simp add: distinct_remdups_id)
qed

section \<open>COMPACT\<close>

text \<open>The record that \<^verbatim>\<open>compact()\<close> makes of an index entry, when every read succeeds.\<close>

definition live_record :: "string \<Rightarrow> string \<times> RecordMetadata \<Rightarrow> Record" where
  "live_record bs x =
     \<lparr>rec_op = OpSet, rec_key = fst x, rec_value = slice bs (snd x),
      rec_expiresAtMs = md_expiresAtMs (snd x)\<rparr>"

lemma live_record_simps [simp]:
  "rec_op (live_record bs x) = OpSet" "rec_key (live_record bs x) = fst x"
  "rec_value (live_record bs x) = slice bs (snd x)"
  "rec_expiresAtMs (live_record bs x) = md_expiresAtMs (snd x)"
  by (simp_all add: live_record_def)

lemma collectLive_cases:
  assumes "collectLive io i idx st = (res, st')" "log_ready st"
  shows "contents st' = contents st" "log_ready st'"
    "res = Inr recs \<Longrightarrow> recs = map (live_record (contents st)) idx"
    "res = Inl e \<Longrightarrow> \<not> status_ok e"
proof -
  have "contents st' = contents st \<and> log_ready st' \<and>
    (\<forall>recs. res = Inr recs \<longrightarrow> recs = map (live_record (contents st)) idx) \<and>
    (\<forall>e. res = Inl e \<longrightarrow> \<not> status_ok e)"
    using assms
  proof (induction idx arbitrary: i st res st')
    case Nil
    then show ?case by auto
  next
    case (Cons x idx)
    obtain k md where x: "x = (k, md)" by fastforce
    obtain r st1 where rd: "readValue (io i) md st = (r, st1)" by fastforce
    note rd' = read_cases [OF rd]
    have ready: "log_ready st1"
      using vlog.read_ready [OF Cons.prems(2), of "io i" md] rd by simp
    obtain rest st2 where cl: "collectLive io (Suc i) idx st1 = (rest, st2)" by fastforce
    note IH = Cons.IH [OF cl ready]
    show ?case
      using Cons.prems(1) x rd rd' ready cl IH
      by (cases r; cases rest) (auto simp: live_record_def)
  qed
  then show "contents st' = contents st" "log_ready st'"
    "res = Inr recs \<Longrightarrow> recs = map (live_record (contents st)) idx"
    "res = Inl e \<Longrightarrow> \<not> status_ok e"
    by blast+
qed

text \<open>The meaning of a complete log: key to value and expiry, and where each value is stored.\<close>

definition log_value :: "log_map \<Rightarrow> ttl_map" where
  "log_value m k = map_option (\<lambda>(md, v). (v, md_expiresAtMs md)) (m k)"

lemma log_state_stored:
  assumes "\<forall>r \<in> set rs. validRecord r" "length (pre @ log_bytes rs) < 2 ^ 63"
    and "\<And>k md v. m k = Some (md, v) \<Longrightarrow> stored_at pre md k v"
    and "log_state (length pre) rs m k = Some (md, v)"
  shows "stored_at (pre @ log_bytes rs) md k v"
  using assms
proof (induction rs arbitrary: pre m)
  case Nil
  then show ?case by simp
next
  case (Cons r rs)
  let ?pre = "pre @ encodeRecord r"
  let ?m = "case rec_op r of
      OpSet \<Rightarrow> m(rec_key r \<mapsto> (record_metadata (of_nat (length pre)) r, rec_value r))
    | OpDelete \<Rightarrow> m(rec_key r := None)"
  have len: "length pre + record_size r < 2 ^ 63"
    using Cons.prems(2) by simp
  have "stored_at ?pre md k v" if "?m k = Some (md, v)" for k md v
  proof (cases "k = rec_key r")
    case True
    with that show ?thesis
      using stored_at_new [OF _ _ len] Cons.prems(1) by (auto split: Operation.splits)
  next
    case False
    with that have "m k = Some (md, v)" by (auto split: Operation.splits)
    from Cons.prems(3) [OF this] show ?thesis
      by (rule stored_at_append) (use len in simp)
  qed
  moreover have "log_state (length ?pre) rs ?m k = Some (md, v)"
    using Cons.prems(4) by simp
  moreover have "length (?pre @ log_bytes rs) < 2 ^ 63"
    using Cons.prems(2) by simp
  ultimately have "stored_at (?pre @ log_bytes rs) md k v"
    using Cons.IH [of ?pre ?m] Cons.prems(1) by simp
  then show ?case by simp
qed

lemma log_stored:
  assumes "\<forall>r \<in> set rs. validRecord r" "length (log_bytes rs) < 2 ^ 63"
    and "log_state 0 rs Map.empty k = Some (md, v)"
  shows "stored_at (log_bytes rs) md k v"
  using log_state_stored [of rs "[]" Map.empty k md v] assms by simp

lemma compacted_index_log_state:
  assumes "\<forall>r \<in> set rs. rec_op r = OpSet" "\<And>k. map_of idx k = map_option fst (m k)"
  shows "map_of (compacted_index off rs idx) k = map_option fst (log_state off rs m k)"
  using assms
proof (induction rs arbitrary: off idx m)
  case Nil
  then show ?case by simp
next
  case (Cons r rs)
  have "map_of (AList.update (rec_key r) (record_metadata (of_nat off) r) idx) k' =
      map_option fst ((m(rec_key r \<mapsto> (record_metadata (of_nat off) r, rec_value r))) k')" for k'
    using Cons.prems(2) by simp
  note IH = Cons.IH [OF _ this, of "off + record_size r"]
  show ?case
    using IH Cons.prems(1) by (simp del: fun_upd_apply)
qed

lemma distinct_compacted_index:
  "distinct (map fst idx) \<Longrightarrow> distinct (map fst (compacted_index off rs idx))"
  by (induction off rs idx rule: compacted_index.induct) auto

lemma log_value_live:
  assumes "\<forall>r \<in> set rs. rec_op r = OpSet" "distinct (map rec_key rs)"
  shows "log_value (log_state off rs m) k =
    (case map_of (map (\<lambda>r. (rec_key r, (rec_value r, rec_expiresAtMs r))) rs) k of
       None \<Rightarrow> log_value m k | Some x \<Rightarrow> Some x)"
  using assms
proof (induction rs arbitrary: off m)
  case Nil
  then show ?case by simp
next
  case (Cons r rs)
  have "map_of (map (\<lambda>r. (rec_key r, (rec_value r, rec_expiresAtMs r))) rs) (rec_key r) = None"
    using Cons.prems(2) by (simp add: map_of_eq_None_iff image_image)
  with Cons show ?case by (auto simp: log_value_def split: option.splits)
qed

lemma map_of_live_records:
  "map_of (map (\<lambda>r. (rec_key r, (rec_value r, rec_expiresAtMs r))) (map (live_record bs) idx)) k =
   map_option (\<lambda>md. (slice bs md, md_expiresAtMs md)) (map_of idx k)"
  by (induction idx) auto

text \<open>
  The bytes that the live entries take as records; a compaction writes that much.
\<close>

definition live_bytes :: "index_map \<Rightarrow> nat" where
  "live_bytes idx =
     sum_list (map (\<lambda>x. kRecordHeaderSize + length (fst x) + unat (md_valueSize (snd x))) idx)"

lemma live_record_size:
  assumes "coherent st idx c t" "x \<in> set idx"
  shows "record_size (live_record (contents st) x) =
      kRecordHeaderSize + length (fst x) + unat (md_valueSize (snd x))"
    "validRecord (live_record (contents st) x)"
proof -
  obtain k md where x: "x = (k, md)" by fastforce
  have cov: "covered (log_holds st) (map_of idx) t" and d: "distinct (map fst idx)"
    using assms(1) by (simp_all add: coherent_def)
  have "map_of idx k = Some md"
    using assms(2) d x by simp
  with covered_Some [OF cov] obtain v where "stored_at (contents st) md k v"
    by (auto simp: log_holds_def)
  moreover from this obtain r where "validRecord r" "rec_key r = k" "rec_value r = v" "rec_op r = OpSet"
    unfolding stored_at_def by blast
  ultimately show "record_size (live_record (contents st) x) =
      kRecordHeaderSize + length (fst x) + unat (md_valueSize (snd x))"
    "validRecord (live_record (contents st) x)"
    using stored_at_slice(1,2) [of "contents st" md k v] x
    by (auto simp: record_size_def validRecord_def)
qed

lemma length_log_bytes: "length (log_bytes rs) = sum_list (map record_size rs)"
  by (induction rs) simp_all

lemma live_bytes_log:
  assumes "coherent st idx c t" "mset live = mset (map (live_record (contents st)) idx)"
  shows "length (log_bytes live) = live_bytes idx"
proof -
  have "length (log_bytes live) = sum_list (map (record_size \<circ> live_record (contents st)) idx)"
    using assms(2) unfolding length_log_bytes
    by (metis list.map_comp mset_map sum_mset_sum_list)
  also have "\<dots> = live_bytes idx"
    unfolding live_bytes_def using live_record_size(1) [OF assms(1)]
    by (intro arg_cong [of _ _ sum_list] map_cong) simp_all
  finally show ?thesis .
qed

text \<open>What the file and the new index describe after a compaction.\<close>

lemma compacted_coherent:
  assumes "coherent st idx c t" "mset live = mset (map (live_record (contents st)) idx)"
    and "contents st' = log_bytes live" "data_file (disk st') \<noteq> None" "live_bytes idx < 2 ^ 63"
    and "lru_inv c'"
  shows "coherent st' (compacted_index 0 live []) (lru_clear c') t"
    "map_option md_expiresAtMs (map_of (compacted_index 0 live []) k) =
       map_option md_expiresAtMs (map_of idx k)"
proof -
  let ?m = "log_state 0 live Map.empty"
  have d: "distinct (map fst idx)" and cov: "covered (log_holds st) (map_of idx) t"
    using assms(1) by (simp_all add: coherent_def)
  have set: "set live = live_record (contents st) ` set idx"
    using assms(2) by (metis list.set_map set_mset_mset)
  then have ops: "\<forall>r \<in> set live. rec_op r = OpSet" by auto
  have valid: "\<forall>r \<in> set live. validRecord r"
    using live_record_size(2) [OF assms(1)] set by auto
  have "mset (map rec_key live) = mset (map fst idx)"
    using arg_cong [OF assms(2), of "image_mset rec_key"] by (simp add: image_mset.compositionality o_def)
  then have dk: "distinct (map rec_key live)"
    using d by (metis mset_eq_imp_distinct_iff)
  let ?kv = "\<lambda>r. (rec_key r, (rec_value r, rec_expiresAtMs r))"
  have "map_of (map ?kv live) = map_of (map ?kv (map (live_record (contents st)) idx))"
    using dk d set by (subst map_of_inject_set) (simp_all add: o_def image_image)
  then have val: "log_value ?m k =
      map_option (\<lambda>md. (slice (contents st) md, md_expiresAtMs md)) (map_of idx k)" for k
    unfolding map_of_live_records using log_value_live [OF ops dk, of 0 Map.empty k]
    by (simp add: log_value_def split: option.splits)
  have ci: "map_of (compacted_index 0 live []) k = map_option fst (?m k)" for k
    by (rule compacted_index_log_state [OF ops]) simp
  show "map_option md_expiresAtMs (map_of (compacted_index 0 live []) k) =
       map_option md_expiresAtMs (map_of idx k)"
    unfolding ci using val [of k] by (cases "?m k"; cases "map_of idx k") (auto simp: log_value_def)
  have len: "length (log_bytes live) < 2 ^ 63"
    using live_bytes_log [OF assms(1,2)] assms(5) by simp
  have tk: "map_option snd (?m k) = t k" for k
    unfolding covered_slice [OF cov] using val [of k]
    by (cases "?m k"; cases "map_of idx k") (auto simp: log_value_def)
  have "covered (log_holds st') (map_of (compacted_index 0 live [])) t"
    unfolding covered_def ci log_holds_def assms(3)
    using tk log_stored [OF valid len]
    by (metis (no_types, lifting) option.map_sel option.map_disc_iff option.collapse option.sel option.distinct(1) prod.collapse)
  then show "coherent st' (compacted_index 0 live []) (lru_clear c') t"
    using assms(4,6) len unfolding coherent_def log_ready_def assms(3)
    by (simp add: distinct_compacted_index lru.clear_coherent lru.inv_clear)
qed

lemma same_keys_length:
  assumes "distinct (map fst xs)" "distinct (map fst ys)"
    and "\<And>k. map_of xs k = None \<longleftrightarrow> map_of ys k = None"
  shows "length xs = length ys"
proof -
  have "k \<in> set (map fst xs) \<longleftrightarrow> k \<in> set (map fst ys)" for k
    using assms(3) [of k] by (simp add: map_of_eq_None_iff)
  then have "set (map fst xs) = set (map fst ys)" by blast
  then show ?thesis
    using assms(1,2) by (metis distinct_card length_map)
qed

lemma same_expiry_bindings:
  assumes "kv_values s' = kv_values s"
    and "\<And>k. map_option md_expiresAtMs (map_of (kv_index s') k) =
      map_option md_expiresAtMs (map_of (kv_index s) k)"
  shows "kv_bindings s' = kv_bindings s"
proof
  fix k
  show "kv_bindings s' k = kv_bindings s k"
    using assms(2) [of k] unfolding kv_bindings_pair assms(1)
    by (auto split: option.splits)
qed

lemma coherent_same_contents:
  "coherent st idx c t \<Longrightarrow> contents st' = contents st \<Longrightarrow> data_file (disk st') \<noteq> None \<Longrightarrow>
   coherent st' idx c t"
  by (simp add: coherent_def log_ready_def log_holds_def)

lemma live_bytes_filter: "live_bytes (filter P idx) \<le> live_bytes idx"
  unfolding live_bytes_def by (induction idx) auto

text \<open>The state after the sweep, and after the new file and index are in place.\<close>

definition compact_swept :: "i64 \<Rightarrow> KeyValueStore \<Rightarrow> KeyValueStore" where
  "compact_swept now s = s\<lparr>kv_index := live_entries now (kv_index s),
     kv_cache := sweep_cache now (kv_index s) (kv_cache s),
     kv_expiredKeys := kv_expiredKeys s +
       of_nat (length (filter (\<lambda>(k, md). isExpired (md_expiresAtMs md) now) (kv_index s)))\<rparr>"

lemma compact_swept_ok:
  assumes "kv_safe s"
  shows "kv_safe (compact_swept now s)" "kv_bindings (compact_swept now s) = drop_expired now (kv_bindings s)"
    "kv_index (compact_swept now s) = live_entries now (kv_index s)"
    "kv_storage (compact_swept now s) = kv_storage s" "kv_opened (compact_swept now s) = kv_opened s"
  using sweep_bindings [OF assms, of "compact_swept now s" now] by (simp_all add: compact_swept_def)

lemma compact_installed:
  assumes "kv_safe s" "live_bytes (kv_index s) < 2 ^ 63"
    and "mset live = mset (map (live_record (contents (kv_storage s))) (kv_index s))"
    and "contents (kv_storage s') = log_bytes live" "data_file (disk (kv_storage s')) \<noteq> None"
    and "kv_index s' = compacted_index 0 live []" "kv_cache s' = lru_clear (kv_cache s)"
  shows "kv_safe s'" "kv_bindings s' = kv_bindings s" "length (kv_index s') = length (kv_index s)"
proof -
  note coh = kv_safeD [OF assms(1)]
  then have inv: "lru_inv (kv_cache s)" by (simp add: coherent_def)
  note new = compacted_coherent [OF coh assms(3-5,2) inv]
  have exp: "map_option md_expiresAtMs (map_of (kv_index s') k) =
      map_option md_expiresAtMs (map_of (kv_index s) k)" for k
    unfolding assms(6) by (rule new(2))
  have coh': "coherent (kv_storage s') (kv_index s') (kv_cache s') (kv_values s)"
    unfolding assms(6,7) by (rule new(1))
  show "kv_safe s'" by (rule kv_safeI(1) [OF coh'])
  from kv_safeI(2) [OF coh'] show "kv_bindings s' = kv_bindings s"
    by (rule same_expiry_bindings) (rule exp)
  have "map_of (kv_index s') k = None \<longleftrightarrow> map_of (kv_index s) k = None" for k
    using exp [of k] by (metis map_option_is_None)
  then show "length (kv_index s') = length (kv_index s)"
    using coh coh' by (intro same_keys_length) (simp_all add: coherent_def)
qed

lemma compact_locked_swept:
  "compact_locked io now s =
     (case collectLive (sc_read io) 0 (kv_index (compact_swept now s)) (kv_storage s) of
        (Inl st, storage) \<Rightarrow> (Inl st, (compact_swept now s)\<lparr>kv_storage := storage\<rparr>)
      | (Inr liveRecords, storage) \<Rightarrow>
          (case aos_compact (sc_compact io) (sort_key rec_key liveRecords) storage of
             (Inl st, storage) \<Rightarrow> (Inl st, (compact_swept now s)\<lparr>kv_storage := storage\<rparr>)
           | (Inr state, storage) \<Rightarrow>
               (Inr \<lparr>sum_liveKeys = length (comp_index state),
                     sum_oldFileBytes = comp_oldFileBytes state,
                     sum_newFileBytes = comp_newFileBytes state\<rparr>,
                (compact_swept now s)\<lparr>kv_storage := storage, kv_index := comp_index state,
                  kv_cache := lru_clear (kv_cache (compact_swept now s)),
                  kv_compactions := kv_compactions (compact_swept now s) + 1\<rparr>)))"
  by (auto simp: compact_locked_def compactSweep_result compact_swept_def Let_def
      split: sum.splits prod.splits)

text \<open>
  A COMPACT, whatever its calls meet: the data file is the old one or the log of the unexpired
  entries, one SET record each in key order. With \<open>compacted\<close> and \<open>unchanged\<close> the engine stays
  safe; \<open>stranded\<close> is the one way out in which it does not.
\<close>

definition compacted_log :: "i64 \<Rightarrow> KeyValueStore \<Rightarrow> Record list" where
  "compacted_log now s =
     sort_key rec_key (map (live_record (contents (kv_storage s))) (live_entries now (kv_index s)))"

lemma compact_locked_cases:
  assumes "kv_safe s" "live_bytes (kv_index s) < 2 ^ 63" "compact_locked io now s = (res, s')"
  obtains (compacted) summary where "res = Inr summary" "kv_safe s'"
      "kv_bindings s' = drop_expired now (kv_bindings s)"
      "contents (kv_storage s') = log_bytes (compacted_log now s)"
      "sum_liveKeys summary = length (live_entries now (kv_index s))"
      "sum_oldFileBytes summary = of_nat (length (contents (kv_storage s)))"
      "sum_newFileBytes summary = of_nat (length (contents (kv_storage s')))"
      "kv_index s' = compacted_index 0 (compacted_log now s) []"
      "kv_opened s' = kv_opened s" "file_open (kv_storage s')"
  | (unchanged) st where "res = Inl st" "\<not> status_ok st" "kv_safe s'"
      "kv_bindings s' = drop_expired now (kv_bindings s)"
      "contents (kv_storage s') = contents (kv_storage s)" "kv_opened s' = kv_opened s"
      "kv_index s' = live_entries now (kv_index s)"
  | (stranded) st where "res = Inl st" "\<not> status_ok st"
      "contents (kv_storage s') = log_bytes (compacted_log now s)"
      "data_file (disk (kv_storage s')) \<noteq> None"
      "kv_index s' = live_entries now (kv_index s)"
      "cf_rename (sc_compact io) = None" "\<not> file_open (kv_storage s')" "kv_opened s' = kv_opened s"
proof -
  let ?s = "compact_swept now s"
  note sw = compact_swept_ok [OF assms(1), of now]
  have coh: "coherent (kv_storage s) (kv_index ?s) (kv_cache ?s) (kv_values ?s)"
    using kv_safeD [OF sw(1)] sw(4) by simp
  then have ready: "log_ready (kv_storage s)" by (simp add: coherent_def)
  obtain r st1 where cl: "collectLive (sc_read io) 0 (kv_index ?s) (kv_storage s) = (r, st1)" by fastforce
  note cl' = collectLive_cases [OF cl ready]
  have same: "kv_safe (?s\<lparr>kv_storage := st\<rparr>) \<and>
      kv_bindings (?s\<lparr>kv_storage := st\<rparr>) = drop_expired now (kv_bindings s)"
    if "contents st = contents (kv_storage s)" "data_file (disk st) \<noteq> None" for st
    using same_values_safe [of "?s\<lparr>kv_storage := st\<rparr>" ?s] coherent_same_contents [OF coh that] sw(2) by simp
  show ?thesis
  proof (cases r)
    case (Inl e)
    then have s': "res = Inl e" "s' = ?s\<lparr>kv_storage := st1\<rparr>"
      using assms(3) cl by (simp_all add: compact_locked_swept)
    with same [of st1] cl' Inl sw show ?thesis
      by (intro unchanged [of e]) (simp_all add: log_ready_def)
  next
    case (Inr recs)
    then have live: "sort_key rec_key recs = compacted_log now s"
      using cl'(3) sw(3) by (simp add: compacted_log_def)
    have ms: "mset (compacted_log now s) = mset (map (live_record (contents (kv_storage ?s))) (kv_index ?s))"
      by (simp add: compacted_log_def sw)
    have lb: "live_bytes (kv_index ?s) < 2 ^ 63"
      unfolding sw(3) using live_bytes_filter assms(2) by (rule le_less_trans)
    obtain r2 st2 where co: "aos_compact (sc_compact io) (compacted_log now s) st1 = (r2, st2)"
      by fastforce
    note run = assms(3) [unfolded compact_locked_swept cl Inr prod.case sum.case live co]
    have df: "data_file (disk st1) \<noteq> None"
      using cl'(2) by (simp add: log_ready_def)
    from co df show ?thesis
    proof (cases rule: compact_cases)
      case c: compacted
      have s': "kv_storage s' = st2" "kv_index s' = compacted_index 0 (compacted_log now s) []"
        "kv_cache s' = lru_clear (kv_cache ?s)" "kv_opened s' = kv_opened s"
        "res = Inr \<lparr>sum_liveKeys = length (kv_index s'),
           sum_oldFileBytes = of_nat (length (contents (kv_storage s))),
           sum_newFileBytes = of_nat (length (contents st2))\<rparr>"
        using run c cl'(1) sw(5) by auto
      note new = compact_installed [OF sw(1) lb ms, of s', unfolded s'(1), OF c(2,3) s'(2,3)]
      from compacted [OF s'(5) new(1)] show ?thesis
        using new(2,3) s' c(2,4) sw(2,3) by simp
    next
      case u: (untouched st)
      then have "res = Inl st" "s' = ?s\<lparr>kv_storage := st2\<rparr>"
        using run by simp_all
      with u cl'(1) same [of st2] sw show ?thesis by (intro unchanged [of st]) simp_all
    next
      case d: (stranded st)
      then have "res = Inl st" "s' = ?s\<lparr>kv_storage := st2\<rparr>"
        using run by simp_all
      with d sw show ?thesis by (intro stranded [of st]) simp_all
    qed
  qed
qed

lemma kv_compact_opened: "kv_opened s \<Longrightarrow> kv_compact io now s = compact_locked io now s"
  by (simp add: kv_compact_def)

end
