(* ===== verification/Durability.thy ===== *)
theory Durability
  imports StoreInvariant
begin

text \<open>
  What survives the process. \<open>log_of bs rs tail\<close> splits a data file into complete records and a
  torn tail; \<open>log_meaning rs\<close> is the map that the records describe. \<open>durable T s rs\<close> ties a running
  store to its file: the file is the complete log of \<open>rs\<close>, and the index is the one of the log,
  except that it may lack keys that had expired by the time \<open>T\<close> (the latest clock reading). A
  restart of the process then shows the same visible map, and after a failed or interrupted
  operation it shows the map of before or of after that operation.
\<close>

section \<open>Files and their meaning\<close>

definition log_of :: "string \<Rightarrow> Record list \<Rightarrow> string \<Rightarrow> bool" where
  "log_of bs rs tail \<longleftrightarrow>
     bs = log_bytes rs @ tail \<and> (\<forall>r \<in> set rs. validRecord r) \<and> torn_tail tail \<and>
     length bs < 2 ^ 63"

definition log_meaning :: "Record list \<Rightarrow> ttl_map" where
  "log_meaning rs = log_value (log_state 0 rs Map.empty)"

definition index_agrees :: "i64 \<Rightarrow> (string \<rightharpoonup> RecordMetadata) \<Rightarrow> log_map \<Rightarrow> bool" where
  "index_agrees T idx m \<longleftrightarrow>
     (\<forall>k md. idx k = Some md \<longrightarrow> (\<exists>v. m k = Some (md, v))) \<and>
     (\<forall>k md v. idx k = None \<longrightarrow> m k = Some (md, v) \<longrightarrow> isExpired (md_expiresAtMs md) T)"

definition durable :: "i64 \<Rightarrow> KeyValueStore \<Rightarrow> Record list \<Rightarrow> bool" where
  "durable T s rs \<longleftrightarrow>
     data_file (disk (kv_storage s)) \<noteq> None \<and> log_of (contents (kv_storage s)) rs [] \<and>
     index_agrees T (map_of (kv_index s)) (log_state 0 rs Map.empty)"

lemma log_of_unique: "log_of bs rs tail \<Longrightarrow> log_of bs rs' tail' \<Longrightarrow> rs = rs'"
proof -
  assume a: "log_of bs rs tail" and b: "log_of bs rs' tail'"
  obtain r n r' n' where "validRecord r" "n < record_size r" "tail = take n (encodeRecord r)"
    "validRecord r'" "n' < record_size r'" "tail' = take n' (encodeRecord r')"
    using a b unfolding log_of_def torn_tail_def by blast
  with a b records.torn_log_unique [of rs rs' r r' n n'] show ?thesis
    unfolding log_of_def log_bytes_def by simp
qed

lemma log_meaning_append:
  "log_meaning (rs @ [r]) =
     (case rec_op r of
        OpSet \<Rightarrow> (log_meaning rs)(rec_key r \<mapsto> (rec_value r, rec_expiresAtMs r))
      | OpDelete \<Rightarrow> (log_meaning rs)(rec_key r := None))"
  by (auto simp: log_meaning_def log_state_append log_value_def fun_eq_iff split: Operation.splits)

lemma durable_index:
  assumes "durable T s rs"
  shows "map_of (kv_index s) k = Some md \<Longrightarrow> \<exists>v. log_state 0 rs Map.empty k = Some (md, v)"
    "map_of (kv_index s) k = None \<Longrightarrow> log_state 0 rs Map.empty k = Some (md', v') \<Longrightarrow>
      isExpired (md_expiresAtMs md') T"
    "log_of (contents (kv_storage s)) rs []" "data_file (disk (kv_storage s)) \<noteq> None"
  using assms by (auto simp: durable_def index_agrees_def)

lemma durable_binding:
  assumes "durable T s rs"
  shows "kv_bindings s k = log_meaning rs k \<or>
    kv_bindings s k = None \<and> (\<exists>v e. log_meaning rs k = Some (v, e) \<and> isExpired e T)"
proof (cases "map_of (kv_index s) k")
  case None
  with durable_index(2) [OF assms] show ?thesis
    by (cases "log_state 0 rs Map.empty k") (auto simp: kv_bindings_def log_meaning_def log_value_def)
next
  case (Some md)
  then obtain v where "log_state 0 rs Map.empty k = Some (md, v)"
    using durable_index(1) [OF assms] by blast
  moreover from this have "slice (contents (kv_storage s)) md = v"
    using durable_index(3) [OF assms] log_stored [of rs k md v] stored_at_slice(1)
    by (auto simp: log_of_def)
  ultimately show ?thesis
    using Some by (simp add: kv_bindings_def log_meaning_def log_value_def)
qed

text \<open>What a reader sees of a durable store is what the file says.\<close>

lemma durable_visible:
  assumes "durable T s rs" "sint T \<le> sint now"
  shows "visible now (kv_bindings s) = visible now (log_meaning rs)"
proof
  fix k
  show "visible now (kv_bindings s) k = visible now (log_meaning rs) k"
    using durable_binding [OF assms(1), of k] isExpired_mono [OF _ assms(2)]
    by (auto simp: visible_def)
qed

section \<open>Opening a file\<close>

lemma unexpired_SomeD: "unexpired now m k = Some md \<Longrightarrow> \<exists>v. m k = Some (md, v)"
  by (auto simp: unexpired_def split: option.splits prod.splits if_splits)

lemma index_agrees_unexpired: "index_agrees now (unexpired now m) m"
  unfolding index_agrees_def
  using unexpired_SomeD by (auto simp: unexpired_def split: if_splits)

lemma kv_destroy_disk: "kv_destroy s = disk (kv_storage s)"
  by (simp add: kv_destroy_def kv_close_def AppendOnlyStore_close_def Let_def)

definition kv_restart :: "store_open_faults \<Rightarrow> i64 \<Rightarrow> KeyValueStore \<Rightarrow> Status \<times> KeyValueStore" where
  "kv_restart io now s = kv_open io now (KeyValueStore_new (kv_config s) (kv_destroy s))"

lemma kv_open_log:
  assumes "log_of bs rs tail" "data_file fs = Some bs" "0 < sint (cfg_cleanupInterval cfg)"
    and "kv_open no_store_open_faults now (KeyValueStore_new cfg fs) = (st, s)"
  shows "st = Status_success" "kv_opened s" "kv_config s = cfg" "kv_safe s" "durable now s rs"
    "kv_recoveredRecords s = of_nat (length rs)" "kv_truncatedTailBytes s = of_nat (length tail)"
proof -
  let ?st = "\<lparr>dataPath = cfg_dataFile cfg, file_open = True, disk = fs\<rparr>"
  let ?st' = "(set_contents (log_bytes rs) ?st)\<lparr>file_open := True\<rparr>"
  let ?idx = "replay now 0 rs []"
  have log: "bs = log_bytes rs @ tail" "\<forall>r \<in> set rs. validRecord r" "torn_tail tail"
    "length (log_bytes rs @ tail) < 2 ^ 63"
    using assms(1) by (auto simp: log_of_def)
  have op: "aos_open no_open_faults (AppendOnlyStore_new (cfg_dataFile cfg) fs) = (Status_success, ?st)"
    using assms(2) by (simp add: aos_open_def calm_env AppendOnlyStore_new_def)
  have rec: "recover no_recover_faults now ?st =
      (Inr \<lparr>rs_index = ?idx, rs_validRecords = of_nat (length rs),
          rs_truncatedBytes = of_nat (length tail)\<rparr>, ?st')"
    using recover_log [of ?st rs tail now] assms(2) log by simp
  let ?s = "KeyValueStore_new cfg fs"
  let ?s' = "?s\<lparr>kv_storage := ?st', kv_index := ?idx, kv_cache := lru_clear (kv_cache ?s),
      kv_recoveredRecords := of_nat (length rs), kv_truncatedTailBytes := of_nat (length tail),
      kv_stopRequested := False, kv_opened := True\<rparr>"
  have s: "st = Status_success" "s = ?s' \<or> s = ?s'\<lparr>kv_cleaner := True\<rparr>"
    using assms(3,4) op rec
    by (auto simp: kv_open_def KeyValueStore_new_def calm_env Let_def
        split: if_splits)
  then show "st = Status_success" "kv_opened s" "kv_config s = cfg"
    "kv_recoveredRecords s = of_nat (length rs)" "kv_truncatedTailBytes s = of_nat (length tail)"
    by (auto simp: KeyValueStore_new_def)
  have f: "kv_index s = ?idx" "contents (kv_storage s) = log_bytes rs"
    "data_file (disk (kv_storage s)) = Some (log_bytes rs)" "kv_cache s = lru_clear (lru_new (cfg_cacheCapacity cfg))"
    using s(2) by (auto simp: KeyValueStore_new_def contents_def set_contents_def)
  have d: "distinct (map fst ?idx)"
    using distinct_replay [OF log(2)] by simp
  have mo: "map_of ?idx = unexpired now (log_state 0 rs Map.empty)"
    by (rule map_of_replay [OF log(2)]) (simp add: unexpired_def fun_eq_iff)
  have len: "length (log_bytes rs) < 2 ^ 63"
    using log(4) by simp
  show "durable now s rs"
    using log(2) len f(3) unfolding durable_def f(1,2) mo
    by (simp add: log_of_def index_agrees_unexpired)
  let ?t = "\<lambda>k. map_option (slice (log_bytes rs)) (map_of ?idx k)"
  have "stored_at (log_bytes rs) md k (slice (log_bytes rs) md)" if h: "map_of ?idx k = Some md" for k md
  proof -
    obtain v where "log_state 0 rs Map.empty k = Some (md, v)"
      using h unexpired_SomeD unfolding mo by blast
    note st = log_stored [OF log(2) len this]
    from st stored_at_slice(1) [OF st] show ?thesis by simp
  qed
  then have "coherent (kv_storage s) (kv_index s) (kv_cache s) ?t"
    using d len unfolding coherent_def covered_def f log_ready_def log_holds_def
    by (auto simp: lru.clear_coherent lru.inv_clear)
  then show "kv_safe s" by (rule kv_safeI)
qed

text \<open>Restarting a process, cleanly or after a crash, shows what the file says.\<close>

lemma kv_restart_log:
  assumes "log_of (contents (kv_storage s)) rs tail" "data_file (disk (kv_storage s)) \<noteq> None"
    and "0 < sint (cfg_cleanupInterval (kv_config s))"
    and "kv_restart no_store_open_faults now s = (st, s')"
  shows "st = Status_success" "kv_opened s'" "kv_config s' = kv_config s" "kv_safe s'" "durable now s' rs"
    "visible now' (kv_bindings s') = visible now' (log_meaning rs) \<or> sint now' < sint now"
proof -
  have "data_file (kv_destroy s) = Some (contents (kv_storage s))"
    using assms(2) by (auto simp: kv_destroy_disk contents_def)
  note op = kv_open_log [OF assms(1) this assms(3) assms(4) [unfolded kv_restart_def]]
  show "st = Status_success" "kv_opened s'" "kv_config s' = kv_config s" "kv_safe s'" "durable now s' rs"
    by (fact op(1-5))+
  show "visible now' (kv_bindings s') = visible now' (log_meaning rs) \<or> sint now' < sint now"
    using durable_visible [OF op(5), of now'] by linarith
qed

section \<open>The operations and the file\<close>

lemma durable_same:
  assumes "durable T s rs" "contents (kv_storage s') = contents (kv_storage s)"
    "data_file (disk (kv_storage s')) \<noteq> None" "kv_index s' = kv_index s"
  shows "durable T s' rs"
  using assms by (simp add: durable_def)

lemma index_agrees_mono: "index_agrees T idx m \<Longrightarrow> sint T \<le> sint T' \<Longrightarrow> index_agrees T' idx m"
  unfolding index_agrees_def by (blast intro: isExpired_mono)

lemma durable_mono: "durable T s rs \<Longrightarrow> sint T \<le> sint T' \<Longrightarrow> durable T' s rs"
  unfolding durable_def by (blast intro: index_agrees_mono)

lemma index_agrees_drop:
  assumes "index_agrees T idx m"
    and "\<And>k. idx' k = idx k \<or> idx' k = None \<and>
      (\<forall>md. idx k = Some md \<longrightarrow> isExpired (md_expiresAtMs md) T)"
  shows "index_agrees T idx' m"
  unfolding index_agrees_def
proof (intro conjI allI impI)
  fix k md
  assume "idx' k = Some md"
  then show "\<exists>v. m k = Some (md, v)"
    using assms(1) assms(2) [of k] by (auto simp: index_agrees_def)
next
  fix k md v
  assume none: "idx' k = None" and m: "m k = Some (md, v)"
  show "isExpired (md_expiresAtMs md) T"
  proof (cases "idx k")
    case None
    with assms(1) m show ?thesis by (auto simp: index_agrees_def)
  next
    case (Some md')
    with assms(1) obtain v' where "m k = Some (md', v')"
      unfolding index_agrees_def by blast
    with m have "md' = md" by simp
    with assms(2) [of k] Some none show ?thesis by simp
  qed
qed

lemma durable_drop:
  assumes "durable T s rs" "contents (kv_storage s') = contents (kv_storage s)"
    "data_file (disk (kv_storage s')) \<noteq> None"
    and "\<And>k. map_of (kv_index s') k = map_of (kv_index s) k \<or> map_of (kv_index s') k = None \<and>
      (\<forall>md. map_of (kv_index s) k = Some md \<longrightarrow> isExpired (md_expiresAtMs md) T)"
  shows "durable T s' rs"
  using assms index_agrees_drop [OF _ assms(4)] by (simp add: durable_def)

text \<open>An append to a complete log: it is a log again, with the record or with a torn tail.\<close>

lemma append_log:
  assumes "appendRecordLocked io r st = (res, st')" "log_of (contents st) rs []" "validRecord r"
    and "length (contents st) + record_size r < 2 ^ 63"
  obtains (whole) "log_of (contents st') (rs @ [r]) []"
  | (torn) tail where "log_of (contents st') rs tail" "\<exists>e. res = Inl e"
  using assms(1)
proof (cases rule: append_cases)
  case appended
  with assms show ?thesis by (intro whole) (simp add: log_of_def)
next
  case (failed e n)
  show ?thesis
  proof (cases "n < record_size r")
    case True
    with assms(3) have "torn_tail (take n (encodeRecord r))"
      unfolding torn_tail_def by blast
    with failed assms True show ?thesis
      by (intro torn [of "take n (encodeRecord r)"]) (auto simp: log_of_def)
  next
    case False
    with failed(3) assms show ?thesis by (intro whole) (simp add: log_of_def)
  qed
qed

abbreviation set_record :: "string \<Rightarrow> string \<Rightarrow> i64 \<Rightarrow> Record" where
  "set_record k v e \<equiv> \<lparr>rec_op = OpSet, rec_key = k, rec_value = v, rec_expiresAtMs = e\<rparr>"

abbreviation delete_record :: "string \<Rightarrow> Record" where
  "delete_record k \<equiv> \<lparr>rec_op = OpDelete, rec_key = k, rec_value = [], rec_expiresAtMs = 0\<rparr>"

lemma set_checks_InrD:
  assumes "set_checks k v ttl now s = Inr e"
  shows "kv_opened s" "validRecord (set_record k v e)"
  using assms by (auto simp: set_checks_def validateKey_def validateValue_def validRecord_def split: if_splits)

lemma validateKey_ok: "status_ok (validateKey k) \<Longrightarrow> validRecord (delete_record k)"
  by (auto simp: validateKey_def validRecord_def format_constants split: if_splits)

lemma durable_append:
  assumes "durable T s rs" "contents (kv_storage s') = contents (kv_storage s) @ encodeRecord r"
    and "data_file (disk (kv_storage s')) \<noteq> None" "validRecord r"
    and "length (contents (kv_storage s)) + record_size r < 2 ^ 63"
    and "rec_op r = OpSet \<Longrightarrow> kv_index s' =
      AList.update (rec_key r) (record_metadata (of_nat (length (contents (kv_storage s)))) r) (kv_index s)"
    and "rec_op r = OpDelete \<Longrightarrow> kv_index s' = AList.delete (rec_key r) (kv_index s)"
  shows "durable T s' (rs @ [r])"
proof -
  have "contents (kv_storage s) = log_bytes rs"
    using durable_index(3) [OF assms(1)] by (simp add: log_of_def)
  moreover have "index_agrees T (map_of (kv_index s')) (log_state 0 (rs @ [r]) Map.empty)"
    using assms(1,6,7) calculation
    by (cases "rec_op r") (auto simp: durable_def index_agrees_def log_state_append)
  ultimately show ?thesis
    using assms(1-5) by (auto simp: durable_def log_of_def)
qed

lemma durable_append_cases:
  assumes "durable T s rs" "validRecord r" "length (contents (kv_storage s)) + record_size r < 2 ^ 63"
    and "appendRecordLocked io r (kv_storage s) = (res, storage)"
  obtains (appended) "res = Inr (record_metadata (of_nat (length (contents (kv_storage s)))) r)"
      "contents storage = contents (kv_storage s) @ encodeRecord r" "data_file (disk storage) \<noteq> None"
  | (failed) e where "res = Inl e" "\<not> status_ok e" "status_code e \<noteq> NotFound"
      "data_file (disk storage) \<noteq> None"
      "log_of (contents storage) (rs @ [r]) [] \<or> (\<exists>tail. log_of (contents storage) rs tail)"
proof (cases res)
  case (Inl e)
  note log = durable_index(3,4) [OF assms(1)]
  have "status_code e \<in> {IoError, InvalidArgument}"
    using assms(4) unfolding Inl by (rule append_code)
  moreover have "data_file (disk storage) \<noteq> None" "\<not> status_ok e"
    using assms(4) Inl log(2) by (auto elim: append_cases)
  moreover have "log_of (contents storage) (rs @ [r]) [] \<or> (\<exists>tail. log_of (contents storage) rs tail)"
    using assms(4) by (rule append_log [OF _ log(1) assms(2,3)]) blast+
  ultimately show ?thesis using Inl by (intro failed) auto
next
  case (Inr md)
  with assms(4) show ?thesis by (auto elim: append_cases intro: appended)
qed

lemma kv_set_file:
  assumes "durable T s rs" "log_fits k (Some v) (kv_storage s)" "kv_set io now k v ttl s = (st, s')"
  obtains (stored) e where "st = Status_success" "set_checks k v ttl now s = Inr e"
      "durable T s' (rs @ [set_record k v e])"
  | (rejected) "\<not> status_ok st" "s' = s"
  | (uncertain) e where "\<not> status_ok st" "set_checks k v ttl now s = Inr e"
      "data_file (disk (kv_storage s')) \<noteq> None" "kv_config s' = kv_config s"
      "log_of (contents (kv_storage s')) (rs @ [set_record k v e]) [] \<or>
       (\<exists>tail. log_of (contents (kv_storage s')) rs tail)"
proof (cases "set_checks k v ttl now s")
  case (Inl e)
  then have "\<not> status_ok e"
    by (auto simp: set_checks_def validateKey_def validateValue_def split: if_splits option.splits)
  with Inl assms(3) show ?thesis by (intro rejected) (auto simp: kv_set_def)
next
  case (Inr e)
  note ok = set_checks_InrD [OF Inr]
  let ?r = "set_record k v e"
  have room: "length (contents (kv_storage s)) + record_size ?r < 2 ^ 63"
    using assms(2) by (simp add: log_fits_def record_size_def)
  obtain res storage where app: "appendRecordLocked io ?r (kv_storage s) = (res, storage)" by fastforce
  note run = assms(3) [unfolded kv_set_def Inr sum.case set_locked_def appendSet_def app prod.case]
  from assms(1) ok(2) room app show ?thesis
  proof (cases rule: durable_append_cases)
    case (failed e1)
    then have "s' = s\<lparr>kv_storage := storage\<rparr>" "st = e1"
      using run ok(1) by simp_all
    with failed show ?thesis by (intro uncertain [OF _ Inr]) simp_all
  next
    case appended
    then have "s' = s\<lparr>kv_storage := storage,
        kv_index := AList.update k (record_metadata (of_nat (length (contents (kv_storage s)))) ?r) (kv_index s),
        kv_cache := lru_put k v (kv_cache s), kv_setOperations := kv_setOperations s + 1\<rparr>"
      "st = Status_success"
      using run ok(1) by simp_all
    with appended durable_append [OF assms(1), of s' ?r] ok(2) room Inr show ?thesis
      by (intro stored) simp_all
  qed
qed

text \<open>What a DEL does with the state, up to the append of its record.\<close>

lemma kv_remove_paths:
  assumes "kv_remove io now k s = (st, s')"
  obtains (early) "\<not> status_ok st" "s' = s"
  | (expired) md where "map_of (kv_index s) k = Some md" "isExpired (md_expiresAtMs md) now"
      "\<not> status_ok st" "s' = s\<lparr>kv_cache := lru_erase k (kv_cache s),
        kv_index := AList.delete k (kv_index s), kv_expiredKeys := kv_expiredKeys s + 1\<rparr>"
  | (logged) "status_ok (validateKey k)" "(st, s') =
      (case appendDelete io k (kv_storage s) of (appendStatus, storage) \<Rightarrow>
         if \<not> status_ok appendStatus then (appendStatus, s\<lparr>kv_storage := storage\<rparr>)
         else (Status_success, s\<lparr>kv_storage := storage, kv_cache := lru_erase k (kv_cache s),
                 kv_index := AList.delete k (kv_index s),
                 kv_deleteOperations := kv_deleteOperations s + 1\<rparr>))"
proof (cases "status_ok (remove_checks k s)")
  case False
  with assms show ?thesis by (intro early) (auto simp: kv_remove_def)
next
  case True
  then have key: "status_ok (validateKey k)" and run: "remove_locked io now k s = (st, s')"
    using assms by (auto simp: kv_remove_def remove_checks_def split: if_splits)
  show ?thesis
  proof (cases "map_of (kv_index s) k")
    case None
    with run show ?thesis by (intro early) (auto simp: remove_locked_def)
  next
    case (Some md)
    show ?thesis
    proof (cases "isExpired (md_expiresAtMs md) now")
      case True
      with run Some show ?thesis by (intro expired) (auto simp: remove_locked_def)
    next
      case False
      with run Some show ?thesis
        by (intro logged [OF key]) (auto simp: remove_locked_def Let_def split: prod.splits)
    qed
  qed
qed

lemma kv_remove_file:
  assumes "durable T s rs" "log_fits k None (kv_storage s)" "kv_remove io now k s = (st, s')"
    "sint T \<le> sint now"
  obtains (removed) "st = Status_success" "durable now s' (rs @ [delete_record k])"
  | (kept) "\<not> status_ok st" "durable now s' rs"
  | (uncertain) "\<not> status_ok st" "status_code st \<noteq> NotFound"
      "data_file (disk (kv_storage s')) \<noteq> None" "kv_config s' = kv_config s"
      "log_of (contents (kv_storage s')) (rs @ [delete_record k]) [] \<or>
       (\<exists>tail. log_of (contents (kv_storage s')) rs tail)"
proof -
  note dur = durable_mono [OF assms(1,4)]
  from assms(3) show ?thesis
  proof (cases rule: kv_remove_paths)
    case early
    with dur show ?thesis by (intro kept) simp_all
  next
    case expired
    with durable_drop [OF dur, of s'] durable_index(4) [OF assms(1)] show ?thesis by (intro kept) auto
  next
    case logged
    let ?r = "delete_record k"
    note valid = validateKey_ok [OF logged(1)]
    have room: "length (contents (kv_storage s)) + record_size ?r < 2 ^ 63"
      using assms(2) by (simp add: log_fits_def record_size_def)
    obtain res storage where app: "appendRecordLocked io ?r (kv_storage s) = (res, storage)" by fastforce
    note run = logged(2) [unfolded appendDelete_def app prod.case]
    from dur valid room app show ?thesis
    proof (cases rule: durable_append_cases)
      case (failed e)
      then have "s' = s\<lparr>kv_storage := storage\<rparr>" "st = e"
        using run by simp_all
      with failed show ?thesis by (intro uncertain) simp_all
    next
      case appended
      then have "s' = s\<lparr>kv_storage := storage, kv_cache := lru_erase k (kv_cache s),
          kv_index := AList.delete k (kv_index s), kv_deleteOperations := kv_deleteOperations s + 1\<rparr>"
        "st = Status_success"
        using run by simp_all
      with appended durable_append [OF dur, of s' ?r] valid room show ?thesis
        by (intro removed) simp_all
    qed
  qed
qed

section \<open>Operations that do not append\<close>

lemma get_shared_frame:
  assumes "get_shared io now k s = (phase, s')" "data_file (disk (kv_storage s)) \<noteq> None"
  shows "contents (kv_storage s') = contents (kv_storage s)" "data_file (disk (kv_storage s')) \<noteq> None"
    "kv_index s' = kv_index s" "kv_opened s' = kv_opened s" "kv_config s' = kv_config s"
proof -
  note rd = read_cases [OF surjective_pairing, where io = io and s = "kv_storage s"]
  have "contents (kv_storage s') = contents (kv_storage s) \<and> data_file (disk (kv_storage s')) \<noteq> None \<and>
    kv_index s' = kv_index s \<and> kv_opened s' = kv_opened s \<and> kv_config s' = kv_config s"
    using assms(1,2) rd(1,2)
    by (auto simp: get_shared_eq split: option.splits if_splits prod.splits sum.splits)
      (metis snd_conv)+
  then show "contents (kv_storage s') = contents (kv_storage s)" "data_file (disk (kv_storage s')) \<noteq> None"
    "kv_index s' = kv_index s" "kv_opened s' = kv_opened s" "kv_config s' = kv_config s"
    by blast+
qed

lemma kv_get_frame:
  assumes "kv_get io now k s = (res, s')" "data_file (disk (kv_storage s)) \<noteq> None"
  shows "contents (kv_storage s') = contents (kv_storage s)" "data_file (disk (kv_storage s')) \<noteq> None"
    "kv_opened s' = kv_opened s" "kv_config s' = kv_config s"
    "kv_index s' = kv_index s \<or> kv_index s' = AList.delete k (kv_index s) \<and>
       (\<exists>md. map_of (kv_index s) k = Some md \<and> isExpired (md_expiresAtMs md) now)"
proof -
  let ?s = "s\<lparr>kv_getOperations := kv_getOperations s + 1\<rparr>"
  obtain phase s1 where sh: "get_shared io now k ?s = (phase, s1)" by fastforce
  note fr = get_shared_frame [OF sh]
  have "s' = s \<or> s' = s1 \<or> s' = snd (eraseIfExpired k now s1)"
    using assms(1) sh
    by (auto simp: kv_get_def get_checks_def split: if_splits GetPhase.splits)
  then have "contents (kv_storage s') = contents (kv_storage s) \<and> data_file (disk (kv_storage s')) \<noteq> None \<and>
    kv_opened s' = kv_opened s \<and> kv_config s' = kv_config s \<and>
    (kv_index s' = kv_index s \<or> kv_index s' = AList.delete k (kv_index s) \<and>
       (\<exists>md. map_of (kv_index s) k = Some md \<and> isExpired (md_expiresAtMs md) now))"
    using fr assms(2) by (auto simp: eraseIfExpired_def split: option.splits if_splits)
  then show "contents (kv_storage s') = contents (kv_storage s)" "data_file (disk (kv_storage s')) \<noteq> None"
    "kv_opened s' = kv_opened s" "kv_config s' = kv_config s"
    "kv_index s' = kv_index s \<or> kv_index s' = AList.delete k (kv_index s) \<and>
       (\<exists>md. map_of (kv_index s) k = Some md \<and> isExpired (md_expiresAtMs md) now)"
    by blast+
qed

lemma kv_get_durable:
  assumes "durable T s rs" "kv_get io now k s = (res, s')" "sint T \<le> sint now"
  shows "durable now s' rs"
proof -
  note fr = kv_get_frame [OF assms(2) durable_index(4) [OF assms(1)]]
  show ?thesis
    by (rule durable_drop [OF durable_mono [OF assms(1,3)] fr(1,2)]) 
      (use fr(5) in \<open>auto split: if_splits\<close>)
qed

lemma sweep_durable:
  assumes "durable T s rs" "distinct (map fst (kv_index s))" "sint T \<le> sint now"
    and "kv_index s' = live_entries now (kv_index s)"
    and "contents (kv_storage s') = contents (kv_storage s)" "data_file (disk (kv_storage s')) \<noteq> None"
  shows "durable now s' rs"
  by (rule durable_drop [OF durable_mono [OF assms(1,3)] assms(5,6)])
    (auto simp: assms(4) map_of_unexpired [OF assms(2)] split: option.splits)

lemma kv_safe_distinct: "kv_safe s \<Longrightarrow> distinct (map fst (kv_index s))"
  by (simp add: kv_safe_def coherent_def)

section \<open>Compaction\<close>

lemma live_bytes_delete:
  "distinct (map fst idx) \<Longrightarrow> map_of idx k = Some md \<Longrightarrow>
   live_bytes idx = kRecordHeaderSize + length k + unat (md_valueSize md)
     + live_bytes (AList.delete k idx)"
  by (induction idx) (auto simp: live_bytes_def rev_image_eqI)

lemma live_bytes_bound:
  assumes "\<forall>r \<in> set rs. validRecord r" "distinct (map fst idx)"
    and "\<And>k md. map_of idx k = Some md \<Longrightarrow> \<exists>v. log_state 0 rs Map.empty k = Some (md, v)"
  shows "live_bytes idx \<le> length (log_bytes rs)"
  using assms
proof (induction rs arbitrary: idx rule: rev_induct)
  case Nil
  have "map_of idx k = None" for k
    using Nil(3) [of k] by (cases "map_of idx k") simp_all
  then have "map_of idx = Map.empty" by blast
  then show ?case by (simp add: live_bytes_def)
next
  case (snoc r rs)
  let ?idx = "AList.delete (rec_key r) idx"
  have "\<exists>v. log_state 0 rs Map.empty k = Some (md, v)" if h: "map_of ?idx k = Some md" for k md
    using h snoc.prems(3) [of k md]
    by (auto simp: log_state_append split: Operation.splits if_splits)
  then have rest: "live_bytes ?idx \<le> length (log_bytes rs)"
    using snoc.prems(1,2) by (intro snoc.IH) simp_all
  show ?case
  proof (cases "map_of idx (rec_key r)")
    case None
    then have "?idx = idx"
      by (intro delete_id) (simp add: map_of_eq_None_iff)
    with rest show ?thesis by simp
  next
    case (Some md)
    from snoc.prems(3) [OF this] have "\<exists>off. md = record_metadata off r"
      by (auto simp: log_state_append split: Operation.splits)
    then have "unat (md_valueSize md) = length (rec_value r)"
      using validRecord_sizes(2) [of r] snoc.prems(1) by (auto simp: record_metadata_def)
    then show ?thesis
      using live_bytes_delete [OF snoc.prems(2) Some] rest by (simp add: record_size_def)
  qed
qed

lemma durable_live_bytes:
  assumes "durable T s rs" "kv_safe s"
  shows "live_bytes (kv_index s) \<le> length (contents (kv_storage s))"
    "live_bytes (kv_index s) < 2 ^ 63"
proof -
  have log: "log_of (contents (kv_storage s)) rs []"
    by (rule durable_index(3) [OF assms(1)])
  show "live_bytes (kv_index s) \<le> length (contents (kv_storage s))"
    using live_bytes_bound [OF _ kv_safe_distinct [OF assms(2)], of rs] durable_index(1) [OF assms(1)] log
    by (auto simp: log_of_def)
  also have "\<dots> < 2 ^ 63"
    using log unfolding log_of_def by blast
  finally show "live_bytes (kv_index s) < 2 ^ 63" .
qed

text \<open>The compacted log says what the unexpired entries say, and takes their bytes.\<close>

lemma compacted_log_facts:
  assumes "kv_safe s"
  shows "\<forall>r \<in> set (compacted_log now s). validRecord r"
    "length (log_bytes (compacted_log now s)) = live_bytes (live_entries now (kv_index s))"
    "log_meaning (compacted_log now s) = drop_expired now (kv_bindings s)"
    "sorted (map rec_key (compacted_log now s))"
    "distinct (map rec_key (compacted_log now s))"
proof -
  let ?idx = "live_entries now (kv_index s)"
  let ?bs = "contents (kv_storage s)"
  let ?kv = "\<lambda>r. (rec_key r, (rec_value r, rec_expiresAtMs r))"
  note coh = coherent_sweep [OF kv_safeD [OF assms], of now]
  have d: "distinct (map fst ?idx)"
    using coh by (simp add: coherent_def)
  have m: "mset (compacted_log now s) = mset (map (live_record ?bs) ?idx)"
    by (simp add: compacted_log_def)
  then have set: "set (compacted_log now s) = live_record ?bs ` set ?idx"
    by (metis list.set_map set_mset_mset)
  show "\<forall>r \<in> set (compacted_log now s). validRecord r"
    using live_record_size(2) [OF coh] set by auto
  show "length (log_bytes (compacted_log now s)) = live_bytes ?idx"
    by (rule live_bytes_log [OF coh m])
  show "sorted (map rec_key (compacted_log now s))"
    by (simp add: compacted_log_def)
  have "mset (map rec_key (compacted_log now s)) = mset (map fst ?idx)"
    using arg_cong [OF m, of "image_mset rec_key"] by (simp add: image_mset.compositionality o_def)
  then show dk: "distinct (map rec_key (compacted_log now s))"
    using d by (metis mset_eq_imp_distinct_iff)
  have "map_of (map ?kv (compacted_log now s)) = map_of (map ?kv (map (live_record ?bs) ?idx))"
    using dk d set by (subst map_of_inject_set) (simp_all add: o_def image_image)
  moreover have "\<forall>r \<in> set (compacted_log now s). rec_op r = OpSet"
    using set by auto
  ultimately have "log_meaning (compacted_log now s) k =
      map_option (\<lambda>md. (slice ?bs md, md_expiresAtMs md)) (map_of ?idx k)" for k
    using log_value_live [OF _ dk, of 0 Map.empty k] unfolding log_meaning_def
    by (simp add: map_of_live_records log_value_def del: map_map split: option.splits)
  then show "log_meaning (compacted_log now s) = drop_expired now (kv_bindings s)"
    unfolding map_of_unexpired [OF kv_safe_distinct [OF assms]]
    by (simp add: fun_eq_iff drop_expired_def kv_bindings_def split: option.splits)
qed

lemma index_agrees_compacted:
  assumes "\<forall>r \<in> set rs. rec_op r = OpSet"
  shows "index_agrees T (map_of (compacted_index 0 rs [])) (log_state 0 rs Map.empty)"
  using compacted_index_log_state [OF assms, of "[]" Map.empty 0]
  by (simp add: index_agrees_def)

text \<open>
  A COMPACT of a durable store, whatever fails: the store is durable again, except when the engine
  is stranded; in every case the file is a complete log with the meaning of before.
\<close>

lemma kv_compact_file:
  assumes "durable T s rs" "kv_safe s" "kv_opened s" "sint T \<le> sint now"
    and "kv_compact io now s = (res, s')"
  obtains (clean) rs' where "kv_safe s'" "durable now s' rs'"
      "kv_bindings s' = drop_expired now (kv_bindings s)"
      "length (contents (kv_storage s')) \<le> length (contents (kv_storage s))"
      "\<And>now'. sint now \<le> sint now' \<Longrightarrow> visible now' (log_meaning rs') = visible now' (log_meaning rs)"
  | (stranded) rs' st where "res = Inl st" "\<not> status_ok st" "log_of (contents (kv_storage s')) rs' []"
      "data_file (disk (kv_storage s')) \<noteq> None"
      "cf_rename (sc_compact io) = None"
      "\<And>now'. sint now \<le> sint now' \<Longrightarrow> visible now' (log_meaning rs') = visible now' (log_meaning rs)"
proof -
  note lb = durable_live_bytes [OF assms(1,2)]
  note cl = compacted_log_facts [OF assms(2), of now]
  have small: "length (log_bytes (compacted_log now s)) \<le> length (contents (kv_storage s))"
    using live_bytes_filter [of _ "kv_index s"] lb(1) unfolding cl(2) by (rule le_trans)
  also have "\<dots> < 2 ^ 63"
    using durable_index(3) [OF assms(1)] unfolding log_of_def by blast
  finally have log: "log_of (log_bytes (compacted_log now s)) (compacted_log now s) []"
    using cl(1) by (simp add: log_of_def)
  have vis: "visible now' (log_meaning (compacted_log now s)) = visible now' (log_meaning rs)"
    if h: "sint now \<le> sint now'" for now'
    using durable_visible [OF assms(1), of now'] visible_drop_expired [OF h] assms(4) h
    unfolding cl(3) by simp
  from assms(2) lb(2) assms(5) [unfolded kv_compact_opened [OF assms(3)]] show ?thesis
  proof (cases rule: compact_locked_cases)
    case (compacted summary)
    have "\<forall>r \<in> set (compacted_log now s). rec_op r = OpSet"
      by (auto simp: compacted_log_def)
    moreover have "data_file (disk (kv_storage s')) \<noteq> None"
      using kv_safeD [OF compacted(2)] by (simp add: coherent_def log_ready_def)
    ultimately have "durable now s' (compacted_log now s)"
      using log compacted(4,8) index_agrees_compacted by (simp add: durable_def)
    with compacted small vis show ?thesis by (intro clean [of "compacted_log now s"]) simp_all
  next
    case (unchanged st)
    have "data_file (disk (kv_storage s')) \<noteq> None"
      using kv_safeD [OF unchanged(3)] by (simp add: coherent_def log_ready_def)
    then have "durable now s' rs"
      by (rule sweep_durable [OF assms(1) kv_safe_distinct [OF assms(2)] assms(4) unchanged(7,5)])
    with unchanged show ?thesis by (intro clean [of rs]) simp_all
  next
    case lost: (stranded st)
    with log vis show ?thesis by (intro stranded [of st "compacted_log now s"]) simp_all
  qed
qed

end
