(* ===== verification/StoreProgress.thy ===== *)
theory StoreProgress
  imports Durability
begin

text \<open>
  The engine when nothing fails: every operation of an open, safe store then has the result that
  its arguments and the visible map determine. These are the results of the happy path; what a
  failure may do is in \<open>StoreInvariant\<close> and \<open>Durability\<close>.
\<close>

definition bad_key :: "string \<Rightarrow> bool" where
  "bad_key k \<longleftrightarrow> k = [] \<or> kMaximumKeySize < length k"

lemma validateKey_code:
  "status_code (validateKey k) = (if bad_key k then InvalidArgument else Ok)"
  "status_ok (validateKey k) \<longleftrightarrow> \<not> bad_key k"
  by (auto simp: validateKey_def bad_key_def status_ok_def)

text \<open>The verdict of SET on its arguments, and the expiry time that it stores.\<close>

lemma set_checks_result:
  assumes "kv_opened s"
  shows "set_checks k v ttl now s =
    (if bad_key k then Inl (validateKey k)
     else if kMaximumValueSize < length v then Inl (invalidArgument ''value exceeds 16 MiB'')
     else case ttl of None \<Rightarrow> Inr 0
       | Some c \<Rightarrow> if sint c \<le> 0 then Inl (invalidArgument ''TTL must be greater than zero'')
                 else Inr (now + c))"
  using assms by (simp add: set_checks_def validateKey_code validateValue_def split: option.split)

lemma set_checks_code: "kv_opened s \<Longrightarrow> set_checks k v ttl now s = Inl st \<Longrightarrow> status_code st = InvalidArgument"
  by (auto simp: set_checks_result validateKey_code split: if_splits option.splits)

lemma kv_set_no_faults:
  assumes "set_checks k v ttl now s = Inr e" "log_ready (kv_storage s)"
  shows "fst (kv_set no_append_faults now k v ttl s) = Status_success"
proof -
  note ok = set_checks_InrD [OF assms(1)]
  obtain bs where "data_file (disk (kv_storage s)) = Some bs"
    using assms(2) by (auto simp: log_ready_def)
  from append_no_faults [OF ok(2) this] show ?thesis
    using assms(1) ok(1) by (simp add: kv_set_def set_locked_def appendSet_def)
qed

lemma get_shared_no_faults:
  assumes "kv_safe s" "visible now (kv_bindings s) k = Some v"
  shows "fst (get_shared no_value_faults now k s) = GetReturns (Inr v)"
proof -
  have coh: "coherent (kv_storage s) (kv_index s) (kv_cache s) (kv_values s)"
    by (rule kv_safeD [OF assms(1)])
  obtain md where md: "map_of (kv_index s) k = Some md" "\<not> isExpired (md_expiresAtMs md) now"
    and v: "kv_values s k = Some v"
    using assms(2) by (auto simp: visible_kv_bindings split: option.splits if_splits)
  then have "stored_at (contents (kv_storage s)) md k v"
    using coh covered_Some [of "log_holds (kv_storage s)" "map_of (kv_index s)" "kv_values s" k md]
    by (auto simp: coherent_def log_holds_def)
  from read_no_faults [OF this] have rd: "fst (readValue no_value_faults md (kv_storage s)) = Inr v" .
  obtain hit cache where hit: "lru_get k (kv_cache s) = (hit, cache)" by fastforce
  show ?thesis
  proof (cases hit)
    case None
    then show ?thesis
      using md hit rd by (auto simp: get_shared_eq split: prod.splits sum.splits)
  next
    case (Some w)
    then have "w = v" using coherent_hit [OF coh] hit v by simp
    with md hit Some show ?thesis by (simp add: get_shared_eq)
  qed
qed

lemma kv_get_no_faults:
  assumes "kv_safe s" "kv_opened s"
  shows "fst (kv_get no_value_faults now k s) =
    (if bad_key k then Inl (validateKey k)
     else case visible now (kv_bindings s) k of
       Some v \<Rightarrow> Inr v
     | None \<Rightarrow> Inl (notFound (if map_of (kv_index s) k = None then ''key does not exist''
                          else ''key has expired'')))"
proof (cases "bad_key k")
  case True
  then show ?thesis
    using assms(2) by (simp add: kv_get_def get_checks_def validateKey_code)
next
  case False
  let ?s = "s\<lparr>kv_getOperations := kv_getOperations s + 1\<rparr>"
  have checks: "get_checks k s = (Status_success, ?s)"
    using assms(2) False by (simp add: get_checks_def validateKey_code)
  note safe = get_checks_safe [OF assms(1) checks]
  show ?thesis
  proof (cases "visible now (kv_bindings s) k")
    case (Some v)
    with get_shared_no_faults [OF safe(1)] safe(3)
    have "fst (get_shared no_value_faults now k ?s) = GetReturns (Inr v)" by simp
    then have "fst (kv_get no_value_faults now k s) = Inr v"
      using checks by (cases "get_shared no_value_faults now k ?s") (simp add: kv_get_def)
    then show ?thesis using False Some by simp
  next
    case None
    then have "map_of (kv_index s) k = None \<or>
        (\<exists>md. map_of (kv_index s) k = Some md \<and> isExpired (md_expiresAtMs md) now)"
      by (auto simp: visible_kv_bindings kv_values_def split: option.splits if_splits)
    then show ?thesis
      using False checks None by (auto simp: kv_get_def get_shared_eq)
  qed
qed

lemma kv_remove_no_faults:
  assumes "kv_safe s" "kv_opened s"
  shows "status_code (fst (kv_remove no_append_faults now k s)) =
    (if bad_key k then InvalidArgument
     else if visible now (kv_bindings s) k = None then NotFound else Ok)"
proof -
  obtain bs where df: "data_file (disk (kv_storage s)) = Some bs"
    using kv_safeD [OF assms(1)] by (auto simp: coherent_def log_ready_def)
  have del: "fst (appendDelete no_append_faults k (kv_storage s)) = Status_success" if h: "\<not> bad_key k"
    using append_no_faults [OF _ df, of "delete_record k"] validateKey_ok [of k] h
    by (simp add: appendDelete_def validateKey_code)
  show ?thesis
    using assms(2) del
    by (cases "bad_key k") (auto simp: kv_remove_def remove_checks_def remove_locked_def validateKey_code visible_kv_bindings kv_values_def Let_def
        status_ok_def split: option.splits prod.splits)
qed

text \<open>Compaction: all reads succeed, the loop writes every record, the summary is exact.\<close>

lemma collectLive_no_faults:
  assumes "\<And>x. x \<in> set idx \<Longrightarrow> \<exists>v. stored_at (contents st) (snd x) (fst x) v" "log_ready st"
  shows "\<exists>st'. collectLive (\<lambda>_. no_value_faults) i idx st =
    (Inr (map (live_record (contents st)) idx), st')"
  using assms
proof (induction idx arbitrary: i st)
  case Nil
  then show ?case by simp
next
  case (Cons x idx)
  obtain k md where x: "x = (k, md)" by fastforce
  obtain v where v: "stored_at (contents st) md k v"
    using Cons.prems(1) [of x] x by auto
  obtain st1 where rd: "readValue no_value_faults md st = (Inr v, st1)"
    using read_no_faults [OF v] by (metis prod.collapse)
  have "contents st1 = contents st" "log_ready st1"
    using read_cases(1) [OF rd] vlog.read_ready [OF Cons.prems(2), of no_value_faults md] rd by simp_all
  moreover have "slice (contents st) md = v"
    by (rule stored_at_slice(1) [OF v])
  ultimately show ?case
    using Cons.IH [of st1 "Suc i"] Cons.prems(1) x rd by (auto simp: live_record_def)
qed

lemma aos_compact_no_faults:
  assumes "\<forall>r \<in> set live. validRecord r" "data_file (disk s) \<noteq> None"
  shows "\<exists>st s'. aos_compact no_compact_faults live s = (Inr st, s')"
  using assms compactLoop_no_faults [OF assms(1), of 0 "[]" 0 "[]"]
  by (simp add: aos_compact_def calm_env reopenLocked_def Let_def)

lemma kv_compact_no_faults:
  assumes "kv_safe s" "kv_opened s"
  shows "\<exists>summary. fst (kv_compact no_store_compact_faults now s) = Inr summary"
proof -
  let ?idx = "live_entries now (kv_index s)"
  note coh = coherent_sweep [OF kv_safeD [OF assms(1)], of now]
  obtain expired where sweep: "compactSweep now (kv_index s) (kv_cache s) (kv_expiredKeys s) =
      (?idx, sweep_cache now (kv_index s) (kv_cache s), expired)"
    using compactSweep_result by blast
  have "\<exists>v. stored_at (contents (kv_storage s)) (snd x) (fst x) v" if h: "x \<in> set ?idx" for x
    using coh h covered_Some [of "log_holds (kv_storage s)" "map_of ?idx" _ "fst x" "snd x"]
    by (fastforce simp: coherent_def log_holds_def simp del: set_filter)
  moreover have ready: "log_ready (kv_storage s)"
    using coh by (simp add: coherent_def)
  ultimately obtain st1 where cl: "collectLive (\<lambda>_. no_value_faults) 0 ?idx (kv_storage s) =
      (Inr (map (live_record (contents (kv_storage s))) ?idx), st1)"
    using collectLive_no_faults by blast
  have "data_file (disk st1) \<noteq> None"
    using collectLive_cases(2) [OF cl ready] by (simp add: log_ready_def)
  moreover have "\<forall>r \<in> set (compacted_log now s). validRecord r"
    by (rule compacted_log_facts(1) [OF assms(1)])
  ultimately obtain state st2 where "aos_compact no_compact_faults (compacted_log now s) st1 = (Inr state, st2)"
    using aos_compact_no_faults by blast
  with assms(2) sweep cl show ?thesis
    by (simp add: kv_compact_def compact_locked_def calm_env Let_def compacted_log_def)
qed

end
