(* ===== verification/CommandParser.thy ===== *)
theory CommandParser
  imports Results Records
begin

text \<open>
  \<^verbatim>\<open>include/minikv/CommandParser.h\<close> and \<^verbatim>\<open>src/CommandParser.cpp\<close>: the command language of the
  shell. The tokenizer is the character loop of \<^verbatim>\<open>tokenize\<close> with its five local variables as
  state; \<^verbatim>\<open>parse\<close> is the chain of tests on the upper-cased first token, in the code's order.

  From the standard library: \<^verbatim>\<open>std::isspace\<close> and \<^verbatim>\<open>std::toupper\<close> in the C locale, and
  \<^verbatim>\<open>std::from_chars\<close> in base 10, which reads the longest run of digits (after a minus sign for a
  signed type) and reports a value that the type cannot hold.
\<close>

section \<open>Library functions\<close>

definition is_space :: "char \<Rightarrow> bool" where
  "is_space c \<longleftrightarrow> c = CHR '' '' \<or> 9 \<le> (of_char c :: nat) \<and> (of_char c :: nat) \<le> 13"

definition to_upper :: "char \<Rightarrow> char" where
  "to_upper c =
     (if 97 \<le> (of_char c :: nat) \<and> (of_char c :: nat) \<le> 122 then char_of (of_char c - (32 :: nat)) else c)"

definition is_digit :: "char \<Rightarrow> bool" where
  "is_digit c \<longleftrightarrow> 48 \<le> (of_char c :: nat) \<and> (of_char c :: nat) \<le> 57"

definition digit_value :: "char \<Rightarrow> int" where
  "digit_value c = int (of_char c) - 48"

definition digits_value :: "string \<Rightarrow> int" where
  "digits_value ds = foldl (\<lambda>n c. 10 * n + digit_value c) 0 ds"

datatype FromChars = FcInvalid | FcRange | FcOk int string

text \<open>\<^verbatim>\<open>FcOk n rest\<close>: the value and the text after \<^verbatim>\<open>result.ptr\<close>.\<close>

definition from_chars :: "int \<Rightarrow> int \<Rightarrow> string \<Rightarrow> FromChars" where
  "from_chars low high text =
     (let negative = low < 0 \<and> text \<noteq> [] \<and> hd text = CHR ''-'';
          body = (if negative then tl text else text);
          digits = takeWhile is_digit body;
          value = (if negative then - digits_value digits else digits_value digits)
      in if digits = [] then FcInvalid
         else if value < low \<or> high < value then FcRange
         else FcOk value (dropWhile is_digit body))"

definition from_chars_i64 :: "string \<Rightarrow> FromChars" where
  "from_chars_i64 = from_chars (- (2 ^ 63)) (2 ^ 63 - 1)"

definition from_chars_u64 :: "string \<Rightarrow> FromChars" where
  "from_chars_u64 = from_chars 0 (2 ^ 64 - 1)"

section \<open>The helpers of the parser\<close>

definition uppercase :: "string \<Rightarrow> string" where
  "uppercase text = map to_upper text"

definition parseTtl :: "string \<Rightarrow> i64 outcome" where
  "parseTtl text =
     (case from_chars_i64 text of
        FcOk seconds rest \<Rightarrow>
          if rest \<noteq> [] \<or> seconds \<le> 0
          then Inl (invalidArgument ''TTL must be a positive integer number of seconds'')
          else if seconds > (2 ^ 63 - 1) div 1000
          then Inl (invalidArgument ''TTL is too large'')
          else Inr (of_int (seconds * 1000))
      | _ \<Rightarrow> Inl (invalidArgument ''TTL must be a positive integer number of seconds''))"

definition requireSize :: "string list \<Rightarrow> nat \<Rightarrow> string \<Rightarrow> Status" where
  "requireSize tokens expected usage =
     (if length tokens \<noteq> expected then invalidArgument (''usage: '' @ usage) else Status_success)"

section \<open>Tokenizer\<close>

record TokenState =
  tk_tokens :: "string list"
  tk_current :: string
  tk_inQuotes :: bool
  tk_escaping :: bool
  tk_started :: bool

definition tk_start :: TokenState where
  "tk_start = \<lparr>tk_tokens = [], tk_current = [], tk_inQuotes = False, tk_escaping = False,
     tk_started = False\<rparr>"

definition tk_push :: "char \<Rightarrow> TokenState \<Rightarrow> TokenState" where
  "tk_push c s = s\<lparr>tk_current := tk_current s @ [c]\<rparr>"

definition tk_finish :: "TokenState \<Rightarrow> TokenState" where
  "tk_finish s = s\<lparr>tk_tokens := tk_tokens s @ [tk_current s], tk_current := [], tk_started := False\<rparr>"

text \<open>One round of the loop.\<close>

definition tokenize_char :: "char \<Rightarrow> TokenState \<Rightarrow> TokenState outcome" where
  "tokenize_char c s =
     (if tk_escaping s then
        (let pushed = (if c = CHR ''n'' then Some (char_of (10 :: nat))
                       else if c = CHR ''t'' then Some (char_of (9 :: nat))
                       else if c = CHR 0x22 \<or> c = CHR 0x5C then Some c
                       else None)
         in case pushed of
              None \<Rightarrow> Inl (invalidArgument ''unsupported escape sequence'')
            | Some d \<Rightarrow> Inr ((tk_push d s)\<lparr>tk_escaping := False, tk_started := True\<rparr>))
      else if tk_inQuotes s \<and> c = CHR 0x5C then Inr (s\<lparr>tk_escaping := True\<rparr>)
      else if c = CHR 0x22 then Inr (s\<lparr>tk_inQuotes := \<not> tk_inQuotes s, tk_started := True\<rparr>)
      else if \<not> tk_inQuotes s \<and> is_space c then
        (if tk_started s then Inr (tk_finish s) else Inr s)
      else Inr ((tk_push c s)\<lparr>tk_started := True\<rparr>))"

fun tokenize_loop :: "string \<Rightarrow> TokenState \<Rightarrow> TokenState outcome" where
  "tokenize_loop [] s = Inr s"
| "tokenize_loop (c # cs) s =
     (case tokenize_char c s of Inl st \<Rightarrow> Inl st | Inr s \<Rightarrow> tokenize_loop cs s)"

definition tokenize :: "string \<Rightarrow> string list outcome" where
  "tokenize input =
     (case tokenize_loop input tk_start of
        Inl st \<Rightarrow> Inl st
      | Inr s \<Rightarrow>
          if tk_escaping s then Inl (invalidArgument ''unfinished escape sequence'')
          else if tk_inQuotes s then Inl (invalidArgument ''missing closing quote'')
          else Inr (if tk_started s then tk_tokens s @ [tk_current s] else tk_tokens s))"

section \<open>Commands\<close>

datatype CommandType =
  CmdSet | CmdGet | CmdDelete | CmdExists | CmdKeys | CmdStats | CmdCompact | CmdHelp | CmdExit

record Command =
  cmd_type :: CommandType
  cmd_key :: string
  cmd_value :: string
  cmd_ttl :: "i64 option"

definition Command_default :: Command where
  "Command_default = \<lparr>cmd_type = CmdHelp, cmd_key = [], cmd_value = [], cmd_ttl = None\<rparr>"

definition parse_set :: "string list \<Rightarrow> Command outcome" where
  "parse_set tokens =
     (let usage = invalidArgument ''usage: SET key value [TTL seconds]'' in
      if length tokens \<noteq> 3 \<and> length tokens \<noteq> 5 then Inl usage
      else
        let command = Command_default\<lparr>cmd_type := CmdSet, cmd_key := tokens ! 1,
                                      cmd_value := tokens ! 2\<rparr> in
        if length tokens = 5 then
          if uppercase (tokens ! 3) \<noteq> ''TTL'' then Inl usage
          else case parseTtl (tokens ! 4) of
            Inl st \<Rightarrow> Inl st
          | Inr ttl \<Rightarrow> Inr (command\<lparr>cmd_ttl := Some ttl\<rparr>)
        else Inr command)"

text \<open>A command with a fixed number of tokens, and a key if it has two.\<close>

definition parse_fixed :: "CommandType \<Rightarrow> nat \<Rightarrow> string \<Rightarrow> string list \<Rightarrow> Command outcome" where
  "parse_fixed type expected usage tokens =
     (let sizeStatus = requireSize tokens expected usage in
      if \<not> status_ok sizeStatus then Inl sizeStatus
      else Inr (Command_default\<lparr>cmd_type := type,
                  cmd_key := (if expected = 2 then tokens ! 1 else [])\<rparr>))"

definition parse_keys :: "string list \<Rightarrow> Command outcome" where
  "parse_keys tokens =
     (if length tokens > 2 then Inl (invalidArgument ''usage: KEYS [prefix]'')
      else Inr (Command_default\<lparr>cmd_type := CmdKeys,
                  cmd_key := (if length tokens = 2 then tokens ! 1 else [])\<rparr>))"

definition parse :: "string \<Rightarrow> Command outcome" where
  "parse input =
     (case tokenize input of
        Inl st \<Rightarrow> Inl st
      | Inr [] \<Rightarrow> Inl (invalidArgument ''command is empty'')
      | Inr (front # rest) \<Rightarrow>
          (let tokens = front # rest; name = uppercase front in
           if name = ''SET'' then parse_set tokens
           else if name = ''GET'' then parse_fixed CmdGet 2 ''GET key'' tokens
           else if name = ''DEL'' \<or> name = ''DELETE'' then parse_fixed CmdDelete 2 ''DEL key'' tokens
           else if name = ''EXISTS'' then parse_fixed CmdExists 2 ''EXISTS key'' tokens
           else if name = ''KEYS'' then parse_keys tokens
           else if name = ''STATS'' then parse_fixed CmdStats 1 ''STATS'' tokens
           else if name = ''COMPACT'' then parse_fixed CmdCompact 1 ''COMPACT'' tokens
           else if name = ''HELP'' then parse_fixed CmdHelp 1 ''HELP'' tokens
           else if name = ''EXIT'' \<or> name = ''QUIT'' then parse_fixed CmdExit 1 ''EXIT'' tokens
           else Inl (invalidArgument (''unknown command: '' @ front))))"

section \<open>Printing tokens\<close>

definition plain_token :: "string \<Rightarrow> bool" where
  "plain_token t \<longleftrightarrow> t \<noteq> [] \<and> (\<forall>c \<in> set t. \<not> is_space c \<and> c \<noteq> CHR 0x22)"

definition escape_char :: "char \<Rightarrow> string" where
  "escape_char c = (if c = CHR 0x22 \<or> c = CHR 0x5C then [CHR 0x5C, c] else [c])"

definition quote_token :: "string \<Rightarrow> string" where
  "quote_token t = CHR 0x22 # concat (map escape_char t) @ [CHR 0x22]"

definition print_token :: "string \<Rightarrow> string" where
  "print_token t = (if plain_token t then t else quote_token t)"

fun print_tokens :: "string list \<Rightarrow> string" where
  "print_tokens [] = []"
| "print_tokens [t] = print_token t"
| "print_tokens (t # ts) = print_token t @ CHR '' '' # print_tokens ts"

lemma tokenize_loop_append:
  "tokenize_loop (xs @ ys) s =
     (case tokenize_loop xs s of Inl st \<Rightarrow> Inl st | Inr s \<Rightarrow> tokenize_loop ys s)"
  by (induction xs arbitrary: s) (auto split: sum.splits)

lemma tokenize_loop_plain:
  assumes "\<forall>c \<in> set t. \<not> is_space c \<and> c \<noteq> CHR 0x22" "\<not> tk_escaping s" "\<not> tk_inQuotes s"
  shows "tokenize_loop t s =
    Inr (s\<lparr>tk_current := tk_current s @ t, tk_started := (tk_started s \<or> t \<noteq> [])\<rparr>)"
  using assms
proof (induction t arbitrary: s)
  case Nil
  then show ?case by simp
next
  case (Cons c t)
  then show ?case by (auto simp: tokenize_char_def tk_push_def)
qed

lemma tokenize_escape:
  assumes "\<not> tk_escaping s" "tk_inQuotes s" "tk_started s"
  shows "tokenize_loop (escape_char c) s = Inr (s\<lparr>tk_current := tk_current s @ [c]\<rparr>)"
  using assms by (auto simp: escape_char_def tokenize_char_def tk_push_def)

lemma tokenize_loop_quoted:
  assumes "\<not> tk_escaping s" "tk_inQuotes s" "tk_started s"
  shows "tokenize_loop (concat (map escape_char t)) s = Inr (s\<lparr>tk_current := tk_current s @ t\<rparr>)"
  using assms
proof (induction t arbitrary: s)
  case Nil
  then show ?case by simp
next
  case (Cons c t)
  then show ?case by (simp add: tokenize_loop_append tokenize_escape)
qed

definition between_tokens :: "string list \<Rightarrow> TokenState" where
  "between_tokens ts = tk_start\<lparr>tk_tokens := ts\<rparr>"

definition after_token :: "string list \<Rightarrow> string \<Rightarrow> TokenState" where
  "after_token ts t = tk_start\<lparr>tk_tokens := ts, tk_current := t, tk_started := True\<rparr>"

lemma tokenize_print_token:
  "tokenize_loop (print_token t) (between_tokens ts) = Inr (after_token ts t)"
proof (cases "plain_token t")
  case True
  then show ?thesis
    by (simp add: print_token_def plain_token_def tokenize_loop_plain between_tokens_def
        after_token_def tk_start_def)
next
  case False
  let ?s = "tk_start\<lparr>tk_tokens := ts, tk_inQuotes := True, tk_started := True\<rparr>"
  have "tokenize_char (CHR 0x22) (between_tokens ts) = Inr ?s"
    by (simp add: tokenize_char_def between_tokens_def tk_start_def)
  moreover have "tokenize_loop (concat (map escape_char t)) ?s = Inr (?s\<lparr>tk_current := t\<rparr>)"
    by (subst tokenize_loop_quoted) (simp_all add: tk_start_def)
  ultimately show ?thesis
    using False
    by (simp add: print_token_def quote_token_def tokenize_loop_append tokenize_char_def
        after_token_def tk_start_def)
qed

lemma tokenize_separator:
  "is_space c \<Longrightarrow> tokenize_char c (after_token ts t) = Inr (between_tokens (ts @ [t]))"
  by (auto simp: tokenize_char_def after_token_def between_tokens_def tk_start_def tk_finish_def
      is_space_def)

lemma is_space_blank: "is_space CHR '' ''"
  by (simp add: is_space_def)

lemma tokenize_print_loop:
  "tokenize_loop (print_tokens (t # us)) (between_tokens ts) =
     Inr (after_token (ts @ butlast (t # us)) (last (t # us)))"
proof (induction us arbitrary: t ts)
  case Nil
  then show ?case by (simp add: tokenize_print_token)
next
  case (Cons u us)
  then show ?case
    by (simp add: tokenize_loop_append tokenize_print_token tokenize_separator [OF is_space_blank])
qed

lemma tokenize_print: "tokenize (print_tokens ts) = Inr ts"
proof (cases ts)
  case Nil
  then show ?thesis by (simp add: tokenize_def tk_start_def)
next
  case (Cons t us)
  have start: "between_tokens [] = tk_start"
    by (simp add: between_tokens_def tk_start_def)
  show ?thesis
    using tokenize_print_loop [of t us "[]", unfolded start] unfolding Cons
    by (simp add: tokenize_def after_token_def tk_start_def)
qed

section \<open>Numbers\<close>

lemma of_char_digit: "d < 10 \<Longrightarrow> (of_char (digit_char d) :: nat) = 48 + d"
  by (simp add: digit_char_def)

lemma is_digit_digit_char: "d < 10 \<Longrightarrow> is_digit (digit_char d)"
  by (simp add: is_digit_def of_char_digit)

lemma digit_value_digit_char: "d < 10 \<Longrightarrow> digit_value (digit_char d) = int d"
proof -
  assume "d < 10"
  then have "int (of_char (digit_char d)) = int (48 + d)"
    by (simp only: of_char_digit)
  then show ?thesis
    by (simp add: digit_value_def)
qed

lemma digits_value_snoc: "digits_value (ds @ [c]) = 10 * digits_value ds + digit_value c"
  by (simp add: digits_value_def)

lemma to_string_digits: "(\<forall>c \<in> set (to_string n). is_digit c) \<and> digits_value (to_string n) = int n"
proof (induction n rule: to_string.induct)
  case (1 n)
  show ?case
  proof (cases "n < 10")
    case True
    then have "to_string n = [digit_char n]" by (subst to_string.simps) simp
    with True show ?thesis
      using digits_value_snoc [of "[]" "digit_char n"]
      by (simp add: is_digit_digit_char digit_value_digit_char digits_value_def)
  next
    case False
    then have "to_string n = to_string (n div 10) @ [digit_char (n mod 10)]"
      by (subst to_string.simps) simp
    with 1 [OF False] show ?thesis
      by (auto simp: is_digit_digit_char digit_value_digit_char digits_value_snoc zdiv_int zmod_int)
  qed
qed

lemma minus_not_digit: "\<not> is_digit CHR ''-''"
  by (simp add: is_digit_def)

lemma from_chars_to_string:
  assumes "low \<le> 0" "int n \<le> high"
  shows "from_chars low high (to_string n) = FcOk (int n) []"
proof -
  have d: "\<forall>c \<in> set (to_string n). is_digit c" "digits_value (to_string n) = int n"
    using to_string_digits by blast+
  then have tw: "takeWhile is_digit (to_string n) = to_string n" "dropWhile is_digit (to_string n) = []"
    by (simp_all add: takeWhile_eq_all_conv dropWhile_eq_Nil_conv)
  moreover have "hd (to_string n) \<noteq> CHR ''-''"
    using d(1) minus_not_digit by (metis hd_in_set to_string_not_Nil)
  ultimately show ?thesis
    using assms d(2) by (simp add: from_chars_def Let_def tw)
qed

lemma sint_of_int_small: "0 \<le> n \<Longrightarrow> n < 2 ^ 63 \<Longrightarrow> sint (of_int n :: i64) = n"
  by (transfer, rule signed_take_bit_int_eq_self) simp_all

lemma parseTtl_InrD:
  assumes "parseTtl text = Inr t"
  obtains n where "0 < n" "n \<le> (2 ^ 63 - 1) div 1000" "t = of_int (n * 1000)" "sint t = n * 1000"
    "from_chars_i64 text = FcOk n []"
proof -
  obtain n where n: "from_chars_i64 text = FcOk n []" "0 < n" "n \<le> (2 ^ 63 - 1) div 1000"
    "t = of_int (n * 1000)"
    using assms by (auto simp: parseTtl_def split: FromChars.splits if_splits)
  moreover have "sint (of_int (n * 1000) :: i64) = n * 1000"
    using n(2,3) by (intro sint_of_int_small) simp_all
  ultimately show ?thesis using that by simp
qed

lemma parseTtl_to_string:
  assumes "0 < n" "int n \<le> (2 ^ 63 - 1) div 1000"
  shows "parseTtl (to_string n) = Inr (of_int (int n * 1000))"
proof -
  have "from_chars_i64 (to_string n) = FcOk (int n) []"
    unfolding from_chars_i64_def using assms by (intro from_chars_to_string) simp_all
  then show ?thesis
    using assms by (simp add: parseTtl_def)
qed

section \<open>Printing commands\<close>

text \<open>
  The commands that the language can express: only a SET has a value or a TTL, only the commands
  on keys have a key, and a TTL is a whole, positive number of seconds that fits.
\<close>

definition ttl_seconds :: "i64 option \<Rightarrow> bool" where
  "ttl_seconds ttl \<longleftrightarrow>
     (case ttl of None \<Rightarrow> True
      | Some t \<Rightarrow> 0 < sint t \<and> sint t mod 1000 = 0)"

definition canonical :: "Command \<Rightarrow> bool" where
  "canonical c \<longleftrightarrow>
     (cmd_type c \<noteq> CmdSet \<longrightarrow> cmd_value c = [] \<and> cmd_ttl c = None) \<and>
     (cmd_type c \<in> {CmdStats, CmdCompact, CmdHelp, CmdExit} \<longrightarrow> cmd_key c = []) \<and>
     ttl_seconds (cmd_ttl c)"

fun command_name :: "CommandType \<Rightarrow> string" where
  "command_name CmdSet = ''SET''"
| "command_name CmdGet = ''GET''"
| "command_name CmdDelete = ''DEL''"
| "command_name CmdExists = ''EXISTS''"
| "command_name CmdKeys = ''KEYS''"
| "command_name CmdStats = ''STATS''"
| "command_name CmdCompact = ''COMPACT''"
| "command_name CmdHelp = ''HELP''"
| "command_name CmdExit = ''EXIT''"

definition command_tokens :: "Command \<Rightarrow> string list" where
  "command_tokens c =
     (case cmd_type c of
        CmdSet \<Rightarrow> [''SET'', cmd_key c, cmd_value c] @
          (case cmd_ttl c of None \<Rightarrow> [] | Some t \<Rightarrow> [''TTL'', to_string (nat (sint t) div 1000)])
      | CmdGet \<Rightarrow> [''GET'', cmd_key c]
      | CmdDelete \<Rightarrow> [''DEL'', cmd_key c]
      | CmdExists \<Rightarrow> [''EXISTS'', cmd_key c]
      | CmdKeys \<Rightarrow> [''KEYS'', cmd_key c]
      | t \<Rightarrow> [command_name t])"

definition print_command :: "Command \<Rightarrow> string" where
  "print_command c = print_tokens (command_tokens c)"

lemma uppercase_names:
  "uppercase ''SET'' = ''SET''" "uppercase ''GET'' = ''GET''" "uppercase ''DEL'' = ''DEL''"
  "uppercase ''EXISTS'' = ''EXISTS''" "uppercase ''KEYS'' = ''KEYS''" "uppercase ''STATS'' = ''STATS''"
  "uppercase ''COMPACT'' = ''COMPACT''" "uppercase ''HELP'' = ''HELP''" "uppercase ''EXIT'' = ''EXIT''"
  "uppercase ''TTL'' = ''TTL''"
  by (simp_all add: uppercase_def to_upper_def)

lemma sint_bounds: "sint (t :: i64) < 2 ^ 63"
  using sint_lt [of t] by simp

lemma ttl_round_trip:
  assumes "ttl_seconds (Some t)"
  shows "parseTtl (to_string (nat (sint t) div 1000)) = Inr t"
proof -
  let ?n = "nat (sint t) div 1000"
  have t: "0 < sint t" "sint t mod 1000 = 0" "sint t < 2 ^ 63"
    using assms sint_bounds by (simp_all add: ttl_seconds_def)
  have n: "int ?n = sint t div 1000" using t(1) by (simp add: zdiv_int)
  then have n1000: "int ?n * 1000 = sint t"
    using div_mult_mod_eq [of "sint t" 1000] unfolding t(2) by linarith
  have "0 < ?n" using n1000 t(1) by linarith
  moreover have "int ?n \<le> (2 ^ 63 - 1) div 1000" using n1000 t(3) by simp
  ultimately show ?thesis
    using parseTtl_to_string [of ?n] unfolding n1000 by simp
qed

declare print_tokens.simps [simp del]

lemma parse_named:
  "parse (print_tokens (''SET'' # ts)) = parse_set (''SET'' # ts)"
  "parse (print_tokens (''GET'' # ts)) = parse_fixed CmdGet 2 ''GET key'' (''GET'' # ts)"
  "parse (print_tokens (''DEL'' # ts)) = parse_fixed CmdDelete 2 ''DEL key'' (''DEL'' # ts)"
  "parse (print_tokens (''EXISTS'' # ts)) = parse_fixed CmdExists 2 ''EXISTS key'' (''EXISTS'' # ts)"
  "parse (print_tokens (''KEYS'' # ts)) = parse_keys (''KEYS'' # ts)"
  "parse (print_tokens (''STATS'' # ts)) = parse_fixed CmdStats 1 ''STATS'' (''STATS'' # ts)"
  "parse (print_tokens (''COMPACT'' # ts)) = parse_fixed CmdCompact 1 ''COMPACT'' (''COMPACT'' # ts)"
  "parse (print_tokens (''HELP'' # ts)) = parse_fixed CmdHelp 1 ''HELP'' (''HELP'' # ts)"
  "parse (print_tokens (''EXIT'' # ts)) = parse_fixed CmdExit 1 ''EXIT'' (''EXIT'' # ts)"
  unfolding parse_def tokenize_print sum.case list.case Let_def uppercase_names by simp_all

lemma parse_set_tokens:
  "parse_set [''SET'', k, v] = Inr \<lparr>cmd_type = CmdSet, cmd_key = k, cmd_value = v, cmd_ttl = None\<rparr>"
  "parseTtl n = Inr t \<Longrightarrow> parse_set [''SET'', k, v, ''TTL'', n] =
     Inr \<lparr>cmd_type = CmdSet, cmd_key = k, cmd_value = v, cmd_ttl = Some t\<rparr>"
  by (simp_all add: parse_set_def Command_default_def uppercase_names numeral_nat)

lemma parse_fixed_tokens:
  "parse_fixed type 2 usage [n, k] =
     Inr \<lparr>cmd_type = type, cmd_key = k, cmd_value = [], cmd_ttl = None\<rparr>"
  "parse_fixed type 1 usage [n] =
     Inr \<lparr>cmd_type = type, cmd_key = [], cmd_value = [], cmd_ttl = None\<rparr>"
  "parse_keys [n, k] = Inr \<lparr>cmd_type = CmdKeys, cmd_key = k, cmd_value = [], cmd_ttl = None\<rparr>"
  by (simp_all add: parse_fixed_def parse_keys_def requireSize_def Command_default_def)

lemma parse_print_command:
  assumes "canonical c"
  shows "parse (print_command c) = Inr c"
proof -
  obtain type k v ttl where c:
    "c = \<lparr>cmd_type = type, cmd_key = k, cmd_value = v, cmd_ttl = ttl\<rparr>" by (cases c)
  have ttl: "parseTtl (to_string (nat (sint t) div 1000)) = Inr t" if h: "ttl = Some t" for t
    using assms c h by (intro ttl_round_trip) (simp add: canonical_def)
  show ?thesis
    using assms unfolding c print_command_def command_tokens_def
    by (cases type; cases ttl)
      (simp_all add: parse_named parse_set_tokens parse_fixed_tokens ttl canonical_def
        del: One_nat_def)
qed

section \<open>What the parser returns\<close>

lemma tokenize_char_code: "tokenize_char c s = Inl st \<Longrightarrow> status_code st = InvalidArgument"
  by (auto simp: tokenize_char_def Let_def split: if_splits option.splits)

lemma tokenize_loop_code: "tokenize_loop cs s = Inl st \<Longrightarrow> status_code st = InvalidArgument"
  by (induction cs arbitrary: s) (auto split: sum.splits dest: tokenize_char_code)

lemma tokenize_code: "tokenize line = Inl st \<Longrightarrow> status_code st = InvalidArgument"
  by (auto simp: tokenize_def split: sum.splits if_splits dest: tokenize_loop_code)

lemma parseTtl_code: "parseTtl text = Inl st \<Longrightarrow> status_code st = InvalidArgument"
  by (auto simp: parseTtl_def split: FromChars.splits if_splits)

lemma parse_set_code: "parse_set ts = Inl st \<Longrightarrow> status_code st = InvalidArgument"
  by (auto simp: parse_set_def Let_def split: if_splits sum.splits dest: parseTtl_code)

lemma parse_fixed_code: "parse_fixed t n usage ts = Inl st \<Longrightarrow> status_code st = InvalidArgument"
  by (auto simp: parse_fixed_def requireSize_def Let_def split: if_splits)

lemma parse_keys_code: "parse_keys ts = Inl st \<Longrightarrow> status_code st = InvalidArgument"
  by (auto simp: parse_keys_def split: if_splits)

lemma parse_code: "parse line = Inl st \<Longrightarrow> status_code st = InvalidArgument"
  by (auto simp: parse_def Let_def split: sum.splits list.splits if_splits
      dest: tokenize_code parse_set_code parse_fixed_code parse_keys_code)

lemma parse_set_canonical: "parse_set ts = Inr c \<Longrightarrow> canonical c"
  by (auto simp: parse_set_def Let_def canonical_def ttl_seconds_def Command_default_def
      split: if_splits sum.splits elim!: parseTtl_InrD)

lemma parse_canonical: "parse line = Inr c \<Longrightarrow> canonical c"
  by (auto simp: parse_def Let_def parse_fixed_def parse_keys_def Command_default_def canonical_def
      ttl_seconds_def split: sum.splits list.splits if_splits dest: parse_set_canonical)

end
