(* ===== verification/Hazards.thy ===== *)
theory Hazards
  imports StoreProgress CommandParser
begin

text \<open>
  Where the code falls short of what it means to do: an append after a torn append (the file is
  refused, or the acknowledged record is cut off), a compaction that fails after it has replaced
  the file (reads go to the old positions in the new file), a short read during recovery (valid
  records are cut off), and a TTL whose sum with the clock leaves the range of \<^verbatim>\<open>int64_t\<close> (the key
  never expires).
\<close>

section \<open>An append after a torn append\<close>

text \<open>
  The write of \<open>r\<close> stops after \<open>n\<close> bytes and fails. Nothing removes the fragment, so the next
  append, of \<open>r'\<close>, goes behind it. When the header of \<open>r\<close> is complete, a scan takes the bytes of
  \<open>r'\<close> for the missing part of the payload of \<open>r\<close>.
\<close>

definition torn_payload :: "nat \<Rightarrow> Record \<Rightarrow> Record \<Rightarrow> string" where
  "torn_payload n r r' = take (length (rec_key r) + length (rec_value r))
     (drop kRecordHeaderSize (take n (encodeRecord r) @ encodeRecord r'))"

lemma torn_append_file:
  assumes "validRecord r" "validRecord r'" "data_file (disk s) = Some bs"
    and "appendRecordLocked (no_append_faults\<lparr>af_write := Some n\<rparr>) r s = (res1, s1)"
    and "appendRecordLocked no_append_faults r' s1 = (res2, s2)"
  shows "\<exists>st. res1 = Inl st" "\<exists>md. res2 = Inr md"
    "data_file (disk s2) = Some (bs @ take n (encodeRecord r) @ encodeRecord r')"
proof -
  have s1: "(\<exists>st. res1 = Inl st) \<and> data_file (disk s1) = Some (bs @ take n (encodeRecord r))"
    using assms(1,3,4)
    by (auto simp: appendRecordLocked_def calm_env writeRecord_torn contents_Some Let_def)
  from append_no_faults [OF assms(2) conjunct2 [OF this]] assms(5)
  show "\<exists>md. res2 = Inr md" "data_file (disk s2) = Some (bs @ take n (encodeRecord r) @ encodeRecord r')"
    by (auto simp: set_contents_def)
  show "\<exists>st. res1 = Inl st" using s1 by blast
qed

lemma torn_fragment:
  assumes "validRecord r" "28 \<le> n"
  shows "take n (encodeRecord r) @ encodeRecord r' = header_bytes (char_of_byte 0) (header_fields r) @
    drop 28 (take n (encodeRecord r) @ encodeRecord r')"
proof -
  have "take 28 (take n (encodeRecord r) @ encodeRecord r') = header_bytes (char_of_byte 0) (header_fields r)"
    using assms record_size_ge [of r] by (simp add: encodeRecord_def makeHeader_layout)
  then show ?thesis by (metis append_take_drop_id)
qed

lemma torn_scan_truncates:
  assumes "validRecord r" "28 \<le> n" "n + record_size r' < record_size r"
    and bs: "drop p bs = take n (encodeRecord r) @ encodeRecord r'" and len: "length bs < 2 ^ 63"
  shows "scanRecord no_read_faults bs (of_nat p) (of_nat (length bs - p)) = ScanTruncated"
proof (rule scanRecord_overlong [OF _ len header_ok_fields [OF assms(1)] _ refl])
  let ?rest = "drop 28 (take n (encodeRecord r) @ encodeRecord r')"
  show "drop p bs = header_bytes (char_of_byte 0) (header_fields r) @ ?rest"
    unfolding bs by (rule torn_fragment [OF assms(1,2)])
  show "length ?rest < unat (ph_keySize (header_fields r)) + unat (ph_valueSize (header_fields r))"
    using assms(2,3) header_fields_sizes(1,2) [OF assms(1)] record_size_ge [of r']
    by (simp add: record_size_def format_constants)
qed

lemma torn_append_lost:
  assumes "validRecord r" "28 \<le> n" "n + record_size r' < record_size r"
    and df: "data_file (disk s) = Some (log_bytes rs @ take n (encodeRecord r) @ encodeRecord r')"
    and rs: "\<forall>r \<in> set rs. validRecord r" and len: "length (log_bytes rs) + n + record_size r' < 2 ^ 63"
  shows "recover no_recover_faults now s =
    (Inr \<lparr>rs_index = replay now 0 rs [], rs_validRecords = of_nat (length rs),
          rs_truncatedBytes = of_nat (n + record_size r')\<rparr>,
     (set_contents (log_bytes rs) s)\<lparr>file_open := True\<rparr>)"
proof -
  let ?tail = "take n (encodeRecord r) @ encodeRecord r'"
  have lt: "length ?tail = n + record_size r'" using assms(3) by simp
  have len': "length (log_bytes rs @ ?tail) < 2 ^ 63" using len lt by simp
  have "scanRecord no_read_faults (log_bytes rs @ ?tail) (of_nat (length (log_bytes rs)))
      (of_nat (length ?tail)) = ScanTruncated"
    using torn_scan_truncates [OF assms(1-3), of "length (log_bytes rs)" "log_bytes rs @ ?tail"] len' by simp
  from recover_cut [OF df rs len' this] show ?thesis by (simp only: lt)
qed

lemma torn_append_refused:
  assumes "validRecord r" "28 \<le> n" "n < record_size r" "record_size r \<le> n + record_size r'"
    and "recordChecksum (rec_op r) (rec_expiresAtMs r) (take (length (rec_key r)) (torn_payload n r r'))
        (drop (length (rec_key r)) (torn_payload n r r')) \<noteq>
      recordChecksum (rec_op r) (rec_expiresAtMs r) (rec_key r) (rec_value r)"
    and df: "data_file (disk s) = Some (log_bytes rs @ take n (encodeRecord r) @ encodeRecord r')"
    and rs: "\<forall>r \<in> set rs. validRecord r" and len: "length (log_bytes rs) + n + record_size r' < 2 ^ 63"
  shows "recover no_recover_faults now s =
    (Inl (corruption (''checksum mismatch at byte '' @ to_string (length (log_bytes rs)))),
     s\<lparr>file_open := True\<rparr>)"
proof -
  let ?tail = "take n (encodeRecord r) @ encodeRecord r'" and ?pl = "torn_payload n r r'"
  let ?k = "take (length (rec_key r)) ?pl" and ?v = "drop (length (rec_key r)) ?pl"
  have lt: "length ?tail = n + record_size r'" using assms(3) by simp
  have pl: "length ?pl = length (rec_key r) + length (rec_value r)"
    using assms(3,4) lt by (simp add: torn_payload_def record_size_def format_constants)
  obtain rest where "drop 28 ?tail = ?pl @ rest"
    unfolding torn_payload_def format_constants by (metis append_take_drop_id)
  also have "?pl @ rest = ?k @ ?v @ rest"
    by (simp only: append_assoc [symmetric] append_take_drop_id)
  finally have tail: "?tail = header_bytes (char_of_byte 0) (header_fields r) @ ?k @ ?v @ rest"
    using torn_fragment [OF assms(1,2), of r'] by simp
  have len': "length (log_bytes rs @ header_bytes (char_of_byte 0) (header_fields r) @ ?k @ ?v @ rest) < 2 ^ 63"
    unfolding tail [symmetric] using len lt by simp
  have "length ?k = unat (ph_keySize (header_fields r))" "length ?v = unat (ph_valueSize (header_fields r))"
    using pl header_fields_sizes(1,2) [OF assms(1)] by simp_all
  from recover_bad_checksum [OF df [unfolded tail] rs len' header_ok_fields [OF assms(1)] this] assms(5)
  show ?thesis by simp
qed

text \<open>A tear before the last byte of a value: the first byte of the next record takes its place.\<close>

lemma encodeRecord_first: "encodeRecord r = CHR ''M'' # tl (encodeRecord r)"
proof -
  have "byte_at 0 kRecordMagic = CHR ''M''"
    by (simp add: byte_at_def kRecordMagic_def char_of_byte_def char_of_def bit_Suc_0_iff)
  then have "hd (header_bytes c h) = CHR ''M''" for c h
    by (simp add: header_bytes_def le_bytes_def upt_rec)
  then have "hd (encodeRecord r) = CHR ''M''"
    unfolding encodeRecord_def makeHeader_layout
    by (metis hd_append2 length_header_bytes list.size(3) zero_neq_numeral)
  moreover have "encodeRecord r \<noteq> []"
    using record_size_ge [of r] by (metis length_encodeRecord list.size(3) not_numeral_le_zero)
  ultimately show ?thesis by (metis list.collapse)
qed

lemma torn_at_last_byte:
  assumes "validRecord r" "rec_value r = w @ [c]" "c \<noteq> CHR ''M''"
  shows "torn_payload (record_size r - 1) r r' = rec_key r @ w @ ''M''"
    "recordChecksum (rec_op r) (rec_expiresAtMs r) (rec_key r) (w @ ''M'') \<noteq>
      recordChecksum (rec_op r) (rec_expiresAtMs r) (rec_key r) (rec_value r)"
proof -
  have "take (record_size r - 1) (encodeRecord r) =
      header_bytes (char_of_byte 0) (header_fields r) @ rec_key r @ w"
    using assms(2) by (simp add: encodeRecord_def makeHeader_layout record_size_def format_constants)
  moreover have "take 1 (encodeRecord r') = ''M''"
    by (subst encodeRecord_first) simp
  ultimately show "torn_payload (record_size r - 1) r r' = rec_key r @ w @ ''M''"
    using assms(2) by (simp add: torn_payload_def format_constants)
  have "w @ ''M'' = (rec_value r)[length w := CHR ''M'']"
    using assms(2) by simp
  then show "recordChecksum (rec_op r) (rec_expiresAtMs r) (rec_key r) (w @ ''M'') \<noteq>
      recordChecksum (rec_op r) (rec_expiresAtMs r) (rec_key r) (rec_value r)"
    using assms(2,3) recordChecksum_value_byte [of "length w" "rec_value r" "CHR ''M''"] by simp
qed

section \<open>A short read during recovery\<close>

lemma short_read_truncates:
  assumes "data_file (disk s) = Some (log_bytes (r # rs))" "length (log_bytes (r # rs)) < 2 ^ 63"
    and "rd 0 kRecordHeaderSize < kRecordHeaderSize"
  shows "\<exists>state s'. recover (no_recover_faults\<lparr>rf_read := rd\<rparr>) now s = (Inr state, s') \<and>
    rs_index state = [] \<and> contents s' = []"
proof -
  let ?bs = "log_bytes (r # rs)"
  let ?n = "of_nat (length ?bs) :: u64"
  have n: "unat ?n = length ?bs"
    using assms(2) by (intro unat_of_nat_in_range) simp
  have big: "28 \<le> length ?bs"
    using record_size_ge [of r] by simp
  have "0 < unat ?n"
    unfolding n using big by linarith
  then have pos: "0 < ?n"
    by (simp only: word_less_nat_alt unat_0)
  have rem: "\<not> ?n < of_nat kRecordHeaderSize"
    using n big by (simp add: word_less_nat_alt format_constants del: log_bytes_simps)
  have "length (stream_read rd ?bs 0 kRecordHeaderSize) \<noteq> kRecordHeaderSize"
    using assms(3) by (simp add: stream_read_def)
  then have "scanRecord rd ?bs 0 ?n = ScanTruncated"
    using rem by (simp add: scanRecord_def Let_def)
  then have "recoverLoop rd now ?bs ?n 0 st = Inr (st\<lparr>rs_truncatedBytes := ?n\<rparr>, 0)" for st
    using pos by (subst recoverLoop.simps) simp
  moreover have "ensureOpenLocked no_open_faults s = (Status_success, s\<lparr>file_open := True\<rparr>)"
    using assms(1) by (simp add: calm_env)
  moreover have "contents s = ?bs"
    using assms(1) by (rule contents_Some)
  ultimately show ?thesis
    using pos by (simp add: recover_def calm_env reopenLocked_def
        del: log_bytes_simps)
qed

section \<open>TTL arithmetic\<close>

lemma sint_i64_range: "- (2 ^ 63) \<le> sint (w :: i64)" "sint (w :: i64) < 2 ^ 63"
  using sint_ge [of w] sint_lt [of w] by simp_all

lemma sint_add_in_range:
  assumes "- (2 ^ 63) \<le> sint a + sint b" "sint a + sint b < 2 ^ 63"
  shows "sint (a + b :: i64) = sint a + sint b"
  using assms by (simp add: sint_word_ariths signed_take_bit_int_eq_self)

lemma sint_add_overflow:
  assumes "2 ^ 63 \<le> sint a + sint (b :: i64)"
  shows "sint (a + b) = sint a + sint b - 2 ^ 64" "sint (a + b) < 0"
proof -
  have r: "sint a < 2 ^ 63" "sint b < 2 ^ 63"
    by (rule sint_i64_range(2))+
  have "signed_take_bit 63 (sint a + sint b) = signed_take_bit 63 (sint a + sint b - 2 ^ 64)"
    by (simp add: signed_take_bit_eq_iff_take_bit_eq take_bit_eq_mod)
  also have "\<dots> = sint a + sint b - 2 ^ 64"
    using assms r by (intro signed_take_bit_int_eq_self) simp_all
  finally show "sint (a + b) = sint a + sint b - 2 ^ 64"
    by (simp add: sint_word_ariths)
  then show "sint (a + b) < 0" using r by simp
qed

lemma expiry_exact:
  assumes "0 < sint now" "0 < sint c" "sint now + sint c < 2 ^ 63"
  shows "isExpired (now + c) t \<longleftrightarrow> sint now + sint c \<le> sint t"
  using assms sint_add_in_range [of now c] by (simp add: isExpired_def)

lemma expiry_overflow:
  assumes "2 ^ 63 \<le> sint now + sint c"
  shows "\<not> isExpired (now + c) t"
  using sint_add_overflow(2) [OF assms] by (simp add: isExpired_def)

section \<open>A compaction whose reopen fails\<close>

definition reopen_fails :: store_compact_faults where
  "reopen_fails = no_store_compact_faults\<lparr>sc_compact :=
     no_compact_faults\<lparr>cf_reopen := no_open_faults\<lparr>of_open := True\<rparr>\<rparr>\<rparr>"

lemma aos_compact_reopen_fails:
  assumes "\<forall>r \<in> set live. validRecord r" "data_file (disk s) \<noteq> None"
  shows "\<exists>st s'. aos_compact (sc_compact reopen_fails) live s = (Inl st, s') \<and>
    contents s' = log_bytes live \<and> data_file (disk s') \<noteq> None"
  using assms compactLoop_no_faults [OF assms(1), of 0 "[]" 0 "[]"]
  by (simp add: aos_compact_def reopen_fails_def calm_env reopenLocked_def ensureOpenLocked_def no_open_faults_def Let_def)

lemma kv_compact_reopen_fails:
  assumes "kv_safe s" "kv_opened s"
  obtains st s' where "kv_compact reopen_fails now s = (Inl st, s')"
    "contents (kv_storage s') = log_bytes (compacted_log now s)"
proof -
  let ?idx = "live_entries now (kv_index s)"
  note coh = coherent_sweep [OF kv_safeD [OF assms(1)], of now]
  have "\<exists>v. stored_at (contents (kv_storage s)) (snd x) (fst x) v" if h: "x \<in> set ?idx" for x
    using coh h covered_Some [of "log_holds (kv_storage s)" "map_of ?idx" _ "fst x" "snd x"]
    by (fastforce simp: coherent_def log_holds_def simp del: set_filter)
  moreover have ready: "log_ready (kv_storage s)"
    using coh by (simp add: coherent_def)
  ultimately obtain st1 where cl: "collectLive (\<lambda>_. no_value_faults) 0 ?idx (kv_storage s) =
      (Inr (map (live_record (contents (kv_storage s))) ?idx), st1)"
    using collectLive_no_faults by blast
  have "data_file (disk st1) \<noteq> None"
    using collectLive_cases(2) [OF cl ready] by (simp add: log_ready_def)
  then obtain e st2 where co: "aos_compact (sc_compact reopen_fails) (compacted_log now s) st1 = (Inl e, st2)"
    "contents st2 = log_bytes (compacted_log now s)"
    using aos_compact_reopen_fails compacted_log_facts(1) [OF assms(1)] by blast
  have "sc_read reopen_fails = (\<lambda>_. no_value_faults)"
    by (simp add: reopen_fails_def calm_env)
  then have "kv_compact reopen_fails now s = (Inl e, (compact_swept now s)\<lparr>kv_storage := st2\<rparr>)"
    unfolding kv_compact_opened [OF assms(2)] compact_locked_swept compact_swept_ok(3) [OF assms(1)]
    using cl co(1) by (simp add: compacted_log_def)
  with that co(2) show thesis by simp
qed

text \<open>A read through an index entry of the old file delivers whatever the new file has there.\<close>

lemma kv_get_uncached:
  assumes "kv_opened s" "\<not> bad_key k" "map_of (kv_index s) k = Some md"
    and "\<not> isExpired (md_expiresAtMs md) now" "lru_inv (kv_cache s)" "lru_lookup (kv_cache s) k = None"
    and "data_file (disk (kv_storage s)) \<noteq> None" "\<not> sint (md_valueOffset md) < 0"
  shows "fst (kv_get no_value_faults now k s) =
    (if length (slice (contents (kv_storage s)) md) = unat (md_valueSize md)
     then Inr (slice (contents (kv_storage s)) md)
     else Inl (corruption ''value extends beyond the data file''))"
proof -
  obtain cache where miss: "lru_get k (kv_cache s) = (None, cache)"
    using lru.get_result [OF assms(5), of k] assms(6) by (metis prod.collapse)
  obtain st1 where op: "ensureOpenLocked no_open_faults (kv_storage s) = (Status_success, st1)"
    by (simp add: calm_env)
  note fr = ensureOpen_frame(1) [OF op]
  have "readValue no_value_faults md (kv_storage s) =
      (if length (slice (contents (kv_storage s)) md) = unat (md_valueSize md)
       then Inr (slice (contents (kv_storage s)) md)
       else Inl (corruption ''value extends beyond the data file''), st1)"
    using assms(8)
    by (simp add: readValue_def calm_env slice_def Let_def op fr del: length_take ensureOpen_no_faults)
  with assms(1-4) miss show ?thesis
    by (simp add: kv_get_def get_checks_def get_shared_eq validateKey_code)
qed

text \<open>A compaction that fails keeps the index and the cache of its sweep, whatever file is in place.\<close>

lemma kv_compact_failed:
  assumes "kv_safe s" "kv_opened s" "kv_compact io now s = (Inl st, s')"
  shows "kv_index s' = live_entries now (kv_index s)" "kv_opened s'"
    "kv_cache s' = sweep_cache now (kv_index s) (kv_cache s)"
proof -
  obtain storage where "s' = (compact_swept now s)\<lparr>kv_storage := storage\<rparr>"
    using assms(3) unfolding kv_compact_opened [OF assms(2)] compact_locked_swept
    by (auto split: sum.splits prod.splits)
  then show "kv_index s' = live_entries now (kv_index s)" "kv_opened s'"
    "kv_cache s' = sweep_cache now (kv_index s) (kv_cache s)"
    using assms(2) by (simp_all add: compact_swept_def)
qed

lemma sweep_cache_absent:
  assumes "lru_inv c" "distinct (map fst idx)" "lru_lookup c k = None"
  shows "lru_inv (sweep_cache now idx c)" "lru_lookup (sweep_cache now idx c) k = None"
proof -
  note co = sweep_cache_coherent [OF assms(1) map_le_refl assms(2), of now]
  show "lru_inv (sweep_cache now idx c)" by (fact co(1))
  have "swept now idx (lru_lookup c) k = None"
    using assms(3) by (simp add: swept_def split: option.splits)
  then show "lru_lookup (sweep_cache now idx c) k = None"
    using map_le_implies_dom_le [OF co(2)] by (auto simp only: dom_def)
qed

lemma failed_compact_read:
  assumes "kv_safe s" "kv_opened s" "live_bytes (kv_index s) < 2 ^ 63"
    and "kv_compact io now s = (Inl st, s')" "contents (kv_storage s') \<noteq> contents (kv_storage s)"
    and "\<not> bad_key k" "map_of (kv_index s) k = Some md" "lru_lookup (kv_cache s) k = None"
    and "\<not> isExpired (md_expiresAtMs md) now" "\<not> isExpired (md_expiresAtMs md) t"
  shows "contents (kv_storage s') = log_bytes (compacted_log now s)"
    "fst (kv_get no_value_faults t k s') =
      (if length (slice (contents (kv_storage s')) md) = unat (md_valueSize md)
       then Inr (slice (contents (kv_storage s')) md)
       else Inl (corruption ''value extends beyond the data file''))"
proof -
  have coh: "coherent (kv_storage s) (kv_index s) (kv_cache s) (kv_values s)"
    by (rule kv_safeD [OF assms(1)])
  have d: "distinct (map fst (kv_index s))" by (rule kv_safe_distinct [OF assms(1)])
  have inv: "lru_inv (kv_cache s)" using coh unfolding coherent_def by blast
  note failed = kv_compact_failed [OF assms(1,2,4)]
  note cache = sweep_cache_absent [OF inv d assms(8), of now, folded failed(3)]
  have run: "compact_locked io now s = (Inl st, s')"
    using assms(4) by (simp only: kv_compact_opened [OF assms(2)])
  have new: "contents (kv_storage s') = log_bytes (compacted_log now s) \<and> data_file (disk (kv_storage s')) \<noteq> None"
    using assms(1,3) run
    by (cases rule: compact_locked_cases) (use assms(5) in simp_all)
  then show "contents (kv_storage s') = log_bytes (compacted_log now s)" by simp
  have df: "data_file (disk (kv_storage s')) \<noteq> None" using new by simp
  have ix: "map_of (kv_index s') k = Some md"
    using assms(7,9) unfolding failed(1) map_of_unexpired [OF d] by simp
  obtain v where "stored_at (contents (kv_storage s)) md k v"
    using coh assms(7) covered_Some [of "log_holds (kv_storage s)" "map_of (kv_index s)" "kv_values s" k md]
    by (auto simp: coherent_def log_holds_def)
  then have "\<not> sint (md_valueOffset md) < 0" by (rule stored_at_slice(3))
  from kv_get_uncached [OF failed(2) assms(6) ix assms(10) cache df this]
  show "fst (kv_get no_value_faults t k s') =
      (if length (slice (contents (kv_storage s')) md) = unat (md_valueSize md)
       then Inr (slice (contents (kv_storage s')) md)
       else Inl (corruption ''value extends beyond the data file''))" .
qed

lemma lru_empty_lookup: "lru_inv c \<Longrightarrow> lru_capacity c = 0 \<Longrightarrow> lru_lookup c k = None"
  by (simp add: lru_inv_def lru_lookup_def lru_abs_def)

text \<open>The keys \<^verbatim>\<open>b\<close> and \<^verbatim>\<open>a\<close>, stored in this order, trade places in the compacted file.\<close>

definition swap_store :: KeyValueStore where
  "swap_store = snd (kv_open no_store_open_faults 1 (KeyValueStore_new
     \<lparr>cfg_dataFile = ''d'', cfg_cacheCapacity = 0, cfg_cleanupInterval = 1,
      cfg_startBackgroundCleaner = False\<rparr>
     \<lparr>data_file = Some (log_bytes [set_record ''b'' ''x'' 0, set_record ''a'' ''y'' 0]),
      tmp_file = None\<rparr>))"

lemma swap_store_facts:
  "kv_safe swap_store" "kv_opened swap_store" "lru_capacity (kv_cache swap_store) = 0"
  "kv_index swap_store = [(''b'', record_metadata 0 (set_record ''b'' ''x'' 0)),
     (''a'', record_metadata 30 (set_record ''a'' ''y'' 0))]"
  "contents (kv_storage swap_store) =
     log_bytes [set_record ''b'' ''x'' 0, set_record ''a'' ''y'' 0]"
proof -
  let ?rs = "[set_record ''b'' ''x'' 0, set_record ''a'' ''y'' 0]"
  let ?cfg = "\<lparr>cfg_dataFile = ''d'', cfg_cacheCapacity = 0, cfg_cleanupInterval = 1,
      cfg_startBackgroundCleaner = False\<rparr>"
  let ?fs = "\<lparr>data_file = Some (log_bytes ?rs), tmp_file = None\<rparr>"
  have sz: "record_size (set_record ''b'' ''x'' 0) = 30" "record_size (set_record ''a'' ''y'' 0) = 30"
    by (simp_all add: record_size_def format_constants)
  have valid: "\<forall>r \<in> set ?rs. validRecord r"
    by (simp add: validRecord_def format_constants)
  have log: "log_of (log_bytes ?rs) ?rs []"
    using valid sz by (simp add: log_of_def)
  have run: "kv_open no_store_open_faults 1 (KeyValueStore_new ?cfg ?fs) =
      (fst (kv_open no_store_open_faults 1 (KeyValueStore_new ?cfg ?fs)), swap_store)"
    by (simp add: swap_store_def)
  show "kv_safe swap_store" "kv_opened swap_store"
    using kv_open_log [OF log _ _ run] by simp_all
  let ?st = "\<lparr>dataPath = ''d'', file_open = True, disk = ?fs\<rparr>"
  have rec: "recover no_recover_faults 1 ?st =
      (Inr \<lparr>rs_index = replay 1 0 ?rs [], rs_validRecords = of_nat (length ?rs),
          rs_truncatedBytes = of_nat (length ([] :: string))\<rparr>,
       (set_contents (log_bytes ?rs) ?st)\<lparr>file_open := True\<rparr>)"
    by (rule recover_log) (use valid sz in simp_all)
  have op: "aos_open no_open_faults (AppendOnlyStore_new ''d'' ?fs) = (Status_success, ?st)"
    by (simp add: aos_open_def calm_env AppendOnlyStore_new_def)
  have "kv_index swap_store = replay 1 0 ?rs []" "lru_capacity (kv_cache swap_store) = 0"
    "contents (kv_storage swap_store) = log_bytes ?rs"
    using op rec
    by (simp_all add: swap_store_def kv_open_def KeyValueStore_new_def calm_env
        lru_new_def Let_def)
  moreover have "replay 1 0 ?rs [] = [(''b'', record_metadata 0 (set_record ''b'' ''x'' 0)),
     (''a'', record_metadata 30 (set_record ''a'' ''y'' 0))]"
    using valid sz replayRecord_fields [of "set_record ''b'' ''x'' 0" 1]
      replayRecord_fields [of "set_record ''a'' ''y'' 0" 1] by simp
  ultimately show "lru_capacity (kv_cache swap_store) = 0"
    "kv_index swap_store = [(''b'', record_metadata 0 (set_record ''b'' ''x'' 0)),
     (''a'', record_metadata 30 (set_record ''a'' ''y'' 0))]"
    "contents (kv_storage swap_store) = log_bytes ?rs"
    by simp_all
qed

lemma swap_store_slices:
  "slice (contents (kv_storage swap_store)) (record_metadata 0 (set_record ''b'' ''x'' 0)) = ''x''"
  "slice (contents (kv_storage swap_store)) (record_metadata 30 (set_record ''a'' ''y'' 0)) = ''y''"
proof -
  let ?rb = "set_record ''b'' ''x'' 0" and ?ra = "set_record ''a'' ''y'' 0"
  have sz: "record_size ?rb = 30" "record_size ?ra = 30"
    by (simp_all add: record_size_def format_constants)
  have valid: "validRecord ?rb" "validRecord ?ra"
    by (simp_all add: validRecord_def format_constants)
  have "stored_at (log_bytes [?rb, ?ra]) (record_metadata 0 ?rb) ''b'' ''x''"
    using log_stored [of "[?rb, ?ra]" "''b''" "record_metadata 0 ?rb" "''x''"] valid sz by simp
  then show "slice (contents (kv_storage swap_store)) (record_metadata 0 ?rb) = ''x''"
    unfolding swap_store_facts(5) by (rule stored_at_slice(1))
  have "stored_at (log_bytes [?rb, ?ra]) (record_metadata 30 ?ra) ''a'' ''y''"
    using log_stored [of "[?rb, ?ra]" "''a''" "record_metadata 30 ?ra" "''y''"] valid sz by simp
  then show "slice (contents (kv_storage swap_store)) (record_metadata 30 ?ra) = ''y''"
    unfolding swap_store_facts(5) by (rule stored_at_slice(1))
qed

lemma swap_store_compacted: "compacted_log 1 swap_store = [set_record ''a'' ''y'' 0, set_record ''b'' ''x'' 0]"
proof -
  have "map (live_record (contents (kv_storage swap_store))) (live_entries 1 (kv_index swap_store)) =
      [set_record ''b'' ''x'' 0, set_record ''a'' ''y'' 0]"
    using swap_store_slices by (simp add: swap_store_facts(4) live_record_def)
  moreover have "\<not> ''b'' \<le> ''a''"
    by (simp add: less_eq_char_def)
  ultimately show ?thesis
    unfolding compacted_log_def by simp
qed

lemma swap_store_read:
  "fst (kv_get no_value_faults 1 ''b'' swap_store) = Inr ''x''"
proof -
  have "\<not> bad_key ''b''" by (simp add: bad_key_def format_constants)
  moreover have "visible 1 (kv_bindings swap_store) ''b'' = Some ''x''"
    using swap_store_slices(1) by (simp add: visible_def kv_bindings_def swap_store_facts(4))
  ultimately show ?thesis
    using kv_get_no_faults [OF swap_store_facts(1,2), of 1 "''b''"] by simp
qed

text \<open>After the compaction the place of the value of \<^verbatim>\<open>b\<close> holds that of \<^verbatim>\<open>a\<close>.\<close>

lemma swap_store_stranded:
  obtains st s' where "kv_compact reopen_fails 1 swap_store = (Inl st, s')"
    "slice (contents (kv_storage s')) (record_metadata 0 (set_record ''b'' ''x'' 0)) = ''y''"
proof -
  obtain st s' where run: "kv_compact reopen_fails 1 swap_store = (Inl st, s')"
    and sto: "contents (kv_storage s') = log_bytes [set_record ''a'' ''y'' 0, set_record ''b'' ''x'' 0]"
    using kv_compact_reopen_fails [OF swap_store_facts(1,2), of 1] swap_store_compacted by metis
  have valid: "validRecord (set_record ''a'' ''y'' 0)" "validRecord (set_record ''b'' ''x'' 0)"
    by (simp_all add: validRecord_def format_constants)
  have "stored_at (contents (kv_storage s')) (record_metadata 0 (set_record ''a'' ''y'' 0)) ''a'' ''y''"
    using log_stored [of "[set_record ''a'' ''y'' 0, set_record ''b'' ''x'' 0]" "''a''"
        "record_metadata 0 (set_record ''a'' ''y'' 0)" "''y''"] valid sto
    by (simp add: record_size_def format_constants)
  from stored_at_slice(1) [OF this] have
    "slice (contents (kv_storage s')) (record_metadata 0 (set_record ''b'' ''x'' 0)) = ''y''"
    by (simp add: slice_def record_metadata_def)
  with that run show thesis by blast
qed

end
