(* ===== verification/Shell.thy ===== *)
theory Shell
  imports CommandParser StoreProgress
begin

text \<open>
  \<^verbatim>\<open>app/main.cpp\<close>: the options of the program, the dispatch of a command to the engine with the
  text it prints, and the read-eval-print loop up to the exit code.

  The model's output is the bytes written to \<^verbatim>\<open>std::cout\<close>, followed for a rejected option by
  those to \<^verbatim>\<open>std::cerr\<close>, which are kept apart. Each input line comes with its environment: the
  passes that the cleaner thread made while the program waited for the line (their clock
  readings), the clock reading of the command and the faults of its storage calls. The one thing
  that is left open is how \<^verbatim>\<open>printStatistics\<close> renders the hit rate, a \<^verbatim>\<open>double\<close>: the rendering of a
  cache's statistics is the argument \<open>percent\<close>.
\<close>

section \<open>Help and statistics\<close>

abbreviation newline :: char where "newline \<equiv> CHR 0x0A"
abbreviation dquote :: char where "dquote \<equiv> CHR 0x22"

definition help_text :: string where
  "help_text =
     ''Commands:'' @ [newline] @
     ''  SET key value                 Store a value'' @ [newline] @
     ''  SET key value TTL seconds     Store a value with expiration'' @ [newline] @
     ''  GET key                       Read a value'' @ [newline] @
     ''  DEL key                       Delete a value'' @ [newline] @
     ''  EXISTS key                    Test whether a key exists'' @ [newline] @
     ''  KEYS [prefix]                 List keys, optionally by prefix'' @ [newline] @
     ''  STATS                         Show engine and cache statistics'' @ [newline] @
     ''  COMPACT                       Rewrite only live records'' @ [newline] @
     ''  HELP                          Show this help'' @ [newline] @
     ''  EXIT                          Close the store and exit'' @ [newline] @
     ''Quote values containing spaces, for example:'' @ [newline] @
     ''  SET greeting '' @ [dquote] @ ''hello world'' @ [dquote] @ '' TTL 60'' @ [newline]"

definition statistics_text :: "(CacheStatistics \<Rightarrow> string) \<Rightarrow> EngineStatistics \<Rightarrow> string" where
  "statistics_text percent st =
     ''keys                : '' @ to_string (st_keyCount st) @ [newline] @
     ''data file bytes     : '' @ to_string (unat (st_dataFileBytes st)) @ [newline] @
     ''SET operations      : '' @ to_string (unat (st_setOperations st)) @ [newline] @
     ''GET operations      : '' @ to_string (unat (st_getOperations st)) @ [newline] @
     ''DEL operations      : '' @ to_string (unat (st_deleteOperations st)) @ [newline] @
     ''expired keys        : '' @ to_string (unat (st_expiredKeys st)) @ [newline] @
     ''compactions         : '' @ to_string (unat (st_compactions st)) @ [newline] @
     ''recovered records   : '' @ to_string (unat (st_recoveredRecords st)) @ [newline] @
     ''truncated tail bytes: '' @ to_string (unat (st_truncatedTailBytes st)) @ [newline] @
     ''cache size/capacity : '' @ to_string (cs_size (st_cache st)) @ ''/'' @
       to_string (cs_capacity (st_cache st)) @ [newline] @
     ''cache hits          : '' @ to_string (unat (cs_hits (st_cache st))) @ [newline] @
     ''cache misses        : '' @ to_string (unat (cs_misses (st_cache st))) @ [newline] @
     ''cache evictions     : '' @ to_string (unat (cs_evictions (st_cache st))) @ [newline] @
     ''cache hit rate      : '' @ percent (st_cache st) @ ''%'' @ [newline]"

section \<open>Program options\<close>

definition parsePositiveSize :: "string \<Rightarrow> nat option" where
  "parsePositiveSize text =
     (case from_chars_u64 text of
        FcOk parsed rest \<Rightarrow> if rest \<noteq> [] \<or> parsed = 0 then None else Some (nat parsed)
      | _ \<Rightarrow> None)"

definition usage_text :: "string \<Rightarrow> string" where
  "usage_text program =
     ''Usage: '' @ program @ '' [--data PATH] [--cache CAPACITY] [--cleanup-ms MILLISECONDS]'' @ [newline]"

text \<open>The options end in a usage message, in an error message, or in a configuration.\<close>

datatype Options = OptionsHelp | OptionsError string bool | OptionsOk StoreConfig

definition default_config :: StoreConfig where
  "default_config = \<lparr>cfg_dataFile = ''data/minikv.aof'', cfg_cacheCapacity = 128,
     cfg_cleanupInterval = 1000, cfg_startBackgroundCleaner = True\<rparr>"

definition unknown_argument :: "string \<Rightarrow> Options" where
  "unknown_argument arg = OptionsError (''Unknown or incomplete argument: '' @ arg @ [newline]) True"

fun parse_options :: "string list \<Rightarrow> StoreConfig \<Rightarrow> Options" where
  "parse_options [] config = OptionsOk config"
| "parse_options [arg] config =
     (if arg = ''--help'' \<or> arg = ''-h'' then OptionsHelp else unknown_argument arg)"
| "parse_options (arg # text # args) config =
     (if arg = ''--help'' \<or> arg = ''-h'' then OptionsHelp
      else if arg = ''--data'' then parse_options args (config\<lparr>cfg_dataFile := text\<rparr>)
      else if arg = ''--cache'' then
        (case parsePositiveSize text of
           None \<Rightarrow> OptionsError (''Invalid cache capacity.'' @ [newline]) False
         | Some capacity \<Rightarrow> parse_options args (config\<lparr>cfg_cacheCapacity := capacity\<rparr>))
      else if arg = ''--cleanup-ms'' then
        (case parsePositiveSize text of
           None \<Rightarrow> OptionsError (''Invalid cleanup interval.'' @ [newline]) False
         | Some milliseconds \<Rightarrow>
             parse_options args (config\<lparr>cfg_cleanupInterval := of_nat milliseconds\<rparr>))
      else unknown_argument arg)"

section \<open>One command\<close>

record LineEnv =
  le_passes :: "i64 list"
  le_now :: i64
  le_append :: append_faults
  le_value :: value_faults
  le_compact :: store_compact_faults
  le_size_error :: bool

definition error_text :: "Status \<Rightarrow> string" where
  "error_text st = ''(error) '' @ toString st"

fun number_keys :: "nat \<Rightarrow> string list \<Rightarrow> string" where
  "number_keys i [] = []"
| "number_keys i (k # ks) = to_string (i + 1) @ '') '' @ k @ [newline] @ number_keys (i + 1) ks"

definition keys_text :: "string list \<Rightarrow> string" where
  "keys_text ks = number_keys 0 ks @ to_string (length ks) @ '' key(s)''"

definition compact_text :: "CompactionSummary \<Rightarrow> string" where
  "compact_text s =
     ''OK: '' @ to_string (sum_liveKeys s) @ '' live key(s), '' @
     to_string (unat (sum_oldFileBytes s)) @ '' -> '' @ to_string (unat (sum_newFileBytes s)) @ '' bytes''"

text \<open>The \<^verbatim>\<open>switch\<close> over the command type: the text printed, whether to leave, the engine.\<close>

definition run_command ::
  "(CacheStatistics \<Rightarrow> string) \<Rightarrow> LineEnv \<Rightarrow> Command \<Rightarrow> KeyValueStore
   \<Rightarrow> string \<times> bool \<times> KeyValueStore" where
  "run_command percent env command store =
     (case cmd_type command of
        CmdSet \<Rightarrow>
          (case kv_set (le_append env) (le_now env) (cmd_key command) (cmd_value command)
                  (cmd_ttl command) store of
             (st, store) \<Rightarrow> ((if status_ok st then ''OK'' else error_text st) @ [newline], False, store))
      | CmdGet \<Rightarrow>
          (case kv_get (le_value env) (le_now env) (cmd_key command) store of
             (Inr v, store) \<Rightarrow> (v @ [newline], False, store)
           | (Inl st, store) \<Rightarrow>
               ((if status_code st = NotFound then ''(nil)'' else error_text st) @ [newline], False, store))
      | CmdDelete \<Rightarrow>
          (case kv_remove (le_append env) (le_now env) (cmd_key command) store of
             (st, store) \<Rightarrow>
               ((if status_ok st then ''1'' else if status_code st = NotFound then ''0''
                 else error_text st) @ [newline], False, store))
      | CmdExists \<Rightarrow>
          (case kv_exists (le_value env) (le_now env) (cmd_key command) store of
             (Inr b, store) \<Rightarrow> ((if b then ''1'' else ''0'') @ [newline], False, store)
           | (Inl st, store) \<Rightarrow> (error_text st @ [newline], False, store))
      | CmdKeys \<Rightarrow>
          (case kv_keys (le_now env) (cmd_key command) store of
             (Inr ks, store) \<Rightarrow> (keys_text ks @ [newline], False, store)
           | (Inl st, store) \<Rightarrow> (error_text st @ [newline], False, store))
      | CmdStats \<Rightarrow>
          (statistics_text percent (kv_statistics (le_size_error env) store), False, store)
      | CmdCompact \<Rightarrow>
          (case kv_compact (le_compact env) (le_now env) store of
             (Inr summary, store) \<Rightarrow> (compact_text summary @ [newline], False, store)
           | (Inl st, store) \<Rightarrow> (error_text st @ [newline], False, store))
      | CmdHelp \<Rightarrow> (help_text, False, store)
      | CmdExit \<Rightarrow> (''Bye.'' @ [newline], True, snd (kv_close store)))"

section \<open>The loop and the program\<close>

definition prompt :: string where
  "prompt = ''minikv> ''"

fun repl ::
  "(CacheStatistics \<Rightarrow> string) \<Rightarrow> (LineEnv \<times> string) list \<Rightarrow> KeyValueStore \<Rightarrow> string \<times> KeyValueStore" where
  "repl percent [] store = (prompt @ [newline], snd (kv_close store))"
| "repl percent ((env, line) # lines) waiting =
     (let store = cleanerLoop (map WakeTimeout (le_passes env)) waiting in
      case parse line of
        Inl st \<Rightarrow>
          (case repl percent lines store of
             (out, store) \<Rightarrow> (prompt @ error_text st @ [newline] @ out, store))
      | Inr command \<Rightarrow>
          (case run_command percent env command store of
             (text, leave, store) \<Rightarrow>
               if leave then (prompt @ text, store)
               else case repl percent lines store of (out, store) \<Rightarrow> (prompt @ text @ out, store)))"

declare repl.simps [simp del]

definition banner :: string where
  "banner = ''MiniKV Store 1.0'' @ [newline] @
     ''Persistent C++17 key-value engine. Type HELP for commands.'' @ [newline]"

record ProgramResult =
  pr_stdout :: string
  pr_stderr :: string
  pr_exit :: nat
  pr_files :: FileSystem

definition minikv_main ::
  "(CacheStatistics \<Rightarrow> string) \<Rightarrow> string \<Rightarrow> string list \<Rightarrow> store_open_faults \<Rightarrow> i64
   \<Rightarrow> (LineEnv \<times> string) list \<Rightarrow> FileSystem \<Rightarrow> ProgramResult" where
  "minikv_main percent program args io nowMs lines fs =
     (case parse_options args default_config of
        OptionsHelp \<Rightarrow>
          \<lparr>pr_stdout = usage_text program, pr_stderr = [], pr_exit = 0, pr_files = fs\<rparr>
      | OptionsError message usage \<Rightarrow>
          \<lparr>pr_stdout = (if usage then usage_text program else []), pr_stderr = message,
           pr_exit = 1, pr_files = fs\<rparr>
      | OptionsOk config \<Rightarrow>
          (case kv_open io nowMs (KeyValueStore_new config fs) of (openStatus, store) \<Rightarrow>
           if \<not> status_ok openStatus
           then \<lparr>pr_stdout = [],
                 pr_stderr = ''Failed to open MiniKV Store: '' @ toString openStatus @ [newline],
                 pr_exit = 1, pr_files = kv_destroy store\<rparr>
           else case repl percent lines store of (out, store) \<Rightarrow>
             \<lparr>pr_stdout = banner @ out, pr_stderr = [], pr_exit = 0, pr_files = kv_destroy store\<rparr>))"

section \<open>Options that come back\<close>

lemma parsePositiveSize_to_string:
  assumes "0 < n" "n < 2 ^ 64"
  shows "parsePositiveSize (to_string n) = Some n"
proof -
  have "int n \<le> 2 ^ 64 - 1"
    using assms(2) by simp
  then have "from_chars_u64 (to_string n) = FcOk (int n) []"
    unfolding from_chars_u64_def by (intro from_chars_to_string) simp_all
  with assms(1) show ?thesis by (simp add: parsePositiveSize_def)
qed

text \<open>An option with its argument, how it is written, and the field that it sets.\<close>

datatype ProgramOption = DataOption string | CacheOption nat | CleanupOption nat

fun print_option :: "ProgramOption \<Rightarrow> string list" where
  "print_option (DataOption path) = [''--data'', path]"
| "print_option (CacheOption capacity) = [''--cache'', to_string capacity]"
| "print_option (CleanupOption ms) = [''--cleanup-ms'', to_string ms]"

fun option_ok :: "ProgramOption \<Rightarrow> bool" where
  "option_ok (DataOption path) \<longleftrightarrow> True"
| "option_ok (CacheOption capacity) \<longleftrightarrow> 0 < capacity \<and> capacity < 2 ^ 64"
| "option_ok (CleanupOption ms) \<longleftrightarrow> 0 < ms \<and> ms < 2 ^ 64"

fun apply_option :: "ProgramOption \<Rightarrow> StoreConfig \<Rightarrow> StoreConfig" where
  "apply_option (DataOption path) config = config\<lparr>cfg_dataFile := path\<rparr>"
| "apply_option (CacheOption capacity) config = config\<lparr>cfg_cacheCapacity := capacity\<rparr>"
| "apply_option (CleanupOption ms) config = config\<lparr>cfg_cleanupInterval := of_nat ms\<rparr>"

text \<open>Printed options in front of other arguments are read one by one.\<close>

lemma parse_options_print:
  assumes "\<forall>opt \<in> set opts. option_ok opt"
  shows "parse_options (concat (map print_option opts) @ rest) config =
    parse_options rest (fold apply_option opts config)"
  using assms
proof (induction opts arbitrary: config)
  case (Cons opt opts)
  then have "parse_options (concat (map print_option (opt # opts)) @ rest) config =
      parse_options (concat (map print_option opts) @ rest) (apply_option opt config)"
    by (cases opt) (simp_all add: parsePositiveSize_to_string)
  with Cons show ?case by simp
qed simp

lemma parse_options_stops:
  "parse_options (''--help'' # rest) config = OptionsHelp"
  "arg \<notin> {''--help'', ''-h'', ''--data'', ''--cache'', ''--cleanup-ms''} \<Longrightarrow>
   parse_options (arg # rest) config = unknown_argument arg"
  by (cases rest; simp)+

section \<open>The loop\<close>

lemma kv_close_closed: "\<not> kv_opened (snd (kv_close s))"
  by (simp add: kv_close_def Let_def)

lemma run_command_leaves: "run_command percent env c s = (text, True, s') \<Longrightarrow> \<not> kv_opened s'"
  using kv_close_closed [of s]
  by (auto simp: run_command_def split: CommandType.splits prod.splits sum.splits)

lemma run_command_exit:
  assumes "run_command percent env c s = (text, leave, s')"
  shows "leave \<longleftrightarrow> cmd_type c = CmdExit"
    "leave \<Longrightarrow> text = ''Bye.'' @ [newline] \<and> s' = snd (kv_close s)"
  using assms by (auto simp: run_command_def split: CommandType.splits prod.splits sum.splits)

lemma repl_cases:
  obtains (rejected) st where "parse line = Inl st"
      "repl percent ((env, line) # lines) s =
        map_prod (\<lambda>out. prompt @ error_text st @ [newline] @ out) id
          (repl percent lines (cleanerLoop (map WakeTimeout (le_passes env)) s))"
  | (left) c reply s' where "parse line = Inr c"
      "run_command percent env c (cleanerLoop (map WakeTimeout (le_passes env)) s) = (reply, True, s')"
      "repl percent ((env, line) # lines) s = (prompt @ reply, s')"
  | (next_line) c reply s' where "parse line = Inr c"
      "run_command percent env c (cleanerLoop (map WakeTimeout (le_passes env)) s) = (reply, False, s')"
      "repl percent ((env, line) # lines) s = map_prod (\<lambda>out. prompt @ reply @ out) id (repl percent lines s')"
proof (cases "parse line")
  case (Inl st)
  then show ?thesis
    by (intro rejected) (simp_all add: repl.simps map_prod_def split: prod.splits)
next
  case (Inr c)
  obtain reply leave s' where "run_command percent env c
      (cleanerLoop (map WakeTimeout (le_passes env)) s) = (reply, leave, s')"
    by (rule prod_cases3)
  with Inr left next_line show ?thesis
    by (cases leave) (simp_all add: repl.simps map_prod_def split: prod.splits)
qed

text \<open>However a session ends, the store is closed.\<close>

lemma repl_closes: "\<not> kv_opened (snd (repl percent lines s))"
proof (induction lines arbitrary: s)
  case Nil
  then show ?case by (simp add: repl.simps kv_close_closed)
next
  case (Cons x lines)
  obtain env line where x: "x = (env, line)" by fastforce
  show ?case
    unfolding x
    by (cases rule: repl_cases [of line percent env lines s])
      (use Cons run_command_leaves in auto)
qed

text \<open>A line whose command meets no fault.\<close>

definition calm :: "i64 list \<Rightarrow> i64 \<Rightarrow> LineEnv" where
  "calm passes now = \<lparr>le_passes = passes, le_now = now, le_append = no_append_faults,
     le_value = no_value_faults, le_compact = no_store_compact_faults, le_size_error = False\<rparr>"

lemma calm_simps [simp]:
  "le_passes (calm ps now) = ps" "le_now (calm ps now) = now"
  "le_append (calm ps now) = no_append_faults" "le_value (calm ps now) = no_value_faults"
  "le_compact (calm ps now) = no_store_compact_faults" "le_size_error (calm ps now) = False"
  by (simp_all add: calm_def)

end
