(* ===== verification/Traces.thy ===== *)
theory Traces
  imports Prelude
begin

text \<open>
  Labelled step relations, their runs, and forward simulation: a relation between concrete and
  abstract states that every concrete step preserves with an abstract step of the same label
  makes every concrete run an abstract one.
\<close>

inductive run :: "('s \<Rightarrow> 'e \<Rightarrow> 's \<Rightarrow> bool) \<Rightarrow> 's \<Rightarrow> 'e list \<Rightarrow> 's \<Rightarrow> bool" for step where
  run_Nil: "run step s [] s"
| run_Cons: "step s e s' \<Longrightarrow> run step s' es s'' \<Longrightarrow> run step s (e # es) s''"

inductive_simps run_Nil_iff [simp]: "run step s [] s'"
inductive_simps run_Cons_iff [simp]: "run step s (e # es) s''"

lemma run_append: "run step s (es @ fs) s'' \<longleftrightarrow> (\<exists>s'. run step s es s' \<and> run step s' fs s'')"
  by (induction es arbitrary: s) auto

lemma run_invariant:
  assumes "run step s es s'" "P s" "\<And>s e s'. P s \<Longrightarrow> step s e s' \<Longrightarrow> P s'"
  shows "P s'"
  using assms(1,2) by induction (blast intro: assms(3))+

locale trace_simulation =
  fixes conc :: "'c \<Rightarrow> 'e \<Rightarrow> 'c \<Rightarrow> bool"
    and spec :: "'a \<Rightarrow> 'e \<Rightarrow> 'a \<Rightarrow> bool"
    and R :: "'c \<Rightarrow> 'a \<Rightarrow> bool"
  assumes simulates: "R c a \<Longrightarrow> conc c e c' \<Longrightarrow> \<exists>a'. spec a e a' \<and> R c' a'"
begin

lemma run_simulates:
  assumes "run conc c es c'" "R c a"
  shows "\<exists>a'. run spec a es a' \<and> R c' a'"
  using assms
proof (induction arbitrary: a)
  case (run_Nil s)
  then show ?case by auto
next
  case (run_Cons s e s' es s'')
  obtain b where "spec a e b" "R s' b"
    using simulates [OF run_Cons.prems run_Cons.hyps(1)] by blast
  with run_Cons.IH [of b] show ?case by auto
qed

text \<open>A safety property of the abstract states holds of the concrete ones it is related to.\<close>

lemma safe_runs:
  assumes "run conc c es c'" "R c a" "P a" "\<And>a e a'. P a \<Longrightarrow> spec a e a' \<Longrightarrow> P a'"
  shows "\<exists>a'. R c' a' \<and> P a'"
  using run_simulates [OF assms(1,2)] run_invariant [where P = P] assms(3,4) by metis

end

end
