(* ===== verification/StoreRefinement.thy ===== *)
theory StoreRefinement
  imports StoreProgress Traces
begin

text \<open>
  The engine against its specification, over whole histories. The specification is a map with
  expiry times: \<open>spec_step\<close> says which replies a client may see. \<open>engine_step\<close> is the model of the
  engine under arbitrary faults, with the process restarted after an append whose outcome is
  uncertain (a SET or DEL that failed after its checks) and after any interrupted compaction;
  restarts may happen at any other point as well. The clock never runs backwards.

  The simulation shows that every history of the engine is one of the specification: what was
  acknowledged is seen by every later reader and survives every restart, what failed either
  happened or did not, expired keys stay invisible, and compaction and clean-up are invisible.
\<close>

section \<open>Events and the specification\<close>

datatype Event =
    SetReply i64 string string "i64 option" StatusCode
  | SetCrash i64 string string "i64 option"
  | GetReply i64 string "StatusCode + string"
  | ExistsReply i64 string "StatusCode + bool"
  | RemoveReply i64 string StatusCode
  | RemoveCrash i64 string
  | KeysReply i64 string "string list"
  | Cleanup i64
  | CompactReply i64 "StatusCode + nat"
  | CompactCrash i64
  | Restart i64

text \<open>The expiry time of a SET with acceptable arguments.\<close>

definition set_expiry :: "i64 \<Rightarrow> string \<Rightarrow> string \<Rightarrow> i64 option \<Rightarrow> i64 option" where
  "set_expiry now k v ttl =
     (if bad_key k \<or> kMaximumValueSize < length v then None
      else case ttl of None \<Rightarrow> Some 0
        | Some c \<Rightarrow> if sint c \<le> 0 then None else Some (now + c))"

fun observes :: "StatusCode + 'a \<Rightarrow> 'a option \<Rightarrow> bool" where
  "observes (Inr v) (Some w) \<longleftrightarrow> v = w"
| "observes (Inr _) None \<longleftrightarrow> False"
| "observes (Inl c) x \<longleftrightarrow> c \<noteq> Ok \<and> (c = NotFound \<longrightarrow> x = None)"

inductive spec_step :: "ttl_map \<Rightarrow> Event \<Rightarrow> ttl_map \<Rightarrow> bool" where
  spec_set: "set_expiry now k v ttl = Some e \<Longrightarrow>
    spec_step m (SetReply now k v ttl Ok) (m(k \<mapsto> (v, e)))"
| spec_set_invalid: "set_expiry now k v ttl = None \<Longrightarrow>
    spec_step m (SetReply now k v ttl InvalidArgument) m"
| spec_set_lost: "spec_step m (SetCrash now k v ttl) m"
| spec_set_kept: "set_expiry now k v ttl = Some e \<Longrightarrow>
    spec_step m (SetCrash now k v ttl) (m(k \<mapsto> (v, e)))"
| spec_get: "observes r (visible now m k) \<Longrightarrow> spec_step m (GetReply now k r) m"
| spec_exists_true: "visible now m k \<noteq> None \<Longrightarrow> spec_step m (ExistsReply now k (Inr True)) m"
| spec_exists_false: "visible now m k = None \<Longrightarrow> spec_step m (ExistsReply now k (Inr False)) m"
| spec_exists_failed: "c \<noteq> Ok \<Longrightarrow> c \<noteq> NotFound \<Longrightarrow> spec_step m (ExistsReply now k (Inl c)) m"
| spec_remove: "visible now m k \<noteq> None \<Longrightarrow> spec_step m (RemoveReply now k Ok) (m(k := None))"
| spec_remove_absent: "visible now m k = None \<Longrightarrow> spec_step m (RemoveReply now k NotFound) m"
| spec_remove_invalid: "bad_key k \<Longrightarrow> spec_step m (RemoveReply now k InvalidArgument) m"
| spec_remove_lost: "spec_step m (RemoveCrash now k) m"
| spec_remove_kept: "spec_step m (RemoveCrash now k) (m(k := None))"
| spec_keys: "spec_step m (KeysReply now p
      (sorted_list_of_set {k. hasPrefix p k \<and> visible now m k \<noteq> None})) m"
| spec_cleanup: "spec_step m (Cleanup now) m"
| spec_compact: "spec_step m (CompactReply now (Inr (card {k. visible now m k \<noteq> None}))) m"
| spec_compact_failed: "c \<noteq> Ok \<Longrightarrow> spec_step m (CompactReply now (Inl c)) m"
| spec_compact_crash: "spec_step m (CompactCrash now) m"
| spec_restart: "spec_step m (Restart now) m"

inductive_cases spec_setE [consumes 1]: "spec_step m (SetReply now k v ttl c) m'"
inductive_cases spec_removeE [consumes 1]: "spec_step m (RemoveReply now k c) m'"
inductive_cases spec_compactE [consumes 1]: "spec_step m (CompactReply now r) m'"

section \<open>Histories of the engine\<close>

text \<open>A state of a history: the latest clock reading and the engine.\<close>

type_synonym engine_state = "i64 \<times> KeyValueStore"

fun reply :: "'a outcome \<Rightarrow> StatusCode + 'a" where
  "reply (Inl st) = Inl (status_code st)"
| "reply (Inr v) = Inr v"

text \<open>
  A failed compaction may go on when the engine kept the data file open or the file has not been
  replaced; otherwise (rename done, reopen failed) the process has to be restarted.
\<close>

definition not_stranded :: "store_compact_faults \<Rightarrow> KeyValueStore \<Rightarrow> bool" where
  "not_stranded io s \<longleftrightarrow> cf_rename (sc_compact io) \<noteq> None \<or> file_open (kv_storage s)"

inductive engine_step :: "engine_state \<Rightarrow> Event \<Rightarrow> engine_state \<Rightarrow> bool" where
  step_set: "sint T \<le> sint now \<Longrightarrow> log_fits k (Some v) (kv_storage s) \<Longrightarrow>
    kv_set io now k v ttl s = (st, s') \<Longrightarrow> status_ok st \<or> set_expiry now k v ttl = None \<Longrightarrow>
    engine_step (T, s) (SetReply now k v ttl (status_code st)) (now, s')"
| step_set_crash: "sint T \<le> sint now \<Longrightarrow> log_fits k (Some v) (kv_storage s) \<Longrightarrow>
    kv_set io now k v ttl s = (st, s') \<Longrightarrow>
    kv_restart no_store_open_faults now s' = (st', s'') \<Longrightarrow>
    engine_step (T, s) (SetCrash now k v ttl) (now, s'')"
| step_get: "sint T \<le> sint now \<Longrightarrow> kv_get vio now k s = (r, s') \<Longrightarrow>
    engine_step (T, s) (GetReply now k (reply r)) (now, s')"
| step_exists: "sint T \<le> sint now \<Longrightarrow> kv_exists vio now k s = (b, s') \<Longrightarrow>
    engine_step (T, s) (ExistsReply now k (reply b)) (now, s')"
| step_remove: "sint T \<le> sint now \<Longrightarrow> log_fits k None (kv_storage s) \<Longrightarrow>
    kv_remove io now k s = (st, s') \<Longrightarrow> status_code st \<in> {Ok, NotFound} \<or> bad_key k \<Longrightarrow>
    engine_step (T, s) (RemoveReply now k (status_code st)) (now, s')"
| step_remove_crash: "sint T \<le> sint now \<Longrightarrow> log_fits k None (kv_storage s) \<Longrightarrow>
    kv_remove io now k s = (st, s') \<Longrightarrow>
    kv_restart no_store_open_faults now s' = (st', s'') \<Longrightarrow>
    engine_step (T, s) (RemoveCrash now k) (now, s'')"
| step_keys: "sint T \<le> sint now \<Longrightarrow> kv_keys now p s = (Inr ks, s') \<Longrightarrow>
    engine_step (T, s) (KeysReply now p ks) (now, s')"
| step_cleanup: "sint T \<le> sint now \<Longrightarrow> kv_cleanupExpired now s = (n, s') \<Longrightarrow>
    engine_step (T, s) (Cleanup now) (now, s')"
| step_compact: "sint T \<le> sint now \<Longrightarrow> kv_compact cio now s = (c, s') \<Longrightarrow> not_stranded cio s' \<Longrightarrow>
    engine_step (T, s) (CompactReply now (map_sum id sum_liveKeys (reply c))) (now, s')"
| step_compact_crash: "sint T \<le> sint now \<Longrightarrow> kv_compact cio now s = (c, s') \<Longrightarrow>
    kv_restart no_store_open_faults now s' = (st', s'') \<Longrightarrow>
    engine_step (T, s) (CompactCrash now) (now, s'')"
| step_restart: "sint T \<le> sint now \<Longrightarrow> kv_restart no_store_open_faults now s = (st', s') \<Longrightarrow>
    engine_step (T, s) (Restart now) (now, s')"

section \<open>Simulation\<close>

text \<open>
  Related states: the engine is open, safe and durable, and from now on its readers see what the
  readers of the map see.
\<close>

fun represents :: "engine_state \<Rightarrow> ttl_map \<Rightarrow> bool" where
  "represents (T, s) m \<longleftrightarrow>
     kv_opened s \<and> 0 < sint (cfg_cleanupInterval (kv_config s)) \<and> kv_safe s \<and>
     (\<exists>rs. durable T s rs) \<and>
     (\<forall>now. sint T \<le> sint now \<longrightarrow> visible now (kv_bindings s) = visible now m)"

lemma visible_upd [simp]:
  "visible now (m(k \<mapsto> (v, e))) = (visible now m)(k := if isExpired e now then None else Some v)"
  "visible now (m(k := None)) = (visible now m)(k := None)"
  by (auto simp: visible_def fun_eq_iff)

lemma representsD:
  assumes "represents (T, s) m"
  obtains rs where "kv_opened s" "0 < sint (cfg_cleanupInterval (kv_config s))" "kv_safe s"
    "durable T s rs" "\<And>now. sint T \<le> sint now \<Longrightarrow> visible now (kv_bindings s) = visible now m"
    "\<And>now. sint T \<le> sint now \<Longrightarrow> visible now (log_meaning rs) = visible now m"
proof -
  obtain rs where d: "durable T s rs"
    using assms by auto
  have vis: "visible now (kv_bindings s) = visible now m" if h: "sint T \<le> sint now" for now
    using assms h by simp
  have log: "visible now (log_meaning rs) = visible now m" if h: "sint T \<le> sint now" for now
    using durable_visible [OF d h] vis [OF h] by simp
  show ?thesis
    by (rule that [OF _ _ _ d vis log]) (use assms in simp_all)
qed

lemma representsI:
  assumes "kv_opened s" "0 < sint (cfg_cleanupInterval (kv_config s))" "kv_safe s" "durable T s rs"
    and "\<And>now. sint T \<le> sint now \<Longrightarrow> visible now (kv_bindings s) = visible now m"
  shows "represents (T, s) m"
  using assms by auto

lemma restart_represents:
  assumes "log_of (contents (kv_storage s)) rs tail" "data_file (disk (kv_storage s)) \<noteq> None"
    and "0 < sint (cfg_cleanupInterval (kv_config s))"
    and "kv_restart no_store_open_faults now s = (st, s')"
    and "\<And>now'. sint now \<le> sint now' \<Longrightarrow> visible now' (log_meaning rs) = visible now' m"
  shows "represents (now, s') m"
proof -
  note re = kv_restart_log [OF assms(1-4)]
  have "visible now' (kv_bindings s') = visible now' m" if h: "sint now \<le> sint now'" for now'
    using re(6) [of now'] assms(5) [OF h] h by simp
  then show ?thesis
    using re(2,3,4,5) assms(3) by (intro representsI [of s' now rs]) auto
qed

lemma durable_restart_represents:
  assumes "durable T s rs" "0 < sint (cfg_cleanupInterval (kv_config s))"
    and "kv_restart no_store_open_faults now s = (st, s')"
    and "\<And>now'. sint now \<le> sint now' \<Longrightarrow> visible now' (log_meaning rs) = visible now' m"
  shows "represents (now, s') m"
  by (rule restart_represents [OF durable_index(3,4) [OF assms(1)] assms(2-4)])

section \<open>SET and DEL\<close>

lemma set_expiry_checks:
  assumes "kv_opened s"
  shows "set_expiry now k v ttl = Some e \<longleftrightarrow> set_checks k v ttl now s = Inr e"
    "set_expiry now k v ttl = None \<longleftrightarrow> (\<exists>st. set_checks k v ttl now s = Inl st)"
  by (auto simp: set_expiry_def set_checks_result [OF assms] split: option.splits)

lemma kv_set_frame:
  "kv_set io now k v ttl s = (st, s') \<Longrightarrow> kv_opened s' = kv_opened s \<and> kv_config s' = kv_config s"
  by (auto simp: kv_set_def set_locked_def split: sum.splits if_splits prod.splits)

lemma kv_remove_frame:
  "kv_remove io now k s = (st, s') \<Longrightarrow> kv_opened s' = kv_opened s \<and> kv_config s' = kv_config s"
  by (auto simp: kv_remove_def remove_checks_def remove_locked_def Let_def split: sum.splits if_splits prod.splits option.splits)

lemma simulate_set:
  assumes "represents (T, s) m" "sint T \<le> sint now" "log_fits k (Some v) (kv_storage s)"
    and "kv_set io now k v ttl s = (st, s')" "status_ok st \<or> set_expiry now k v ttl = None"
  shows "\<exists>m'. spec_step m (SetReply now k v ttl (status_code st)) m' \<and> represents (now, s') m'"
proof -
  obtain rs where R: "kv_opened s" "0 < sint (cfg_cleanupInterval (kv_config s))" "kv_safe s"
    "durable T s rs" "\<And>now. sint T \<le> sint now \<Longrightarrow> visible now (kv_bindings s) = visible now m"
    using assms(1) by (rule representsD) blast
  note fr = kv_set_frame [OF assms(4)]
  show ?thesis
  proof (cases "set_expiry now k v ttl")
    case None
    then obtain e where e: "set_checks k v ttl now s = Inl e"
      using set_expiry_checks(2) [OF R(1)] by blast
    with assms(4) have s': "st = e" "s' = s"
      by (simp_all add: kv_set_def)
    have "spec_step m (SetReply now k v ttl (status_code st)) m"
      using spec_set_invalid [OF None] set_checks_code [OF R(1) e] s'(1) by simp
    moreover have "represents (now, s') m"
      using R durable_mono [OF R(4) assms(2)] assms(2) s'(2) by (intro representsI [of s' now rs]) auto
    ultimately show ?thesis by blast
  next
    case (Some e)
    with assms(5) have ok: "status_ok st" by simp
    from R(3) assms(3,4) have b: "kv_safe s'" "kv_bindings s' = (kv_bindings s)(k \<mapsto> (v, e))" "st = Status_success"
      by (cases rule: kv_set_cases;
          use ok Some set_expiry_checks(1) [OF R(1), of now k v ttl e] in simp)+
    from R(4) assms(3,4) have d: "\<exists>rs'. durable T s' rs'"
      by (cases rule: kv_set_file) (use ok in auto)
    then obtain rs' where "durable now s' rs'"
      using durable_mono assms(2) by blast
    then have "represents (now, s') (m(k \<mapsto> (v, e)))"
      using R(1,2,5) b(1,2) fr assms(2) by (intro representsI [of s' now rs']) auto
    moreover have "spec_step m (SetReply now k v ttl (status_code st)) (m(k \<mapsto> (v, e)))"
      using spec_set [OF Some] b(3) by simp
    ultimately show ?thesis by blast
  qed
qed

lemma simulate_set_crash:
  assumes "represents (T, s) m" "sint T \<le> sint now" "log_fits k (Some v) (kv_storage s)"
    and "kv_set io now k v ttl s = (st, s')" "kv_restart no_store_open_faults now s' = (st', s'')"
  shows "\<exists>m'. spec_step m (SetCrash now k v ttl) m' \<and> represents (now, s'') m'"
proof -
  obtain rs where R: "kv_opened s" "0 < sint (cfg_cleanupInterval (kv_config s))"
    "durable T s rs" "\<And>now. sint T \<le> sint now \<Longrightarrow> visible now (log_meaning rs) = visible now m"
    using assms(1) by (rule representsD) blast
  have ci: "0 < sint (cfg_cleanupInterval (kv_config s'))"
    using kv_set_frame [OF assms(4)] R(2) by simp
  have old: "visible now' (log_meaning rs) = visible now' m" if h: "sint now \<le> sint now'" for now'
    using R(4) assms(2) h by simp
  have new: "visible now' (log_meaning (rs @ [set_record k v e])) = visible now' (m(k \<mapsto> (v, e)))"
    if h: "sint now \<le> sint now'" for now' e
    using old [OF h] by (simp add: log_meaning_append)
  from R(3) assms(3,4) show ?thesis
  proof (cases rule: kv_set_file)
    case (stored e)
    then have "spec_step m (SetCrash now k v ttl) (m(k \<mapsto> (v, e)))"
      using set_expiry_checks(1) [OF R(1)] by (intro spec_set_kept) blast
    moreover have "represents (now, s'') (m(k \<mapsto> (v, e)))"
      by (rule durable_restart_represents [OF stored(3) ci assms(5) new])
    ultimately show ?thesis by blast
  next
    case rejected
    have "represents (now, s'') m"
      by (rule durable_restart_represents [OF R(3) _ _ old]) (use rejected R(2) assms(5) in simp_all)
    with spec_set_lost show ?thesis by blast
  next
    case (uncertain e)
    from uncertain(5) show ?thesis
    proof
      assume log: "log_of (contents (kv_storage s')) (rs @ [set_record k v e]) []"
      have "represents (now, s'') (m(k \<mapsto> (v, e)))"
        by (rule restart_represents [OF log uncertain(3) ci assms(5) new])
      moreover have "spec_step m (SetCrash now k v ttl) (m(k \<mapsto> (v, e)))"
        using uncertain(2) set_expiry_checks(1) [OF R(1)] by (intro spec_set_kept) blast
      ultimately show ?thesis by blast
    next
      assume "\<exists>tail. log_of (contents (kv_storage s')) rs tail"
      then obtain tail where log: "log_of (contents (kv_storage s')) rs tail" by blast
      have "represents (now, s'') m"
        by (rule restart_represents [OF log uncertain(3) ci assms(5) old])
      with spec_set_lost show ?thesis by blast
    qed
  qed
qed

lemma simulate_remove:
  assumes "represents (T, s) m" "sint T \<le> sint now" "log_fits k None (kv_storage s)"
    and "kv_remove io now k s = (st, s')" "status_code st \<in> {Ok, NotFound} \<or> bad_key k"
  shows "\<exists>m'. spec_step m (RemoveReply now k (status_code st)) m' \<and> represents (now, s') m'"
proof -
  obtain rs where R: "kv_opened s" "0 < sint (cfg_cleanupInterval (kv_config s))" "kv_safe s"
    "durable T s rs" "\<And>now. sint T \<le> sint now \<Longrightarrow> visible now (kv_bindings s) = visible now m"
    using assms(1) by (rule representsD) blast
  note fr = kv_remove_frame [OF assms(4)]
  have dur: "\<exists>rs'. durable now s' rs'" if h: "status_code st \<in> {Ok, NotFound}"
    using R(4) assms(3,4,2) by (cases rule: kv_remove_file) (use h in \<open>auto simp: status_ok_def\<close>)
  from R(3) assms(3,4) show ?thesis
  proof (cases rule: kv_remove_cases)
    case (removed v)
    obtain rs' where "durable now s' rs'" using dur removed(1) by auto
    then have "represents (now, s') (m(k := None))"
      using R(1,2,5) removed(3,4) fr assms(2) by (intro representsI [of s' now rs']) auto
    moreover have "spec_step m (RemoveReply now k (status_code st)) (m(k := None))"
      using removed(1,2) R(5) [OF assms(2)] spec_remove [of now m k] by simp
    ultimately show ?thesis by blast
  next
    case absent
    have none: "visible now m k = None"
      using absent(3) R(5) [OF assms(2)] by simp
    have "visible now' (kv_bindings s') = visible now' m" if h: "sint now \<le> sint now'" for now'
    proof -
      have "visible now' m k = None"
        using none isExpired_mono [OF _ h] by (auto simp: visible_def split: option.splits if_splits)
      then have "(visible now' m)(k := None) = visible now' m" by auto
      then show ?thesis using absent(5) R(5) [of now'] assms(2) h by simp
    qed
    moreover obtain rs' where "durable now s' rs'" using dur absent(1) by auto
    ultimately have "represents (now, s') m"
      using R(1,2) absent(4) fr by (intro representsI [of s' now rs']) auto
    moreover have "spec_step m (RemoveReply now k (status_code st)) m"
      using absent(1) none spec_remove_absent [of now m k] by simp
    ultimately show ?thesis by blast
  next
    case failed
    then have bad: "bad_key k"
      using assms(5) by (auto simp: status_ok_def)
    then have s': "status_code st = InvalidArgument" "s' = s"
      using assms(4) R(1) by (auto simp: kv_remove_def remove_checks_def remove_locked_def validateKey_code)
    have "represents (now, s') m"
      using R durable_mono [OF R(4) assms(2)] assms(2) s'(2) by (intro representsI [of s' now rs]) auto
    with s'(1) spec_remove_invalid [OF bad] show ?thesis by auto
  qed
qed

lemma simulate_remove_crash:
  assumes "represents (T, s) m" "sint T \<le> sint now" "log_fits k None (kv_storage s)"
    and "kv_remove io now k s = (st, s')" "kv_restart no_store_open_faults now s' = (st', s'')"
  shows "\<exists>m'. spec_step m (RemoveCrash now k) m' \<and> represents (now, s'') m'"
proof -
  obtain rs where R: "kv_opened s" "0 < sint (cfg_cleanupInterval (kv_config s))"
    "durable T s rs" "\<And>now. sint T \<le> sint now \<Longrightarrow> visible now (log_meaning rs) = visible now m"
    using assms(1) by (rule representsD) blast
  have ci: "0 < sint (cfg_cleanupInterval (kv_config s'))"
    using kv_remove_frame [OF assms(4)] R(2) by simp
  have old: "visible now' (log_meaning rs) = visible now' m" if h: "sint now \<le> sint now'" for now'
    using R(4) assms(2) h by simp
  have new: "visible now' (log_meaning (rs @ [delete_record k])) = visible now' (m(k := None))"
    if h: "sint now \<le> sint now'" for now'
    using old [OF h] by (simp add: log_meaning_append)
  have "represents (now, s'') m \<or> represents (now, s'') (m(k := None))"
    using R(3) assms(3,4,2)
  proof (cases rule: kv_remove_file)
    case removed
    from durable_restart_represents [OF removed(2) ci assms(5) new] show ?thesis by blast
  next
    case kept
    from durable_restart_represents [OF kept(2) ci assms(5) old] show ?thesis by blast
  next
    case uncertain
    from uncertain(5) show ?thesis
      using restart_represents [OF _ uncertain(3) ci assms(5) old]
        restart_represents [OF _ uncertain(3) ci assms(5) new] by blast
  qed
  with spec_remove_lost spec_remove_kept show ?thesis by blast
qed

section \<open>GET, EXISTS, KEYS and clean-up\<close>

lemma get_represents:
  assumes "represents (T, s) m" "sint T \<le> sint now" "kv_get io now k s = (r, s')"
  shows "represents (now, s') m" "observes (reply r) (visible now m k)"
proof -
  obtain rs where R: "kv_opened s" "0 < sint (cfg_cleanupInterval (kv_config s))" "kv_safe s"
    "durable T s rs" "\<And>now. sint T \<le> sint now \<Longrightarrow> visible now (kv_bindings s) = visible now m"
    using assms(1) by (rule representsD) blast
  note fr = kv_get_frame [OF assms(3) durable_index(4) [OF R(4)]]
  note dur = kv_get_durable [OF R(4) assms(3,2)]
  have same: "represents (now, s') m" if h: "kv_safe s'"
    "\<And>now'. sint now \<le> sint now' \<Longrightarrow> visible now' (kv_bindings s') = visible now' (kv_bindings s)"
    using h R(1,2,5) fr(3,4) dur assms(2) by (intro representsI [of s' now rs]) auto
  from R(3) assms(3) show "represents (now, s') m"
  proof (cases rule: kv_get_cases)
    case (absent st)
    have "visible now' (kv_bindings s') = visible now' (kv_bindings s)" if h: "sint now \<le> sint now'" for now'
      unfolding absent(6)
      by (rule visible_erase_expired [OF _ h]) (use absent(4) in \<open>auto simp: visible_def split: if_splits\<close>)
    with absent(5) show ?thesis by (rule same)
  next
    case hit
    then show ?thesis by (intro same) simp_all
  next
    case failed
    then show ?thesis by (intro same) simp_all
  qed
  from R(3) assms(3) show "observes (reply r) (visible now m k)"
    by (cases rule: kv_get_cases) (use R(5) [OF assms(2)] in \<open>auto simp: status_ok_def\<close>)
qed

lemma simulate_exists:
  assumes "represents (T, s) m" "sint T \<le> sint now" "kv_exists io now k s = (b, s')"
  shows "\<exists>m'. spec_step m (ExistsReply now k (reply b)) m' \<and> represents (now, s') m'"
proof -
  obtain r where get: "kv_get io now k s = (r, s')" and b:
    "b = (case r of Inr _ \<Rightarrow> Inr True
       | Inl st \<Rightarrow> if status_code st = NotFound then Inr False else Inl st)"
    using assms(3) by (auto simp: kv_exists_def split: prod.splits sum.splits if_splits)
  note g = get_represents [OF assms(1,2) get]
  have "spec_step m (ExistsReply now k (reply b)) m"
  proof (cases r)
    case (Inl st)
    with g(2) b show ?thesis
      using spec_exists_failed [of "status_code st" m now k] spec_exists_false [of now m k]
      by (cases "visible now m k") auto
  next
    case (Inr v)
    with g(2) b show ?thesis
      using spec_exists_true [of now m k] by (cases "visible now m k") auto
  qed
  with g(1) show ?thesis by blast
qed

lemma sweep_represents:
  assumes "represents (T, s) m" "sint T \<le> sint now" "kv_cleanupExpired now s = (n, s')"
  shows "represents (now, s') m"
proof -
  obtain rs where R: "kv_opened s" "0 < sint (cfg_cleanupInterval (kv_config s))" "kv_safe s"
    "durable T s rs" "\<And>now. sint T \<le> sint now \<Longrightarrow> visible now (kv_bindings s) = visible now m"
    using assms(1) by (rule representsD) blast
  note cl = kv_cleanup_safe [OF R(3,1) assms(3)]
  have "durable now s' rs"
    by (rule sweep_durable [OF R(4) kv_safe_distinct [OF R(3)] assms(2) cl(6)])
      (simp_all add: cl(5) durable_index(4) [OF R(4)])
  then show ?thesis
    using R(2,5) cl(1,2,7,8) assms(2) visible_drop_expired
    by (intro representsI [of s' now rs]) auto
qed

lemma simulate_keys:
  assumes "represents (T, s) m" "sint T \<le> sint now" "kv_keys now p s = (Inr ks, s')"
  shows "\<exists>m'. spec_step m (KeysReply now p ks) m' \<and> represents (now, s') m'"
proof -
  obtain rs where R: "kv_opened s" "kv_safe s"
    "\<And>now. sint T \<le> sint now \<Longrightarrow> visible now (kv_bindings s) = visible now m"
    using assms(1) by (rule representsD) blast
  have "ks = sorted_list_of_set {k. hasPrefix p k \<and> visible now m k \<noteq> None}"
    using kv_keys_safe(1) [OF R(2,1) assms(3)] R(3) [OF assms(2)] by simp
  moreover have "\<exists>n. kv_cleanupExpired now s = (n, s')"
    using assms(3) R(1) by (auto simp: kv_keys_def keys_section_def Let_def) (metis prod.collapse)
  then have "represents (now, s') m"
    using sweep_represents [OF assms(1,2)] by blast
  ultimately show ?thesis
    using spec_keys by metis
qed

section \<open>COMPACT and restart\<close>

lemma visible_domain_card:
  assumes "kv_safe s"
  shows "length (live_entries now (kv_index s)) = card {k. visible now (kv_bindings s) k \<noteq> None}"
proof -
  note d = kv_safe_distinct [OF assms]
  have "set (map fst (live_entries now (kv_index s))) = {k. visible now (kv_bindings s) k \<noteq> None}"
  proof (rule set_eqI)
    fix k
    have "k \<in> set (map fst (live_entries now (kv_index s))) \<longleftrightarrow>
        map_of (live_entries now (kv_index s)) k \<noteq> None"
      by (simp only: map_of_eq_None_iff not_not set_map)
    also have "\<dots> \<longleftrightarrow> visible now (kv_bindings s) k \<noteq> None"
      unfolding map_of_unexpired [OF d] visible_kv_bindings kv_values_def
      by (simp split: option.split)
    finally show "k \<in> set (map fst (live_entries now (kv_index s))) \<longleftrightarrow>
        k \<in> {k. visible now (kv_bindings s) k \<noteq> None}" by (simp only: mem_Collect_eq)
  qed
  from arg_cong [OF this, of card] show ?thesis
    unfolding distinct_card [OF distinct_map_fst_filter [OF d]] length_map .
qed

lemma kv_compact_frame:
  assumes "kv_compact io now s = (c, s')"
  shows "kv_opened s' = kv_opened s \<and> kv_config s' = kv_config s"
proof (cases "kv_opened s")
  case False
  with assms show ?thesis by (simp add: kv_compact_def compact_locked_def)
next
  case True
  obtain kept cache expired where sweep:
    "compactSweep now (kv_index s) (kv_cache s) (kv_expiredKeys s) = (kept, cache, expired)"
    by (rule prod_cases3)
  obtain r st1 where cl: "collectLive (sc_read io) 0 kept (kv_storage s) = (r, st1)" by fastforce
  show ?thesis
  proof (cases r)
    case Inl
    with assms True sweep cl show ?thesis by (auto simp: kv_compact_def compact_locked_def Let_def)
  next
    case (Inr recs)
    obtain r2 st2 where "aos_compact (sc_compact io) (sort_key rec_key recs) st1 = (r2, st2)" by fastforce
    with assms True sweep cl Inr show ?thesis
      by (cases r2) (auto simp: kv_compact_def compact_locked_def Let_def)
  qed
qed

lemma simulate_compact:
  assumes "represents (T, s) m" "sint T \<le> sint now" "kv_compact io now s = (c, s')" "not_stranded io s'"
  shows "\<exists>m'. spec_step m (CompactReply now (map_sum id sum_liveKeys (reply c))) m' \<and> represents (now, s') m'"
proof -
  obtain rs where R: "kv_opened s" "0 < sint (cfg_cleanupInterval (kv_config s))" "kv_safe s"
    "durable T s rs" "\<And>now. sint T \<le> sint now \<Longrightarrow> visible now (kv_bindings s) = visible now m"
    using assms(1) by (rule representsD) blast
  note fr = kv_compact_frame [OF assms(3)]
  note lb = durable_live_bytes(2) [OF R(4,3)]
  have vis: "visible now' (drop_expired now (kv_bindings s)) = visible now' m"
    if h: "sint now \<le> sint now'" for now'
    using visible_drop_expired [OF h] R(5) [of now'] assms(2) h by simp
  have keep: "\<exists>rs'. durable now s' rs'" if h: "c = Inr x \<or> contents (kv_storage s') = contents (kv_storage s) \<and>
      kv_safe s' \<and> kv_index s' = live_entries now (kv_index s)" for x
  proof -
    from R(4,3,1) assms(2,3) show ?thesis
    proof (cases rule: kv_compact_file)
      case clean
      then show ?thesis by blast
    next
      case lost: (stranded rs' st)
      with h have "contents (kv_storage s') = contents (kv_storage s)"
        "kv_index s' = live_entries now (kv_index s)" by auto
      with sweep_durable [OF R(4) kv_safe_distinct [OF R(3)] assms(2)] lost(4) show ?thesis by blast
    qed
  qed
  from R(3) lb assms(3) [unfolded kv_compact_opened [OF R(1)]] show ?thesis
  proof (cases rule: compact_locked_cases)
    case (compacted summary)
    have "sum_liveKeys summary = card {k. visible now m k \<noteq> None}"
      using compacted(5) visible_domain_card [OF R(3)] R(5) [OF assms(2)] by simp
    then have "spec_step m (CompactReply now (map_sum id sum_liveKeys (reply c))) m"
      using compacted(1) spec_compact [of m now] by simp
    moreover obtain rs' where "durable now s' rs'" using keep compacted(1) by blast
    then have "represents (now, s') m"
      by (rule representsI [rotated 3]) (use compacted(2,3) R(1,2) fr vis in simp_all)
    ultimately show ?thesis by blast
  next
    case (unchanged st)
    then have "spec_step m (CompactReply now (map_sum id sum_liveKeys (reply c))) m"
      by (auto simp: status_ok_def intro: spec_compact_failed)
    moreover obtain rs' where "durable now s' rs'" using keep unchanged by blast
    then have "represents (now, s') m"
      by (rule representsI [rotated 3]) (use unchanged(3,4) R(1,2) fr vis in simp_all)
    ultimately show ?thesis by blast
  next
    case stranded
    with assms(4) show ?thesis by (simp add: not_stranded_def)
  qed
qed

lemma simulate_compact_crash:
  assumes "represents (T, s) m" "sint T \<le> sint now" "kv_compact io now s = (c, s')"
    and "kv_restart no_store_open_faults now s' = (st', s'')"
  shows "represents (now, s'') m"
proof -
  obtain rs where R: "kv_opened s" "0 < sint (cfg_cleanupInterval (kv_config s))" "kv_safe s"
    "durable T s rs" "\<And>now. sint T \<le> sint now \<Longrightarrow> visible now (log_meaning rs) = visible now m"
    using assms(1) by (rule representsD) blast
  have ci: "0 < sint (cfg_cleanupInterval (kv_config s'))"
    using kv_compact_frame [OF assms(3)] R(2) by simp
  have old: "visible now' (log_meaning rs) = visible now' m" if h: "sint now \<le> sint now'" for now'
    using R(5) assms(2) h by simp
  from R(4,3,1) assms(2,3) show ?thesis
  proof (cases rule: kv_compact_file)
    case (clean rs')
    show ?thesis
      by (rule durable_restart_represents [OF clean(2) ci assms(4)]) (simp add: clean(5) old)
  next
    case lost: (stranded rs' st)
    show ?thesis
      by (rule restart_represents [OF lost(3,4) ci assms(4)]) (simp add: lost(6) old)
  qed
qed

lemma simulate_restart:
  assumes "represents (T, s) m" "sint T \<le> sint now" "kv_restart no_store_open_faults now s = (st, s')"
  shows "represents (now, s') m"
proof -
  obtain rs where R: "0 < sint (cfg_cleanupInterval (kv_config s))" "durable T s rs"
    "\<And>now. sint T \<le> sint now \<Longrightarrow> visible now (log_meaning rs) = visible now m"
    using assms(1) by (rule representsD) blast
  show ?thesis
    by (rule durable_restart_represents [OF R(2,1) assms(3)]) (use R(3) assms(2) in simp)
qed

declare represents.simps [simp del]

interpretation engine: trace_simulation engine_step spec_step represents
proof unfold_locales
  fix c m ev c'
  assume "represents c m" "engine_step c ev c'"
  moreover obtain T s where "c = (T, s)" by fastforce
  ultimately have R: "represents (T, s) m" and step: "engine_step (T, s) ev c'" by simp_all
  from step show "\<exists>m'. spec_step m ev m' \<and> represents c' m'"
  proof (cases rule: engine_step.cases)
    case step_set
    with simulate_set [OF R step_set(3-6)] show ?thesis by simp
  next
    case step_set_crash
    with simulate_set_crash [OF R step_set_crash(3-6)] show ?thesis by simp
  next
    case step_get
    with get_represents [OF R step_get(3,4)] show ?thesis by (auto intro: spec_get)
  next
    case step_exists
    with simulate_exists [OF R step_exists(3,4)] show ?thesis by simp
  next
    case step_remove
    with simulate_remove [OF R step_remove(3-6)] show ?thesis by simp
  next
    case step_remove_crash
    with simulate_remove_crash [OF R step_remove_crash(3-6)] show ?thesis by simp
  next
    case step_keys
    with simulate_keys [OF R step_keys(3,4)] show ?thesis by simp
  next
    case step_cleanup
    with sweep_represents [OF R step_cleanup(3,4)] show ?thesis by (auto intro: spec_cleanup)
  next
    case step_compact
    with simulate_compact [OF R step_compact(3-5)] show ?thesis by simp
  next
    case step_compact_crash
    with simulate_compact_crash [OF R step_compact_crash(3-5)] show ?thesis
      by (auto intro: spec_compact_crash)
  next
    case step_restart
    with simulate_restart [OF R step_restart(3,4)] show ?thesis by (auto intro: spec_restart)
  qed
qed

end
