(* ===== verification/Session.thy ===== *)
theory Session
  imports Shell StoreRefinement
begin

text \<open>
  The whole program against its specification. The specification of a session works on a map with
  expiry times and the size of the data file: \<open>spec_command\<close> gives the text that a command prints
  and the new map and size, \<open>spec_session\<close> the output of a session. Neither knows of index, cache,
  file contents or the cleaner. The program prints exactly this text, and the file it leaves says
  what the final map says. STATS, whose counters the map does not determine, is left out.
\<close>

section \<open>The specification\<close>

text \<open>The bytes of a log with one record for each binding.\<close>

definition map_bytes :: "(string \<rightharpoonup> string) \<Rightarrow> nat" where
  "map_bytes v = (\<Sum>k \<in> dom v. kRecordHeaderSize + length k + length (the (v k)))"

definition set_error :: "string \<Rightarrow> string \<Rightarrow> Status" where
  "set_error k v =
     (if bad_key k then validateKey k
      else if kMaximumValueSize < length v then invalidArgument ''value exceeds 16 MiB''
      else invalidArgument ''TTL must be greater than zero'')"

type_synonym spec_store = "ttl_map \<times> nat"

text \<open>What a command on a key prints if the key is valid.\<close>

definition key_text :: "string \<Rightarrow> string \<Rightarrow> string" where
  "key_text k answer = (if bad_key k then error_text (validateKey k) else answer) @ [newline]"

fun spec_set :: "i64 \<Rightarrow> string \<Rightarrow> string \<Rightarrow> i64 option \<Rightarrow> spec_store \<Rightarrow> string \<times> spec_store" where
  "spec_set now k v ttl (m, n) =
     (case set_expiry now k v ttl of
        None \<Rightarrow> (error_text (set_error k v) @ [newline], m, n)
      | Some e \<Rightarrow> (''OK'' @ [newline], m(k \<mapsto> (v, e)), n + kRecordHeaderSize + length k + length v))"

fun spec_delete :: "i64 \<Rightarrow> string \<Rightarrow> spec_store \<Rightarrow> string \<times> spec_store" where
  "spec_delete now k (m, n) =
     (if bad_key k \<or> visible now m k = None then (key_text k ''0'', m, n)
      else (key_text k ''1'', m(k := None), n + kRecordHeaderSize + length k))"

fun spec_compact_text :: "i64 \<Rightarrow> spec_store \<Rightarrow> string \<times> spec_store" where
  "spec_compact_text now (m, n) =
     (''OK: '' @ to_string (card (dom (visible now m))) @ '' live key(s), '' @ to_string n @ '' -> '' @
        to_string (map_bytes (visible now m)) @ '' bytes'' @ [newline], m, map_bytes (visible now m))"

fun spec_command :: "i64 \<Rightarrow> Command \<Rightarrow> spec_store \<Rightarrow> string \<times> spec_store" where
  "spec_command now c (m, n) =
     (case cmd_type c of
        CmdSet \<Rightarrow> spec_set now (cmd_key c) (cmd_value c) (cmd_ttl c) (m, n)
      | CmdGet \<Rightarrow>
          (key_text (cmd_key c) (case visible now m (cmd_key c) of None \<Rightarrow> ''(nil)'' | Some v \<Rightarrow> v), m, n)
      | CmdDelete \<Rightarrow> spec_delete now (cmd_key c) (m, n)
      | CmdExists \<Rightarrow>
          (key_text (cmd_key c) (if visible now m (cmd_key c) = None then ''0'' else ''1''), m, n)
      | CmdKeys \<Rightarrow>
          (keys_text (sorted_list_of_set {k. hasPrefix (cmd_key c) k \<and> visible now m k \<noteq> None}) @ [newline],
           m, n)
      | CmdStats \<Rightarrow> ([], m, n)
      | CmdCompact \<Rightarrow> spec_compact_text now (m, n)
      | CmdHelp \<Rightarrow> (help_text, m, n)
      | CmdExit \<Rightarrow> (''Bye.'' @ [newline], m, n))"

fun spec_session :: "(LineEnv \<times> string) list \<Rightarrow> spec_store \<Rightarrow> string \<times> spec_store" where
  "spec_session [] st = (prompt @ [newline], st)"
| "spec_session ((env, line) # lines) st =
     (case parse line of
        Inl e \<Rightarrow> map_prod (\<lambda>out. prompt @ error_text e @ [newline] @ out) id (spec_session lines st)
      | Inr c \<Rightarrow>
          (case spec_command (le_now env) c st of
             (shown, st') \<Rightarrow>
               if cmd_type c = CmdExit then (prompt @ shown, st')
               else map_prod (\<lambda>out. prompt @ shown @ out) id (spec_session lines st')))"

text \<open>
  The sessions meant: no call fails, the clock does not run backwards, no line asks for STATS.
  \<open>session_end\<close> is the last clock reading.
\<close>

fun session_ok :: "i64 \<Rightarrow> (LineEnv \<times> string) list \<Rightarrow> bool" where
  "session_ok T [] \<longleftrightarrow> True"
| "session_ok T ((env, line) # lines) \<longleftrightarrow>
     env = calm (le_passes env) (le_now env) \<and>
     sorted (map sint (T # le_passes env @ [le_now env])) \<and>
     (case parse line of Inl _ \<Rightarrow> True | Inr c \<Rightarrow> cmd_type c \<noteq> CmdStats) \<and>
     session_ok (le_now env) lines"

fun session_end :: "i64 \<Rightarrow> (LineEnv \<times> string) list \<Rightarrow> i64" where
  "session_end T [] = T"
| "session_end T ((env, line) # lines) = session_end (le_now env) lines"

section \<open>The engine represents map and size\<close>

fun stands_for :: "engine_state \<Rightarrow> spec_store \<Rightarrow> bool" where
  "stands_for (T, s) (m, n) \<longleftrightarrow> represents (T, s) m \<and> length (contents (kv_storage s)) = n"

lemma represents_mono:
  assumes "represents (T, s) m" "sint T \<le> sint T'"
  shows "represents (T', s) m"
proof -
  obtain rs where R: "kv_opened s" "0 < sint (cfg_cleanupInterval (kv_config s))" "kv_safe s"
    "durable T s rs" "\<And>now. sint T \<le> sint now \<Longrightarrow> visible now (kv_bindings s) = visible now m"
    using assms(1) by (rule representsD) blast
  show ?thesis
    by (rule representsI [OF R(1-3) durable_mono [OF R(4) assms(2)]]) (use R(5) assms(2) in auto)
qed

lemma representsD_store:
  assumes "represents (T, s) m" "sint T \<le> sint now"
  shows "kv_opened s" "kv_safe s" "data_file (disk (kv_storage s)) \<noteq> None"
    "visible now (kv_bindings s) = visible now m"
proof -
  obtain rs where R: "kv_opened s" "kv_safe s" "durable T s rs"
    "\<And>now. sint T \<le> sint now \<Longrightarrow> visible now (kv_bindings s) = visible now m"
    using assms(1) by (rule representsD) blast
  show "kv_opened s" "kv_safe s" "data_file (disk (kv_storage s)) \<noteq> None"
    "visible now (kv_bindings s) = visible now m"
    using R(1,2) R(4) [OF assms(2)] durable_index(4) [OF R(3)] by simp_all
qed

text \<open>The passes of the cleaner are invisible.\<close>

lemma passes_stand_for:
  assumes "stands_for (T, s) (m, n)" "sorted (map sint (T # ps @ [now]))"
  shows "stands_for (now, cleanerLoop (map WakeTimeout ps) s) (m, n)"
  using assms
proof (induction ps arbitrary: T s)
  case Nil
  then show ?case
    using represents_mono [of T s m now] by (simp add: cleanerLoop.simps)
next
  case (Cons t ps)
  show ?case
  proof (cases "kv_stopRequested s")
    case True
    with Cons.prems represents_mono [of T s m now] show ?thesis by (simp add: cleanerLoop.simps)
  next
    case False
    obtain x s' where cl: "kv_cleanupExpired t s = (x, s')" by fastforce
    have T: "sint T \<le> sint t" "represents (T, s) m" using Cons.prems by simp_all
    have "kv_storage s' = kv_storage s"
      using kv_cleanup_safe(5) [OF _ _ cl] representsD_store(1,2) [OF T(2,1)] by blast
    then have "stands_for (t, s') (m, n)"
      using sweep_represents [OF T(2,1) cl] Cons.prems(1) by simp
    with Cons.IH [of t s'] Cons.prems(2) False cl show ?thesis
      by (subst cleanerLoop.simps) simp
  qed
qed

section \<open>Every command does what the specification says\<close>

text \<open>An append needs at most 28 bytes, 4 KiB and 16 MiB.\<close>

definition record_limit :: nat where
  "record_limit = 16781340"

lemma stands_for_log:
  assumes "stands_for (T, s) (m, n)"
  obtains rs where "durable T s rs" "length (log_bytes rs) = n" "\<forall>r \<in> set rs. validRecord r"
proof -
  from assms have R: "represents (T, s) m" and n: "length (contents (kv_storage s)) = n" by simp_all
  from R obtain rs where d: "durable T s rs" by (rule representsD) blast
  from durable_index(3) [OF d] n have "length (log_bytes rs) = n" "\<forall>r \<in> set rs. validRecord r"
    by (simp_all add: log_of_def)
  with d show ?thesis by (rule that)
qed

lemma durable_size: "durable T s rs \<Longrightarrow> length (contents (kv_storage s)) = length (log_bytes rs)"
  using durable_index(3) [of T s rs] by (simp add: log_of_def)

lemma set_error_checks:
  assumes "kv_opened s" "set_expiry now k v ttl = None"
  shows "set_checks k v ttl now s = Inl (set_error k v)"
  using assms by (auto simp: set_expiry_def set_checks_result set_error_def split: option.splits if_splits)

lemma set_stands_for:
  assumes R: "stands_for (T, s) (m, n)" and T: "sint T \<le> sint now" and n: "n + record_limit < 2 ^ 63"
    and run: "kv_set no_append_faults now k v ttl s = (st, s')"
  shows "(case set_expiry now k v ttl of
      None \<Rightarrow> st = set_error k v \<and> stands_for (now, s') (m, n)
    | Some e \<Rightarrow> st = Status_success \<and>
        stands_for (now, s') (m(k \<mapsto> (v, e)), n + kRecordHeaderSize + length k + length v))"
proof (cases "set_expiry now k v ttl")
  case None
  have op: "kv_opened s" using representsD_store(1) R T by auto
  have "st = set_error k v" "s' = s"
    using run set_error_checks [OF op None] by (simp_all add: kv_set_def)
  with None R represents_mono [OF _ T] show ?thesis by simp
next
  case (Some e)
  have st: "kv_opened s" "log_ready (kv_storage s)" "length (contents (kv_storage s)) = n"
    using representsD_store [of T s m now] kv_safeD [of s] R T by (auto simp: coherent_def)
  have e: "set_checks k v ttl now s = Inr e"
    using Some set_expiry_checks(1) [OF st(1)] by blast
  have ok: "st = Status_success"
    using kv_set_no_faults [OF e st(2)] run by simp
  have "record_size (set_record k v e) \<le> record_limit"
    using record_size_bound [OF set_checks_InrD(2) [OF e]] by (simp add: record_limit_def)
  then have fits: "log_fits k (Some v) (kv_storage s)"
    using n st(3) by (simp add: log_fits_def record_size_def)
  obtain m' where "spec_step m (SetReply now k v ttl (status_code st)) m'" "represents (now, s') m'"
    using simulate_set [OF _ T fits run] R ok by auto
  then have "represents (now, s') (m(k \<mapsto> (v, e)))"
    by (cases rule: spec_setE) (use ok Some in auto)
  moreover obtain rs where rs: "durable T s rs" "length (log_bytes rs) = n"
    using R by (rule stands_for_log) blast
  have "length (contents (kv_storage s')) = n + record_size (set_record k v e)"
    using rs(1) fits run
    by (cases rule: kv_set_file) (use ok e rs(2) durable_size in auto)
  ultimately show ?thesis
    using Some ok by (simp add: record_size_def)
qed

lemma remove_stands_for:
  assumes R: "stands_for (T, s) (m, n)" and T: "sint T \<le> sint now" and n: "n + record_limit < 2 ^ 63"
    and run: "kv_remove no_append_faults now k s = (st, s')"
  shows "if bad_key k then st = validateKey k \<and> stands_for (now, s') (m, n)
    else if visible now m k = None then status_code st = NotFound \<and> stands_for (now, s') (m, n)
    else st = Status_success \<and> stands_for (now, s') (m(k := None), n + kRecordHeaderSize + length k)"
proof (cases "bad_key k")
  case True
  have op: "kv_opened s" using representsD_store(1) R T by auto
  have "st = validateKey k" "s' = s"
    using run op True by (simp_all add: kv_remove_def remove_checks_def remove_locked_def validateKey_code)
  with True R represents_mono [OF _ T] show ?thesis by simp
next
  case False
  have st: "kv_opened s" "kv_safe s" "length (contents (kv_storage s)) = n"
    "visible now (kv_bindings s) = visible now m"
    using representsD_store [of T s m now] R T by auto
  have code: "status_code st = (if visible now m k = None then NotFound else Ok)"
    using kv_remove_no_faults [OF st(2,1), of now k] run False st(4) by simp
  have "length k \<le> 4096"
    using False by (simp add: bad_key_def format_constants)
  then have fits: "log_fits k None (kv_storage s)"
    using n st(3) by (simp add: log_fits_def record_limit_def format_constants)
  obtain m' where "spec_step m (RemoveReply now k (status_code st)) m'" "represents (now, s') m'"
    using simulate_remove [OF _ T fits run] R code by (auto split: if_splits)
  then have rep: "represents (now, s') (if visible now m k = None then m else m(k := None))"
    by (cases rule: spec_removeE) (use code False in \<open>auto split: if_splits\<close>)
  obtain rs where rs: "durable T s rs" "length (log_bytes rs) = n"
    using R by (rule stands_for_log) blast
  have size: "status_ok st \<and> st = Status_success \<and>
      length (contents (kv_storage s')) = n + kRecordHeaderSize + length k \<or>
    \<not> status_ok st \<and> length (contents (kv_storage s')) = n"
    using rs(1) fits run T
  proof (cases rule: kv_remove_file)
    case removed
    with durable_size [OF removed(2)] rs(2) show ?thesis
      by (simp add: record_size_def)
  next
    case kept
    with durable_size [OF kept(2)] rs(2) show ?thesis by simp
  next
    case uncertain
    then show ?thesis using code by (auto simp: status_ok_def split: if_splits)
  qed
  with code rep False show ?thesis
    by (auto simp: status_ok_def split: if_splits)
qed

lemma get_stands_for:
  assumes R: "stands_for (T, s) (m, n)" and T: "sint T \<le> sint now"
    and run: "kv_get no_value_faults now k s = (r, s')"
  shows "stands_for (now, s') (m, n)"
    "bad_key k \<Longrightarrow> r = Inl (validateKey k)"
    "\<not> bad_key k \<Longrightarrow> visible now m k = Some v \<Longrightarrow> r = Inr v"
    "\<not> bad_key k \<Longrightarrow> visible now m k = None \<Longrightarrow> \<exists>st. r = Inl st \<and> status_code st = NotFound"
proof -
  have R': "represents (T, s) m" using R by simp
  note st = representsD_store [OF R' T]
  have "contents (kv_storage s') = contents (kv_storage s)"
    by (rule kv_get_frame(1) [OF run st(3)])
  with get_represents(1) [OF R' T run] R show "stands_for (now, s') (m, n)" by simp
  have r: "r = (if bad_key k then Inl (validateKey k)
     else case visible now m k of
       Some v \<Rightarrow> Inr v
     | None \<Rightarrow> Inl (notFound (if map_of (kv_index s) k = None then ''key does not exist''
                          else ''key has expired'')))"
    using kv_get_no_faults [OF st(2,1), of now k] run by (simp add: st(4))
  then show "bad_key k \<Longrightarrow> r = Inl (validateKey k)"
    "\<not> bad_key k \<Longrightarrow> visible now m k = Some v \<Longrightarrow> r = Inr v"
    "\<not> bad_key k \<Longrightarrow> visible now m k = None \<Longrightarrow> \<exists>st. r = Inl st \<and> status_code st = NotFound"
    by simp_all
qed

lemma keys_stand_for:
  assumes R: "stands_for (T, s) (m, n)" and T: "sint T \<le> sint now"
    and run: "kv_keys now p s = (r, s')"
  shows "stands_for (now, s') (m, n)"
    "r = Inr (sorted_list_of_set {k. hasPrefix p k \<and> visible now m k \<noteq> None})"
proof -
  have R': "represents (T, s) m" using R by simp
  note st = representsD_store [OF R' T]
  obtain x s1 where cl: "kv_cleanupExpired now s = (x, s1)" by fastforce
  then have s': "s' = s1"
    using run st(1) by (auto simp: kv_keys_def keys_section_def Let_def)
  have "kv_storage s1 = kv_storage s"
    by (rule kv_cleanup_safe(5) [OF st(2,1) cl])
  with sweep_represents [OF R' T cl] R s' show "stands_for (now, s') (m, n)" by simp
  show "r = Inr (sorted_list_of_set {k. hasPrefix p k \<and> visible now m k \<noteq> None})"
    using kv_keys_safe(1) [OF st(2,1) run] by (simp add: st(4))
qed

text \<open>The live entries take the bytes of the visible map.\<close>

lemma live_entry_visible:
  assumes "kv_safe s" "(k, md) \<in> set (live_entries now (kv_index s))"
  shows "visible now (kv_bindings s) k = Some (slice (contents (kv_storage s)) md)"
    "length (slice (contents (kv_storage s)) md) = unat (md_valueSize md)"
proof -
  have md: "map_of (kv_index s) k = Some md" "\<not> isExpired (md_expiresAtMs md) now"
    using assms(2) kv_safe_distinct [OF assms(1)] by (simp_all add: map_of_eq_Some_iff)
  then show "visible now (kv_bindings s) k = Some (slice (contents (kv_storage s)) md)"
    by (simp add: visible_def kv_bindings_def)
  have "covered (log_holds (kv_storage s)) (map_of (kv_index s)) (kv_values s)"
    using kv_safeD [OF assms(1)] by (simp add: coherent_def)
  from covered_Some [OF this md(1)] obtain v where v: "stored_at (contents (kv_storage s)) md k v"
    by (auto simp: log_holds_def)
  show "length (slice (contents (kv_storage s)) md) = unat (md_valueSize md)"
    using stored_at_slice [OF v] by simp
qed

lemma live_bytes_visible:
  assumes "kv_safe s"
  shows "live_bytes (live_entries now (kv_index s)) = map_bytes (visible now (kv_bindings s))"
proof -
  let ?idx = "live_entries now (kv_index s)" and ?v = "visible now (kv_bindings s)"
  note d = distinct_map_fst_filter [OF kv_safe_distinct [OF assms]]
  have keys: "fst ` set ?idx = dom ?v"
  proof (rule set_eqI)
    fix k
    have "k \<in> fst ` set ?idx \<longleftrightarrow> map_of ?idx k \<noteq> None"
      by (simp only: map_of_eq_None_iff not_not)
    also have "\<dots> \<longleftrightarrow> k \<in> dom ?v"
      unfolding map_of_unexpired [OF kv_safe_distinct [OF assms]] domIff visible_kv_bindings kv_values_def
      by (simp split: option.split)
    finally show "k \<in> fst ` set ?idx \<longleftrightarrow> k \<in> dom ?v" .
  qed
  let ?f = "\<lambda>x. kRecordHeaderSize + length (fst x) + unat (md_valueSize (snd x))"
  let ?g = "\<lambda>k. kRecordHeaderSize + length k + length (the (?v k))"
  have fg: "?f x = ?g (fst x)" if "x \<in> set ?idx" for x
    using live_entry_visible [OF assms, of "fst x" "snd x" now] that by simp
  have "live_bytes ?idx = (\<Sum>x \<in> set ?idx. ?f x)"
    unfolding live_bytes_def by (rule sum_list_distinct_conv_sum_set) (use d distinct_map in blast)
  also have "\<dots> = (\<Sum>x \<in> set ?idx. ?g (fst x))"
    by (rule sum.cong [OF refl]) (rule fg)
  also have "\<dots> = (\<Sum>k \<in> fst ` set ?idx. ?g k)"
    by (rule sum.reindex [symmetric, unfolded o_def]) (use d distinct_map in blast)
  finally show ?thesis
    by (simp only: keys map_bytes_def)
qed

lemma compact_stands_for:
  assumes R: "stands_for (T, s) (m, n)" and T: "sint T \<le> sint now"
    and run: "kv_compact no_store_compact_faults now s = (r, s')"
  shows "\<exists>summary. r = Inr summary \<and> stands_for (now, s') (m, map_bytes (visible now m)) \<and>
    sum_liveKeys summary = card (dom (visible now m)) \<and>
    unat (sum_oldFileBytes summary) = n \<and> unat (sum_newFileBytes summary) = map_bytes (visible now m) \<and>
    map_bytes (visible now m) \<le> n"
proof -
  have R': "represents (T, s) m" and n: "length (contents (kv_storage s)) = n" using R by simp_all
  note st = representsD_store [OF R' T]
  from R obtain rs where dur: "durable T s rs" by (rule stands_for_log)
  note lb = durable_live_bytes [OF dur st(2)]
  have le: "map_bytes (visible now m) \<le> n"
    using live_bytes_filter lb(1)
    unfolding st(4) [symmetric] live_bytes_visible [OF st(2), symmetric] n by (rule le_trans)
  obtain summary where r: "r = Inr summary"
    using kv_compact_no_faults [OF st(2,1), of now] run by auto
  have eq: "length (log_bytes (compacted_log now s)) = map_bytes (visible now m)"
    by (simp only: compacted_log_facts(2) [OF st(2)] live_bytes_visible [OF st(2)] st(4))
  have n63: "n < 2 ^ 63"
    using durable_index(3) [OF dur] n unfolding log_of_def by blast
  have small: "map_bytes (visible now m) < 2 ^ 63"
    using live_bytes_filter lb(2) unfolding eq [symmetric] compacted_log_facts(2) [OF st(2)]
    by (rule le_less_trans)
  from st(2) lb(2) run [unfolded kv_compact_opened [OF st(1)]] show ?thesis
  proof (cases rule: compact_locked_cases)
    case (compacted summary')
    have "not_stranded no_store_compact_faults s'"
      using compacted(10) by (simp add: not_stranded_def)
    then obtain m' where "spec_step m (CompactReply now (map_sum id sum_liveKeys (reply r))) m'"
      "represents (now, s') m'"
      using simulate_compact [OF R' T run] by blast
    then have rep: "represents (now, s') m"
      by (cases rule: spec_compactE) (use r in auto)
    have "{k. visible now m k \<noteq> None} = dom (visible now m)" by (simp add: dom_def)
    then have "sum_liveKeys summary' = card (dom (visible now m))"
      using compacted(5) visible_domain_card [OF st(2), of now] by (simp add: st(4))
    moreover have "unat (of_nat n :: u64) = n" "unat (of_nat (map_bytes (visible now m)) :: u64) = map_bytes (visible now m)"
      using n63 small by (simp_all add: unat_of_nat_in_range)
    ultimately show ?thesis
      using compacted(1,4,6,7) rep n eq le by simp
  qed (use r in simp_all)
qed

text \<open>One command: the program prints what the specification says.\<close>

lemma command_stands_for:
  assumes R: "stands_for (T, s) (m, n)" and T: "sint T \<le> sint now" and n: "n + record_limit < 2 ^ 63"
    and c: "cmd_type c \<noteq> CmdStats" "cmd_type c \<noteq> CmdExit"
    and spec: "spec_command now c (m, n) = (shown, m', n')"
  shows "\<exists>s'. run_command percent (calm ps now) c s = (shown, False, s') \<and> stands_for (now, s') (m', n')"
proof (cases "cmd_type c")
  case CmdSet
  obtain st s' where run: "kv_set no_append_faults now (cmd_key c) (cmd_value c) (cmd_ttl c) s = (st, s')"
    by fastforce
  have "\<not> status_ok (set_error k v)" if "set_expiry now k v ttl = None" for k v ttl
    by (auto simp: set_error_def validateKey_code)
  with set_stands_for [OF R T n run] spec CmdSet run show ?thesis
    by (auto simp: run_command_def split: option.splits)
next
  case CmdGet
  obtain r s' where run: "kv_get no_value_faults now (cmd_key c) s = (r, s')" by fastforce
  from get_stands_for [OF R T run] spec CmdGet run show ?thesis
    by (cases "bad_key (cmd_key c)"; cases "visible now m (cmd_key c)")
      (auto simp: run_command_def key_text_def validateKey_code)
next
  case CmdDelete
  obtain st s' where run: "kv_remove no_append_faults now (cmd_key c) s = (st, s')" by fastforce
  from remove_stands_for [OF R T n run] spec CmdDelete run show ?thesis
    by (auto simp: run_command_def key_text_def validateKey_code status_ok_def split: if_splits)
next
  case CmdExists
  obtain r s' where run: "kv_get no_value_faults now (cmd_key c) s = (r, s')" by fastforce
  from get_stands_for [OF R T run] spec CmdExists run show ?thesis
    by (cases "bad_key (cmd_key c)"; cases "visible now m (cmd_key c)")
      (auto simp: run_command_def kv_exists_def key_text_def validateKey_code)
next
  case CmdKeys
  obtain r s' where run: "kv_keys now (cmd_key c) s = (r, s')" by fastforce
  from keys_stand_for [OF R T run] spec CmdKeys run show ?thesis
    by (auto simp: run_command_def)
next
  case CmdCompact
  obtain r s' where run: "kv_compact no_store_compact_faults now s = (r, s')" by fastforce
  from compact_stands_for [OF R T run] spec CmdCompact run show ?thesis
    by (auto simp: run_command_def compact_text_def)
next
  case CmdHelp
  with spec R represents_mono [OF _ T] show ?thesis
    by (auto simp: run_command_def)
qed (use c in simp_all)

text \<open>A command makes the file longer by at most one record.\<close>

lemma spec_command_size:
  assumes R: "stands_for (T, s) (m, n)" and T: "sint T \<le> sint now"
    and spec: "spec_command now c (m, n) = (shown, m', n')"
  shows "n' \<le> n + record_limit"
proof -
  obtain r s' where run: "kv_compact no_store_compact_faults now s = (r, s')" by fastforce
  have "map_bytes (visible now m) \<le> n"
    using compact_stands_for [OF R T run] by auto
  moreover have "kRecordHeaderSize + length k + length v \<le> record_limit"
    if "set_expiry now k v ttl = Some e" for k v ttl e
    using that by (auto simp: set_expiry_def bad_key_def record_limit_def format_constants split: if_splits)
  moreover have "kRecordHeaderSize + length k \<le> record_limit" if "\<not> bad_key k" for k
    using that by (simp add: bad_key_def record_limit_def format_constants)
  ultimately show ?thesis
    using spec by (force split: CommandType.splits option.splits if_splits)
qed

section \<open>Sessions\<close>

text \<open>The file left behind: a complete log that says what the map says from then on.\<close>

fun leaves :: "i64 \<times> KeyValueStore \<Rightarrow> spec_store \<Rightarrow> bool" where
  "leaves (T, s) (m, n) \<longleftrightarrow>
     (\<exists>rs. data_file (disk (kv_storage s)) = Some (log_bytes rs) \<and> log_of (log_bytes rs) rs [] \<and>
       length (log_bytes rs) = n \<and>
       (\<forall>t. sint T \<le> sint t \<longrightarrow> visible t (log_meaning rs) = visible t m))"

lemma stands_for_leaves:
  assumes "stands_for (T, s) (m, n)"
  shows "leaves (T, snd (kv_close s)) (m, n)"
proof -
  from assms have R: "represents (T, s) m" and n: "length (contents (kv_storage s)) = n" by simp_all
  from R obtain rs where d: "durable T s rs"
    and vis: "\<And>now. sint T \<le> sint now \<Longrightarrow> visible now (log_meaning rs) = visible now m"
    by (rule representsD) blast
  have "kv_storage (snd (kv_close s)) = kv_storage s"
    by (simp add: kv_close_def Let_def)
  moreover have log: "log_of (contents (kv_storage s)) rs []" "data_file (disk (kv_storage s)) \<noteq> None"
    using durable_index(3,4) [OF d] by simp_all
  moreover from this have "contents (kv_storage s) = log_bytes rs"
    "data_file (disk (kv_storage s)) = Some (contents (kv_storage s))"
    by (auto simp: log_of_def contents_Some)
  ultimately show ?thesis
    using n vis by auto
qed

lemma leaves_mono: "leaves (T, s) st \<Longrightarrow> sint T \<le> sint T' \<Longrightarrow> leaves (T', s) st"
  by (cases st) fastforce

lemma session_end_mono: "session_ok T lines \<Longrightarrow> sint T \<le> sint (session_end T lines)"
proof (induction lines arbitrary: T)
  case (Cons x lines)
  obtain env line where x: "x = (env, line)" by fastforce
  with Cons have "sint T \<le> sint (le_now env)" "sint (le_now env) \<le> sint (session_end (le_now env) lines)"
    by simp_all
  with x show ?case by simp
qed simp

declare stands_for.simps [simp del] leaves.simps [simp del] spec_command.simps [simp del]

lemma session_refines:
  assumes "stands_for (T, s) (m, n)" "session_ok T lines" "n + record_limit * length lines < 2 ^ 63"
  shows "fst (repl percent lines s) = fst (spec_session lines (m, n)) \<and>
    leaves (session_end T lines, snd (repl percent lines s)) (snd (spec_session lines (m, n)))"
  using assms
proof (induction lines arbitrary: T s m n)
  case Nil
  then show ?case
    using stands_for_leaves by (simp add: repl.simps)
next
  case (Cons x lines)
  obtain env line where x: "x = (env, line)" by fastforce
  let ?now = "le_now env" and ?s = "cleanerLoop (map WakeTimeout (le_passes env)) s"
  have env: "env = calm (le_passes env) ?now" and T: "sorted (map sint (T # le_passes env @ [?now]))"
    and rest: "session_ok ?now lines"
    using Cons.prems(2) x by simp_all
  have R: "stands_for (?now, ?s) (m, n)"
    by (rule passes_stand_for [OF Cons.prems(1) T])
  have n: "n + record_limit < 2 ^ 63" "n + record_limit * length lines < 2 ^ 63"
    using Cons.prems(3) by simp_all
  show ?case
  proof (cases rule: repl_cases [of line percent env lines s])
    case (rejected e)
    with Cons.IH [OF R rest n(2)] x show ?thesis by simp
  next
    case (left c reply s')
    then have "cmd_type c = CmdExit" "s' = snd (kv_close ?s)" "reply = ''Bye.'' @ [newline]"
      using run_command_exit [OF left(2)] by simp_all
    moreover have "leaves (session_end T (x # lines), snd (kv_close ?s)) (m, n)"
      by (rule leaves_mono [OF stands_for_leaves [OF R]]) (use session_end_mono [OF rest] x in simp)
    ultimately show ?thesis using left x by (simp add: spec_command.simps)
  next
    case (next_line c reply s')
    obtain shown m1 n1 where spec: "spec_command ?now c (m, n) = (shown, m1, n1)"
      by (rule prod_cases3)
    have c: "cmd_type c \<noteq> CmdStats" "cmd_type c \<noteq> CmdExit"
      using Cons.prems(2) x next_line(1) run_command_exit [OF next_line(2)] by simp_all
    have s1: "reply = shown" "stands_for (?now, s') (m1, n1)"
      using command_stands_for [OF R _ n(1) c spec, of percent "le_passes env"] env next_line(2) by auto
    have n1: "n1 + record_limit * length lines < 2 ^ 63"
      using spec_command_size [OF R _ spec] Cons.prems(3) by simp
    from Cons.IH [OF s1(2) rest n1] s1(1) next_line spec c(2) x show ?thesis by simp
  qed
qed

section \<open>The program\<close>

text \<open>A directory without the data file is one with an empty file.\<close>

definition log_bytes_of :: "FileSystem \<Rightarrow> string" where
  "log_bytes_of fs = (case data_file fs of None \<Rightarrow> [] | Some bs \<Rightarrow> bs)"

lemma kv_open_fresh:
  assumes "data_file fs = None"
  shows "kv_open no_store_open_faults now (KeyValueStore_new cfg fs) =
    kv_open no_store_open_faults now (KeyValueStore_new cfg (fs\<lparr>data_file := Some []\<rparr>)) \<or>
    sint (cfg_cleanupInterval cfg) \<le> 0"
  using assms
  by (simp add: kv_open_def KeyValueStore_new_def AppendOnlyStore_new_def aos_open_def
      calm_env set_contents_def)

lemma kv_open_any:
  assumes "log_of (log_bytes_of fs) rs tail" "0 < sint (cfg_cleanupInterval cfg)"
    and "kv_open no_store_open_faults now (KeyValueStore_new cfg fs) = (st, s)"
  shows "st = Status_success" "stands_for (now, s) (log_meaning rs, length (log_bytes rs))"
proof -
  obtain fs' where df: "data_file fs' = Some (log_bytes_of fs)"
    and run: "kv_open no_store_open_faults now (KeyValueStore_new cfg fs') = (st, s)"
  proof (cases "data_file fs")
    case None
    with kv_open_fresh [OF None, of now cfg] assms(2,3) that [of "fs\<lparr>data_file := Some []\<rparr>"] show ?thesis
      by (simp add: log_bytes_of_def)
  next
    case (Some bs)
    with assms(3) that [of fs] show ?thesis by (simp add: log_bytes_of_def)
  qed
  note op = kv_open_log [OF assms(1) df assms(2) run]
  show "st = Status_success" by (rule op(1))
  have "represents (now, s) (log_meaning rs)"
    using op(2-4) assms(2) durable_visible [OF op(5)] by (intro representsI [OF _ _ _ op(5)]) auto
  then show "stands_for (now, s) (log_meaning rs, length (log_bytes rs))"
    using durable_size [OF op(5)] by (simp add: stands_for.simps)
qed

end
