(* ===== verification/Concurrency.thy ===== *)
theory Concurrency
  imports StoreRefinement
begin

text \<open>
  The engine with several threads, at the granularity of its locks. A thread runs a method as a
  sequence of atomic sections; between two of them any other thread may run. \<^verbatim>\<open>indexMutex_\<close> is
  held in shared mode by a GET from its lookup to its cache fill, and those of several threads
  overlap: each call on the cache and on the storage, which have mutexes of their own, is one
  section. The sections under the exclusive lock wait until no thread is in a shared section.
  \<^verbatim>\<open>close()\<close> and the checks before a lock take no lock at all. The clock, read inside the sections
  where the code reads it, does not run backwards.

  Two results. An invariant: the engine stays safe, and a GET in the middle of its shared section
  still has the metadata, or the value, that the index and the file describe. And linearizability:
  the answers of the threads, each given at one moment of its method's execution, are those of a
  single map with expiry times on which the methods act one after the other.
\<close>

section \<open>Threads\<close>

text \<open>
  Where a thread is between two sections. \<open>Setting\<close>, \<open>Removing\<close>, \<open>Sweeping\<close> and \<open>Compacting\<close> have made
  their checks and wait for the exclusive lock, \<open>Expiring\<close> waits for it in \<^verbatim>\<open>eraseIfExpired\<close>; \<open>Reading\<close>
  and \<open>Filling\<close> hold the shared one. KEYS goes through its own check, that of \<^verbatim>\<open>cleanupExpired\<close>,
  the sweep and the listing.
\<close>

datatype Thread =
    Idle
  | Setting i64 string string "i64 option" i64
  | Getting string
  | Reading string i64 RecordMetadata
  | Filling string i64 string
  | Expiring string i64
  | Removing string
  | Sweeping
  | KeysChecked string
  | KeysSweeping string
  | Listing string
  | Compacting

fun in_shared :: "Thread \<Rightarrow> bool" where
  "in_shared (Reading k now md) = True"
| "in_shared (Filling k now v) = True"
| "in_shared _ = False"

type_synonym threads = "nat \<Rightarrow> Thread"

definition exclusive :: "threads \<Rightarrow> bool" where
  "exclusive ts \<longleftrightarrow> (\<forall>i. \<not> in_shared (ts i))"

text \<open>The latest clock reading, the engine, the threads.\<close>

type_synonym system = "i64 \<times> KeyValueStore \<times> threads"

text \<open>
  A step is internal or fixes the answer of the method that thread \<open>i\<close> runs (a GET that has found
  an expired entry still has to erase it after its answer is fixed). \<open>Rejects\<close> is a KEYS that fails
  in its first check.
\<close>

datatype Label = Internal nat | Answers nat Event | Rejects nat StatusCode

inductive thread_step :: "system \<Rightarrow> Label \<Rightarrow> system \<Rightarrow> bool" where
  set_rejected: "ts i = Idle \<Longrightarrow> sint T \<le> sint now \<Longrightarrow> set_checks k v ttl now s = Inl st \<Longrightarrow>
    thread_step (T, s, ts) (Answers i (SetReply now k v ttl (status_code st))) (now, s, ts)"
| set_start: "ts i = Idle \<Longrightarrow> sint T \<le> sint now \<Longrightarrow> set_checks k v ttl now s = Inr e \<Longrightarrow>
    thread_step (T, s, ts) (Internal i) (now, s, ts(i := Setting now k v ttl e))"
| set_run: "ts i = Setting now k v ttl e \<Longrightarrow> exclusive ts \<Longrightarrow> log_fits k (Some v) (kv_storage s) \<Longrightarrow>
    set_locked io k v e s = (st, s') \<Longrightarrow>
    thread_step (T, s, ts) (Answers i (SetReply now k v ttl (status_code st))) (T, s', ts(i := Idle))"
| get_rejected: "ts i = Idle \<Longrightarrow> get_checks k s = (st, s') \<Longrightarrow> \<not> status_ok st \<Longrightarrow>
    thread_step (T, s, ts) (Answers i (GetReply T k (Inl (status_code st)))) (T, s', ts)"
| get_start: "ts i = Idle \<Longrightarrow> get_checks k s = (Status_success, s') \<Longrightarrow>
    thread_step (T, s, ts) (Internal i) (T, s', ts(i := Getting k))"
| get_absent: "ts i = Getting k \<Longrightarrow> sint T \<le> sint now \<Longrightarrow> get_lookup now k s = (LookupAbsent, s') \<Longrightarrow>
    thread_step (T, s, ts) (Answers i (GetReply now k (Inl NotFound))) (now, s', ts(i := Idle))"
| get_hit: "ts i = Getting k \<Longrightarrow> sint T \<le> sint now \<Longrightarrow> get_lookup now k s = (LookupHit v, s') \<Longrightarrow>
    thread_step (T, s, ts) (Answers i (GetReply now k (Inr v))) (now, s', ts(i := Idle))"
| get_miss: "ts i = Getting k \<Longrightarrow> sint T \<le> sint now \<Longrightarrow> get_lookup now k s = (LookupMiss md, s') \<Longrightarrow>
    thread_step (T, s, ts) (Internal i) (now, s', ts(i := Reading k now md))"
| get_expired: "ts i = Getting k \<Longrightarrow> sint T \<le> sint now \<Longrightarrow> get_lookup now k s = (LookupExpired, s') \<Longrightarrow>
    thread_step (T, s, ts) (Answers i (GetReply now k (Inl NotFound))) (now, s', ts(i := Expiring k now))"
| read_failed: "ts i = Reading k now md \<Longrightarrow> get_read vio md s = (Inl st, s') \<Longrightarrow>
    thread_step (T, s, ts) (Answers i (GetReply now k (Inl (status_code st)))) (T, s', ts(i := Idle))"
| read_value: "ts i = Reading k now md \<Longrightarrow> get_read vio md s = (Inr v, s') \<Longrightarrow>
    thread_step (T, s, ts) (Internal i) (T, s', ts(i := Filling k now v))"
| fill: "ts i = Filling k now v \<Longrightarrow>
    thread_step (T, s, ts) (Answers i (GetReply now k (Inr v))) (T, get_fill k v s, ts(i := Idle))"
| expire: "ts i = Expiring k now \<Longrightarrow> exclusive ts \<Longrightarrow>
    thread_step (T, s, ts) (Internal i) (T, snd (eraseIfExpired k now s), ts(i := Idle))"
| remove_rejected: "ts i = Idle \<Longrightarrow> \<not> status_ok (remove_checks k s) \<Longrightarrow>
    thread_step (T, s, ts) (Answers i (RemoveReply T k (status_code (remove_checks k s)))) (T, s, ts)"
| remove_start: "ts i = Idle \<Longrightarrow> status_ok (remove_checks k s) \<Longrightarrow>
    thread_step (T, s, ts) (Internal i) (T, s, ts(i := Removing k))"
| remove_run: "ts i = Removing k \<Longrightarrow> exclusive ts \<Longrightarrow> sint T \<le> sint now \<Longrightarrow>
    log_fits k None (kv_storage s) \<Longrightarrow> remove_locked io now k s = (st, s') \<Longrightarrow>
    thread_step (T, s, ts) (Answers i (RemoveReply now k (status_code st))) (now, s', ts(i := Idle))"
| sweep_rejected: "ts i = Idle \<Longrightarrow> \<not> kv_opened s \<Longrightarrow>
    thread_step (T, s, ts) (Internal i) (T, s, ts)"
| sweep_start: "ts i = Idle \<Longrightarrow> kv_opened s \<Longrightarrow>
    thread_step (T, s, ts) (Internal i) (T, s, ts(i := Sweeping))"
| sweep_run: "ts i = Sweeping \<Longrightarrow> exclusive ts \<Longrightarrow> sint T \<le> sint now \<Longrightarrow>
    thread_step (T, s, ts) (Internal i) (now, snd (sweep_locked now s), ts(i := Idle))"
| keys_rejected: "ts i = Idle \<Longrightarrow> \<not> kv_opened s \<Longrightarrow>
    thread_step (T, s, ts) (Rejects i Closed) (T, s, ts)"
| keys_start: "ts i = Idle \<Longrightarrow> kv_opened s \<Longrightarrow>
    thread_step (T, s, ts) (Internal i) (T, s, ts(i := KeysChecked p))"
| keys_unswept: "ts i = KeysChecked p \<Longrightarrow> \<not> kv_opened s \<Longrightarrow>
    thread_step (T, s, ts) (Internal i) (T, s, ts(i := Listing p))"
| keys_sweep: "ts i = KeysChecked p \<Longrightarrow> kv_opened s \<Longrightarrow>
    thread_step (T, s, ts) (Internal i) (T, s, ts(i := KeysSweeping p))"
| keys_swept: "ts i = KeysSweeping p \<Longrightarrow> exclusive ts \<Longrightarrow> sint T \<le> sint now \<Longrightarrow>
    thread_step (T, s, ts) (Internal i) (now, snd (sweep_locked now s), ts(i := Listing p))"
| keys_list: "ts i = Listing p \<Longrightarrow>
    thread_step (T, s, ts) (Answers i (KeysReply T p (keys_section p s))) (T, s, ts(i := Idle))"
| compact_rejected: "ts i = Idle \<Longrightarrow> \<not> kv_opened s \<Longrightarrow>
    thread_step (T, s, ts) (Answers i (CompactReply T (Inl Closed))) (T, s, ts)"
| compact_start: "ts i = Idle \<Longrightarrow> kv_opened s \<Longrightarrow>
    thread_step (T, s, ts) (Internal i) (T, s, ts(i := Compacting))"
| compact_run: "ts i = Compacting \<Longrightarrow> exclusive ts \<Longrightarrow> sint T \<le> sint now \<Longrightarrow>
    live_bytes (kv_index s) < 2 ^ 63 \<Longrightarrow> compact_locked cio now s = (c, s') \<Longrightarrow> not_stranded cio s' \<Longrightarrow>
    thread_step (T, s, ts) (Answers i (CompactReply now (map_sum id sum_liveKeys (reply c))))
      (now, s', ts(i := Idle))"
| close_any: "thread_step (T, s, ts) (Internal i) (T, snd (kv_close s), ts)"

section \<open>The invariant\<close>

fun thread_ok :: "KeyValueStore \<Rightarrow> Thread \<Rightarrow> bool" where
  "thread_ok s (Reading k now md) \<longleftrightarrow>
     map_of (kv_index s) k = Some md \<and> \<not> isExpired (md_expiresAtMs md) now"
| "thread_ok s (Filling k now v) \<longleftrightarrow> visible now (kv_bindings s) k = Some v"
| "thread_ok s _ \<longleftrightarrow> True"

fun system_ok :: "system \<Rightarrow> bool" where
  "system_ok (T, s, ts) \<longleftrightarrow> kv_safe s \<and> (\<forall>i. thread_ok s (ts i))"

declare system_ok.simps [simp del]

lemma thread_ok_outside: "\<not> in_shared t \<Longrightarrow> thread_ok s t"
  by (cases t) simp_all

lemma thread_ok_same:
  assumes "kv_index s' = kv_index s" "kv_bindings s' = kv_bindings s"
  shows "thread_ok s' t = thread_ok s t"
  using assms by (cases t) simp_all

section \<open>What the sections do\<close>

lemma sweep_locked_ok:
  assumes "kv_safe s"
  shows "kv_safe (snd (sweep_locked now s))" "kv_bindings (snd (sweep_locked now s)) = drop_expired now (kv_bindings s)"
  by (rule sweep_bindings [OF assms]; simp add: sweep_locked_def sweepExpired_result)+

lemma compact_locked_ok:
  assumes "kv_safe s" "live_bytes (kv_index s) < 2 ^ 63" "compact_locked io now s = (c, s')" "not_stranded io s'"
  shows "kv_safe s'" "kv_bindings s' = drop_expired now (kv_bindings s)"
    "c = Inr summary \<Longrightarrow> sum_liveKeys summary = card {k. visible now (kv_bindings s) k \<noteq> None}"
    "c = Inl st \<Longrightarrow> \<not> status_ok st"
proof -
  have "kv_safe s' \<and> kv_bindings s' = drop_expired now (kv_bindings s) \<and>
    (case c of Inr summary \<Rightarrow> sum_liveKeys summary = card {k. visible now (kv_bindings s) k \<noteq> None}
     | Inl st \<Rightarrow> \<not> status_ok st)"
    using assms(1-3)
    by (cases rule: compact_locked_cases)
      (use assms(4) visible_domain_card [OF assms(1)] in \<open>simp_all add: not_stranded_def\<close>)
  then show "kv_safe s'" "kv_bindings s' = drop_expired now (kv_bindings s)"
    "c = Inr summary \<Longrightarrow> sum_liveKeys summary = card {k. visible now (kv_bindings s) k \<noteq> None}"
    "c = Inl st \<Longrightarrow> \<not> status_ok st"
    by simp_all
qed

lemma close_safe:
  assumes "kv_safe s"
  shows "kv_safe (snd (kv_close s))" "kv_index (snd (kv_close s)) = kv_index s"
    "kv_bindings (snd (kv_close s)) = kv_bindings s"
  using same_parts_safe [OF assms, of "snd (kv_close s)"] by (simp_all add: kv_close_def Let_def)

section \<open>The shared map\<close>

text \<open>
  The specification: one map, on which the answers act one after the other. A failed SET or DEL
  (the file could not be written, the store was closed) changes nothing. KEYS may list a key that
  has expired between its clean-up and its reading of the index, but no key that is not stored.
\<close>

inductive shared_spec :: "ttl_map \<Rightarrow> Label \<Rightarrow> ttl_map \<Rightarrow> bool" where
  shared_internal: "shared_spec m (Internal i) m"
| shared_rejected: "c \<noteq> Ok \<Longrightarrow> shared_spec m (Rejects i c) m"
| shared_answer: "spec_step m ev m' \<Longrightarrow> shared_spec m (Answers i ev) m'"
| shared_set_failed: "c \<noteq> Ok \<Longrightarrow> shared_spec m (Answers i (SetReply now k v ttl c)) m"
| shared_remove_failed: "c \<noteq> Ok \<Longrightarrow> c \<noteq> NotFound \<Longrightarrow> shared_spec m (Answers i (RemoveReply now k c)) m"
| shared_keys: "sorted ks \<Longrightarrow> distinct ks \<Longrightarrow> \<forall>k \<in> set ks. hasPrefix p k \<and> m k \<noteq> None \<Longrightarrow>
    \<forall>k. hasPrefix p k \<and> visible now m k \<noteq> None \<longrightarrow> k \<in> set ks \<Longrightarrow>
    shared_spec m (Answers i (KeysReply now p ks)) m"

text \<open>
  The engine's bindings lag behind the map: they may lack entries that have expired at time \<open>T\<close>.
\<close>

definition lags :: "i64 \<Rightarrow> ttl_map \<Rightarrow> ttl_map \<Rightarrow> bool" where
  "lags T b m \<longleftrightarrow> b \<subseteq>\<^sub>m m \<and> (\<forall>k v e. b k = None \<longrightarrow> m k = Some (v, e) \<longrightarrow> isExpired e T)"

lemma lagsD:
  assumes "lags T b m"
  shows "b k = Some x \<Longrightarrow> m k = Some x" "b k = None \<Longrightarrow> m k = Some (v, e) \<Longrightarrow> isExpired e T"
  using assms by (auto simp: lags_def map_le_def dom_def)

lemma lags_visible:
  assumes "lags T b m" "sint T \<le> sint now"
  shows "visible now b = visible now m"
proof
  fix k
  show "visible now b k = visible now m k"
    using lagsD(1) [OF assms(1), of k] lagsD(2) [OF assms(1), of k] isExpired_mono [OF _ assms(2)]
    by (cases "b k"; cases "m k") (auto simp: visible_def)
qed

lemma lags_mono: "lags T b m \<Longrightarrow> sint T \<le> sint T' \<Longrightarrow> lags T' b m"
  unfolding lags_def using isExpired_mono by blast

lemma lags_update: "lags T b m \<Longrightarrow> lags T (b(k \<mapsto> x)) (m(k \<mapsto> x))"
  by (auto simp: lags_def map_le_def)

lemma lags_delete: "lags T b m \<Longrightarrow> lags T (b(k := None)) (m(k := None))"
  by (auto simp: lags_def map_le_def)

lemma lags_erase:
  assumes "lags T b m" "\<And>v e. b k = Some (v, e) \<Longrightarrow> isExpired e T"
  shows "lags T (b(k := None)) m"
  using assms lagsD(1) [OF assms(1), of k]
  by (cases "b k") (auto simp: lags_def map_le_def)

lemma lags_drop:
  assumes "lags T b m" "sint T \<le> sint now"
  shows "lags now (drop_expired now b) m"
  unfolding lags_def
proof (intro conjI allI impI)
  show "drop_expired now b \<subseteq>\<^sub>m m"
    using lagsD(1) [OF assms(1)] by (auto simp: map_le_def drop_expired_def dom_def split: option.splits if_splits)
  fix k v e
  assume d: "drop_expired now b k = None" and m: "m k = Some (v, e)"
  show "isExpired e now"
  proof (cases "b k")
    case None
    show ?thesis by (rule isExpired_mono [OF lagsD(2) [OF assms(1) None m] assms(2)])
  next
    case (Some x)
    with lagsD(1) [OF assms(1) Some] d m show ?thesis
      by (cases x) (auto simp: drop_expired_def split: if_splits)
  qed
qed

text \<open>
  What the threads remember of clock readings: \<open>T0\<close> is the time of the last exclusive section and
  \<open>T\<close> the latest reading.
\<close>

fun thread_timed :: "i64 \<Rightarrow> i64 \<Rightarrow> Thread \<Rightarrow> bool" where
  "thread_timed T0 T (Setting now k v ttl e) \<longleftrightarrow> set_expiry now k v ttl = Some e"
| "thread_timed T0 T (Reading k now md) \<longleftrightarrow> sint T0 \<le> sint now"
| "thread_timed T0 T (Filling k now v) \<longleftrightarrow> sint T0 \<le> sint now"
| "thread_timed T0 T (Expiring k now) \<longleftrightarrow> sint now \<le> sint T"
| "thread_timed T0 T _ \<longleftrightarrow> True"

fun linearized :: "system \<Rightarrow> ttl_map \<Rightarrow> bool" where
  "linearized (T, s, ts) m \<longleftrightarrow>
     system_ok (T, s, ts) \<and>
     (\<exists>T0. sint T0 \<le> sint T \<and> lags T0 (kv_bindings s) m \<and> (\<forall>i. thread_timed T0 T (ts i)))"

declare linearized.simps [simp del]

lemma thread_timed_later: "thread_timed T0 T t \<Longrightarrow> sint T \<le> sint T' \<Longrightarrow> thread_timed T0 T' t"
  by (cases t) auto

lemma thread_timed_outside:
  "thread_timed T0 T t \<Longrightarrow> \<not> in_shared t \<Longrightarrow> sint T \<le> sint T' \<Longrightarrow> thread_timed T' T' t"
  by (cases t) auto

lemma linearizedE:
  assumes "linearized (T, s, ts) m"
  obtains T0 where "kv_safe s" "\<And>i. thread_ok s (ts i)" "sint T0 \<le> sint T" "lags T0 (kv_bindings s) m"
    "\<And>i. thread_timed T0 T (ts i)"
  using assms by (auto simp: linearized.simps system_ok.simps)

text \<open>A section without the exclusive lock leaves index and abstract value alone.\<close>

lemma linearized_shared:
  assumes "linearized (T, s, ts) m" "sint T \<le> sint T'"
    and "kv_safe s'" "kv_index s' = kv_index s" "kv_bindings s' = kv_bindings s"
    and "thread_ok s' t" "\<And>T0. sint T0 \<le> sint T \<Longrightarrow> thread_timed T0 T (ts i) \<Longrightarrow> thread_timed T0 T' t"
  shows "linearized (T', s', ts(i := t)) m"
proof -
  obtain T0 where L: "\<And>i. thread_ok s (ts i)" "sint T0 \<le> sint T" "lags T0 (kv_bindings s) m"
    "\<And>i. thread_timed T0 T (ts i)"
    using assms(1) by (rule linearizedE) blast
  have "system_ok (T', s', ts(i := t))"
    using L(1) assms(3,6) thread_ok_same [OF assms(4,5)] by (simp add: system_ok.simps)
  moreover have "\<forall>j. thread_timed T0 T' ((ts(i := t)) j)"
    using assms(7) [OF L(2) L(4)] thread_timed_later [OF L(4) assms(2)] by simp
  moreover have "sint T0 \<le> sint T'" "lags T0 (kv_bindings s') m"
    using L(2,3) assms(2,5) by simp_all
  ultimately show ?thesis
    unfolding linearized.simps by blast
qed

text \<open>A section under the exclusive lock finds no thread that relies on them.\<close>

lemma linearized_exclusive:
  assumes "linearized (T, s, ts) m" "exclusive ts" "sint T \<le> sint T'"
    and "kv_safe s'" "lags T' (kv_bindings s') m'" "\<not> in_shared t" "thread_timed T' T' t"
  shows "linearized (T', s', ts(i := t)) m'"
proof -
  obtain T0 where L: "\<And>i. thread_timed T0 T (ts i)"
    using assms(1) by (rule linearizedE) blast
  have out: "\<not> in_shared (ts j)" for j
    using assms(2) by (simp add: exclusive_def)
  have "system_ok (T', s', ts(i := t))"
    using assms(4,6) out thread_ok_outside by (simp add: system_ok.simps)
  moreover have "\<forall>j. thread_timed T' T' ((ts(i := t)) j)"
    using assms(7) thread_timed_outside [OF L out assms(3)] by simp
  ultimately show ?thesis
    unfolding linearized.simps using assms(5) by blast
qed

lemma linearized_lags:
  assumes "linearized (T, s, ts) m" "sint T \<le> sint now"
  shows "lags now (kv_bindings s) m" "visible now (kv_bindings s) = visible now m"
proof -
  obtain T0 where "sint T0 \<le> sint T" "lags T0 (kv_bindings s) m"
    using assms(1) by (rule linearizedE) blast
  with assms(2) show "lags now (kv_bindings s) m" "visible now (kv_bindings s) = visible now m"
    using lags_mono [of T0 _ m now] lags_visible [of T0 _ m now] by auto
qed

section \<open>Linearizability\<close>

lemma set_checks_expiry: "set_checks k v ttl now s = Inr e \<Longrightarrow> set_expiry now k v ttl = Some e"
  using set_checks_InrD(1) [of k v ttl now s e] set_expiry_checks(1) [of s now k v ttl e] by simp

lemma rejected_code:
  "set_checks k v ttl now s = Inl st \<Longrightarrow> status_code st \<noteq> Ok"
  "get_checks k s = (st, s') \<Longrightarrow> \<not> status_ok st \<Longrightarrow> status_code st \<noteq> Ok \<and> status_code st \<noteq> NotFound"
  "\<not> status_ok (remove_checks k s) \<Longrightarrow>
    status_code (remove_checks k s) \<noteq> Ok \<and> status_code (remove_checks k s) \<noteq> NotFound"
  by (auto simp: set_checks_def get_checks_def remove_checks_def validateKey_def validateValue_def
      status_ok_def split: if_splits option.splits)

text \<open>The steps of a SET.\<close>

lemma simulate_set_run:
  assumes L: "linearized (T, s, ts) m" and t: "ts i = Setting now k v ttl e" "exclusive ts"
    and run: "log_fits k (Some v) (kv_storage s)" "set_locked io k v e s = (st, s')"
  shows "\<exists>m'. shared_spec m (Answers i (SetReply now k v ttl (status_code st))) m' \<and>
    linearized (T, s', ts(i := Idle)) m'"
proof -
  obtain T0 where safe: "kv_safe s" and timed: "\<And>i. thread_timed T0 T (ts i)"
    using L by (rule linearizedE) blast
  have e: "set_expiry now k v ttl = Some e"
    using timed [of i] t(1) by simp
  note lags = linearized_lags(1) [OF L order_refl]
  from safe run show ?thesis
  proof (cases rule: set_locked_cases)
    case stored
    have "linearized (T, s', ts(i := Idle)) (m(k \<mapsto> (v, e)))"
      by (rule linearized_exclusive [OF L t(2) order_refl stored(3)])
        (use lags_update [OF lags] stored(4) in simp_all)
    with shared_answer [OF spec_set [OF e]] stored(1) show ?thesis by auto
  next
    case failed
    have "linearized (T, s', ts(i := Idle)) m"
      by (rule linearized_exclusive [OF L t(2) order_refl failed(2)])
        (use lags failed(3) in simp_all)
    moreover have "status_code st \<noteq> Ok" using failed(1) by (simp add: status_ok_def)
    ultimately show ?thesis using shared_set_failed by blast
  qed
qed

text \<open>The steps of a GET.\<close>

lemma simulate_lookup:
  assumes L: "linearized (T, s, ts) m" and t: "ts i = Getting k" "sint T \<le> sint now"
    and run: "get_lookup now k s = (r, s')"
  shows "r = LookupAbsent \<Longrightarrow> shared_spec m (Answers i (GetReply now k (Inl NotFound))) m \<and>
      linearized (now, s', ts(i := Idle)) m"
    "r = LookupHit v \<Longrightarrow> shared_spec m (Answers i (GetReply now k (Inr v))) m \<and>
      linearized (now, s', ts(i := Idle)) m"
    "r = LookupMiss md \<Longrightarrow> linearized (now, s', ts(i := Reading k now md)) m"
    "r = LookupExpired \<Longrightarrow> shared_spec m (Answers i (GetReply now k (Inl NotFound))) m \<and>
      linearized (now, s', ts(i := Expiring k now)) m"
proof -
  obtain T0 where safe: "kv_safe s"
    using L by (rule linearizedE) blast
  note lk = get_lookup_ok [OF safe run]
  note vis = linearized_lags(2) [OF L t(2)]
  note sh = linearized_shared [OF L t(2) lk(1-3)]
  have none: "visible now m k = None" if "r = LookupAbsent \<or> r = LookupExpired"
  proof -
    have "visible now (kv_bindings s) k = None"
      using that run by (auto simp: get_lookup_def visible_kv_bindings split: option.splits if_splits prod.splits)
    then show ?thesis by (simp only: vis)
  qed
  have idle: "linearized (now, s', ts(i := Idle)) m" "linearized (now, s', ts(i := Expiring k now)) m"
    by (rule sh; simp)+
  show "r = LookupAbsent \<Longrightarrow> shared_spec m (Answers i (GetReply now k (Inl NotFound))) m \<and>
      linearized (now, s', ts(i := Idle)) m"
    "r = LookupExpired \<Longrightarrow> shared_spec m (Answers i (GetReply now k (Inl NotFound))) m \<and>
      linearized (now, s', ts(i := Expiring k now)) m"
    using none idle by (auto intro!: shared_answer spec_get)
  show "shared_spec m (Answers i (GetReply now k (Inr v))) m \<and> linearized (now, s', ts(i := Idle)) m"
    if "r = LookupHit v"
  proof -
    have "visible now m k = Some v"
      using lk(4) [OF that] by (simp only: vis)
    with idle(1) show ?thesis by (auto intro!: shared_answer spec_get)
  qed
  show "linearized (now, s', ts(i := Reading k now md)) m" if "r = LookupMiss md"
    by (rule sh) (use lk(2) lk(5) [OF that] t(2) in auto)
qed

lemma simulate_read:
  assumes L: "linearized (T, s, ts) m" and t: "ts i = Reading k now md"
    and run: "get_read vio md s = (r, s')"
  shows "r = Inl st \<Longrightarrow> shared_spec m (Answers i (GetReply now k (Inl (status_code st)))) m \<and>
      linearized (T, s', ts(i := Idle)) m"
    "r = Inr v \<Longrightarrow> linearized (T, s', ts(i := Filling k now v)) m"
proof -
  obtain T0 where safe: "kv_safe s" and ok: "\<And>i. thread_ok s (ts i)" and timed: "\<And>i. thread_timed T0 T (ts i)"
    using L by (rule linearizedE) blast
  note rd = get_read_ok [OF safe run]
  note sh = linearized_shared [OF L order_refl rd(1-3)]
  have md: "map_of (kv_index s) k = Some md" "\<not> isExpired (md_expiresAtMs md) now"
    using ok [of i] t by simp_all
  show "shared_spec m (Answers i (GetReply now k (Inl (status_code st)))) m \<and> linearized (T, s', ts(i := Idle)) m"
    if "r = Inl st"
  proof
    have "status_code st \<in> {IoError, Corruption}"
      by (rule rd(5) [OF that])
    then show "shared_spec m (Answers i (GetReply now k (Inl (status_code st)))) m"
      by (intro shared_answer spec_get) auto
    show "linearized (T, s', ts(i := Idle)) m" by (rule sh) simp_all
  qed
  show "linearized (T, s', ts(i := Filling k now v)) m" if "r = Inr v"
  proof (rule sh)
    have "visible now (kv_bindings s) k = Some v"
      using rd(4) [OF that md(1)] md by (simp add: visible_kv_bindings)
    then show "thread_ok s' (Filling k now v)" by (simp add: rd(3))
    show "\<And>T0. sint T0 \<le> sint T \<Longrightarrow> thread_timed T0 T (ts i) \<Longrightarrow> thread_timed T0 T (Filling k now v)"
      by (simp add: t)
  qed
qed

lemma simulate_fill:
  assumes L: "linearized (T, s, ts) m" and t: "ts i = Filling k now v"
  shows "shared_spec m (Answers i (GetReply now k (Inr v))) m \<and> linearized (T, get_fill k v s, ts(i := Idle)) m"
proof -
  obtain T0 where T0: "kv_safe s" "\<And>i. thread_ok s (ts i)" "sint T0 \<le> sint T" "lags T0 (kv_bindings s) m"
    "\<And>i. thread_timed T0 T (ts i)"
    using L by (rule linearizedE) blast
  have vis: "visible now (kv_bindings s) k = Some v" and now: "sint T0 \<le> sint now"
    using T0(2) [of i] T0(5) [of i] t by simp_all
  then have "visible now m k = Some v"
    using lags_visible [OF T0(4) now] by simp
  moreover have "linearized (T, get_fill k v s, ts(i := Idle)) m"
    by (rule linearized_shared [OF L order_refl get_fill_ok [OF T0(1) visible_values [OF vis]]]) simp_all
  ultimately show ?thesis by (auto intro!: shared_answer spec_get)
qed

lemma simulate_expire:
  assumes L: "linearized (T, s, ts) m" and t: "ts i = Expiring k now" "exclusive ts"
  shows "linearized (T, snd (eraseIfExpired k now s), ts(i := Idle)) m"
proof -
  obtain T0 where safe: "kv_safe s" and timed: "\<And>i. thread_timed T0 T (ts i)"
    using L by (rule linearizedE) blast
  have now: "sint now \<le> sint T"
    using timed [of i] t(1) by simp
  note lags = linearized_lags(1) [OF L order_refl]
  have "lags T (kv_bindings (snd (eraseIfExpired k now s))) m"
    using erase_expired_ok(2) [OF safe, of k now]
  proof
    assume "(\<exists>v e. kv_bindings s k = Some (v, e) \<and> isExpired e now) \<and>
      kv_bindings (snd (eraseIfExpired k now s)) = (kv_bindings s)(k := None)"
    with lags_erase [OF lags, of k] isExpired_mono [OF _ now] show ?thesis by auto
  qed (use lags in simp)
  then show ?thesis
    by (rule linearized_exclusive [OF L t(2) order_refl erase_expired_ok(1) [OF safe]]) simp_all
qed

text \<open>DEL, the sweeps, KEYS and COMPACT.\<close>

lemma simulate_remove_run:
  assumes L: "linearized (T, s, ts) m" and t: "ts i = Removing k" "exclusive ts" "sint T \<le> sint now"
    and run: "log_fits k None (kv_storage s)" "remove_locked io now k s = (st, s')"
  shows "\<exists>m'. shared_spec m (Answers i (RemoveReply now k (status_code st))) m' \<and>
    linearized (now, s', ts(i := Idle)) m'"
proof -
  obtain T0 where safe: "kv_safe s"
    using L by (rule linearizedE) blast
  note lags = linearized_lags [OF L t(3)]
  note ex = linearized_exclusive [OF L t(2,3)]
  from safe run show ?thesis
  proof (cases rule: remove_locked_cases)
    case removed
    have "linearized (now, s', ts(i := Idle)) (m(k := None))"
      by (rule ex [OF removed(3)]) (use lags_delete [OF lags(1)] removed(4) in simp_all)
    moreover have "spec_step m (RemoveReply now k Ok) (m(k := None))"
      by (rule spec_remove) (use removed(2) in \<open>simp add: lags(2)\<close>)
    ultimately show ?thesis using shared_answer removed(1) by fastforce
  next
    case absent
    have "lags now ((kv_bindings s)(k := None)) m"
      by (rule lags_erase [OF lags(1)]) (use absent(2) in \<open>auto simp: visible_def split: if_splits\<close>)
    then have "linearized (now, s', ts(i := Idle)) m"
      by (intro ex [OF absent(3)]) (simp_all add: absent(4))
    moreover have "spec_step m (RemoveReply now k NotFound) m"
      by (rule spec_remove_absent) (use absent(2) in \<open>simp only: lags(2)\<close>)
    ultimately show ?thesis using shared_answer absent(1) by fastforce
  next
    case failed
    have "linearized (now, s', ts(i := Idle)) m"
      by (rule ex [OF failed(3)]) (use lags(1) failed(4) in simp_all)
    moreover have "status_code st \<noteq> Ok" using failed(1) by (simp add: status_ok_def)
    ultimately show ?thesis using shared_remove_failed failed(2) by blast
  qed
qed

lemma simulate_sweep:
  assumes L: "linearized (T, s, ts) m" and t: "exclusive ts" "sint T \<le> sint now"
    and "\<not> in_shared u" "thread_timed now now u"
  shows "linearized (now, snd (sweep_locked now s), ts(i := u)) m"
proof -
  obtain T0 where safe: "kv_safe s" and T0: "sint T0 \<le> sint T" "lags T0 (kv_bindings s) m"
    using L by (rule linearizedE) blast
  have "lags now (kv_bindings (snd (sweep_locked now s))) m"
    using lags_drop [OF T0(2), of now] T0(1) t(2) by (simp add: sweep_locked_ok(2) [OF safe])
  with assms(4,5) show ?thesis
    by (intro linearized_exclusive [OF L t sweep_locked_ok(1) [OF safe]])
qed

lemma keys_section_shared:
  assumes L: "linearized (T, s, ts) m"
  shows "shared_spec m (Answers i (KeysReply T p (keys_section p s))) m"
proof -
  obtain T0 where safe: "kv_safe s" and T0: "sint T0 \<le> sint T" "lags T0 (kv_bindings s) m"
    using L by (rule linearizedE) blast
  have set: "k \<in> set (keys_section p s) \<longleftrightarrow> hasPrefix p k \<and> kv_bindings s k \<noteq> None" for k
    unfolding keys_section_def kv_bindings_def by (auto simp: map_of_eq_None_iff)
  show ?thesis
  proof (rule shared_keys)
    show "sorted (keys_section p s)" "distinct (keys_section p s)"
      using kv_safe_distinct [OF safe] by (simp_all add: keys_section_def)
    show "\<forall>k \<in> set (keys_section p s). hasPrefix p k \<and> m k \<noteq> None"
      using set lagsD(1) [OF T0(2)] by (metis option.exhaust option.distinct(1))
    show "\<forall>k. hasPrefix p k \<and> visible T m k \<noteq> None \<longrightarrow> k \<in> set (keys_section p s)"
      unfolding set linearized_lags(2) [OF L order_refl, symmetric]
      by (auto simp: visible_def split: option.splits)
  qed
qed

lemma simulate_compact_run:
  assumes L: "linearized (T, s, ts) m" and t: "exclusive ts" "sint T \<le> sint now"
    and run: "live_bytes (kv_index s) < 2 ^ 63" "compact_locked cio now s = (c, s')" "not_stranded cio s'"
  shows "shared_spec m (Answers i (CompactReply now (map_sum id sum_liveKeys (reply c)))) m \<and>
    linearized (now, s', ts(i := Idle)) m"
proof -
  obtain T0 where safe: "kv_safe s" and T0: "sint T0 \<le> sint T" "lags T0 (kv_bindings s) m"
    using L by (rule linearizedE) blast
  note co = compact_locked_ok [OF safe run]
  have "lags now (kv_bindings s') m"
    using lags_drop [OF T0(2), of now] T0(1) t(2) by (simp add: co(2))
  then have "linearized (now, s', ts(i := Idle)) m"
    by (intro linearized_exclusive [OF L t co(1)]) simp_all
  moreover have "spec_step m (CompactReply now (map_sum id sum_liveKeys (reply c))) m"
  proof (cases c)
    case (Inl st)
    with co(4) show ?thesis by (auto simp: status_ok_def intro: spec_compact_failed)
  next
    case (Inr summary)
    have "sum_liveKeys summary = card {k. visible now m k \<noteq> None}"
      using co(3) [OF Inr] by (simp only: linearized_lags(2) [OF L t(2)])
    with Inr spec_compact [of m now] show ?thesis by simp
  qed
  ultimately show ?thesis using shared_answer by blast
qed

text \<open>Steps outside every lock that only move the thread on.\<close>

lemma linearized_moves:
  assumes "linearized (T, s, ts) m" "sint T \<le> sint T'" "\<not> in_shared t"
    and "\<And>T0. sint T0 \<le> sint T \<Longrightarrow> thread_timed T0 T (ts i) \<Longrightarrow> thread_timed T0 T' t"
  shows "linearized (T', s, ts(i := t)) m"
proof -
  obtain T0 where "kv_safe s" using assms(1) by (rule linearizedE) blast
  from linearized_shared [OF assms(1,2) this refl refl thread_ok_outside [OF assms(3)] assms(4)]
  show ?thesis .
qed

lemma linearized_clock: "linearized (T, s, ts) m \<Longrightarrow> sint T \<le> sint T' \<Longrightarrow> ts i = Idle \<Longrightarrow> linearized (T', s, ts) m"
  using linearized_moves [of T s ts m T' Idle i] by (metis fun_upd_triv in_shared.simps(3) thread_timed.simps(5))

lemma simulate_get_checks:
  assumes L: "linearized (T, s, ts) m" and t: "ts i = Idle" and run: "get_checks k s = (st, s')"
  shows "\<not> status_ok st \<Longrightarrow> shared_spec m (Answers i (GetReply T k (Inl (status_code st)))) m"
    "linearized (T, s', ts) m" "linearized (T, s', ts(i := Getting k)) m"
proof -
  have safe: "kv_safe s" using L by (rule linearizedE) blast
  note sh = linearized_shared [OF L order_refl get_checks_safe [OF safe run]]
  show "linearized (T, s', ts(i := Getting k)) m" by (rule sh) simp_all
  have "linearized (T, s', ts(i := ts i)) m" by (rule sh) (simp_all add: t)
  then show "linearized (T, s', ts) m" unfolding fun_upd_triv .
  show "shared_spec m (Answers i (GetReply T k (Inl (status_code st)))) m" if "\<not> status_ok st"
    using rejected_code(2) [OF run that] by (intro shared_answer spec_get) auto
qed

lemma simulate_close:
  assumes L: "linearized (T, s, ts) m"
  shows "linearized (T, snd (kv_close s), ts) m"
proof -
  have safe: "kv_safe s" and ok: "thread_ok s (ts i)" for i using L by (rule linearizedE, blast)+
  note cl = close_safe [OF safe]
  have "linearized (T, snd (kv_close s), ts(0 := ts 0)) m"
    by (rule linearized_shared [OF L order_refl cl]) (simp_all only: thread_ok_same [OF cl(2,3)] ok)
  then show ?thesis unfolding fun_upd_triv .
qed

lemma simulate_thread_step:
  assumes L: "linearized (T, s, ts) m" and step: "thread_step (T, s, ts) l sys'"
  shows "\<exists>m'. shared_spec m l m' \<and> linearized sys' m'"
proof -
  note moves = linearized_moves [OF L]
  have internal: "\<exists>m'. shared_spec m (Internal i) m' \<and> linearized y m'" if "linearized y m" for i y
    using that shared_internal by blast
  from step show ?thesis
  proof (cases rule: thread_step.cases)
    case (set_rejected i now k v ttl st)
    with linearized_clock [OF L set_rejected(4,3)] rejected_code(1) [OF set_rejected(5)] shared_set_failed
    show ?thesis by blast
  next
    case (set_start i now k v ttl e)
    show ?thesis unfolding set_start(1,2)
      by (rule internal [OF moves]) (use set_start(4) set_checks_expiry [OF set_start(5)] in simp_all)
  next
    case (set_run i now k v ttl e io st s')
    with simulate_set_run [OF L set_run(3-6)] show ?thesis by simp
  next
    case (get_rejected i k st s')
    with simulate_get_checks [OF L get_rejected(3,4)] show ?thesis by blast
  next
    case (get_start i k s')
    show ?thesis unfolding get_start(1,2)
      by (rule internal [OF simulate_get_checks(3) [OF L get_start(3,4)]])
  next
    case (get_absent i k now s')
    with simulate_lookup(1) [OF L get_absent(3-5)] show ?thesis by auto
  next
    case (get_hit i k now v s')
    with simulate_lookup(2) [OF L get_hit(3-5)] show ?thesis by auto
  next
    case (get_miss i k now md s')
    show ?thesis unfolding get_miss(1,2)
      by (rule internal [OF simulate_lookup(3) [OF L get_miss(3-5) refl]])
  next
    case (get_expired i k now s')
    with simulate_lookup(4) [OF L get_expired(3-5)] show ?thesis by auto
  next
    case (read_failed i k now md vio st s')
    with simulate_read(1) [OF L read_failed(3,4)] show ?thesis by auto
  next
    case (read_value i k now md vio v s')
    show ?thesis unfolding read_value(1,2)
      by (rule internal [OF simulate_read(2) [OF L read_value(3,4) refl]])
  next
    case (fill i k now v)
    with simulate_fill [OF L fill(3)] show ?thesis by auto
  next
    case (expire i k now)
    with internal [OF simulate_expire [OF L expire(3,4)]] show ?thesis by simp
  next
    case (remove_rejected i k)
    with rejected_code(3) [OF remove_rejected(4)] L shared_remove_failed show ?thesis by blast
  next
    case (remove_run i k now io st s')
    with simulate_remove_run [OF L remove_run(3-7)] show ?thesis by simp
  next
    case (sweep_run i now)
    with internal [OF simulate_sweep [OF L sweep_run(4,5)]] show ?thesis by simp
  next
    case (keys_swept i p now)
    with internal [OF simulate_sweep [OF L keys_swept(4,5)]] show ?thesis by simp
  next
    case (keys_list i p)
    with keys_section_shared [OF L] moves [of T Idle i] show ?thesis by auto
  next
    case (compact_run i now cio c s')
    with simulate_compact_run [OF L compact_run(4-8)] show ?thesis by blast
  next
    case (close_any i)
    with internal [OF simulate_close [OF L]] show ?thesis by simp
  next
    case (sweep_rejected i)
    with internal [OF L] show ?thesis by simp
  next
    case (keys_rejected i)
    with shared_rejected [of Closed m i] L show ?thesis by auto
  next
    case (compact_rejected i)
    with shared_answer [OF spec_compact_failed, of Closed m i] L show ?thesis by auto
  qed (simp_all add: internal moves)
qed

interpretation shared: trace_simulation thread_step shared_spec linearized
proof unfold_locales
  fix c m l c'
  assume "linearized c m" "thread_step c l c'"
  moreover obtain T s ts where "c = (T, s, ts)" by (rule prod_cases3)
  ultimately show "\<exists>m'. shared_spec m l m' \<and> linearized c' m'"
    using simulate_thread_step by blast
qed

text \<open>A system that starts with idle threads is its own map.\<close>

lemma linearized_start: "kv_safe s \<Longrightarrow> linearized (T, s, \<lambda>_. Idle) (kv_bindings s)"
  by (auto simp: linearized.simps system_ok.simps lags_def intro!: exI [of _ T])

lemma linearized_ok: "linearized sys m \<Longrightarrow> system_ok sys"
  by (cases sys) (simp add: linearized.simps)

end
