(* ===== verification/CleanerShutdown.thy ===== *)
theory CleanerShutdown
  imports Traces
begin

text \<open>
  The shutdown protocol between \<^verbatim>\<open>KeyValueStore::close\<close> and the cleaner thread, with the
  condition variable opened up. \<^verbatim>\<open>wait_for(lock, interval, pred)\<close> evaluates the predicate; if it is
  false it blocks until a notification, a spurious wake-up (both lead back to the predicate) or
  the timeout. \<^verbatim>\<open>close()\<close> sets the flag, notifies and joins; it does not take \<^verbatim>\<open>cleanerMutex_\<close>, so
  its steps may fall between the cleaner's test of the predicate and its blocking.
\<close>

datatype CleanerPc = LoopTest | PredTest | AboutToBlock | Blocked | AfterWait | Sweep | Exited

datatype CloserPc = NotClosing | FlagSet | Notified | Joined

record Shutdown =
  sd_stop :: bool
  sd_cleaner :: CleanerPc
  sd_closer :: CloserPc

definition shutdown_start :: Shutdown where
  "shutdown_start = \<lparr>sd_stop = False, sd_cleaner = LoopTest, sd_closer = NotClosing\<rparr>"

datatype Actor = Cleaner | Closer

text \<open>What the cleaner may do next: one successor, except that a blocked one wakes in two ways.\<close>

fun cleaner_next :: "bool \<Rightarrow> CleanerPc \<Rightarrow> CleanerPc list" where
  "cleaner_next stop LoopTest = [if stop then Exited else PredTest]"
| "cleaner_next stop PredTest = [if stop then AfterWait else AboutToBlock]"
| "cleaner_next stop AboutToBlock = [Blocked]"
| "cleaner_next stop Blocked = [AfterWait, PredTest]"
| "cleaner_next stop AfterWait = [if stop then Exited else Sweep]"
| "cleaner_next stop Sweep = [LoopTest]"
| "cleaner_next stop Exited = []"

fun closer_next :: "Shutdown \<Rightarrow> Shutdown list" where
  "closer_next s =
     (case sd_closer s of
        NotClosing \<Rightarrow> [s\<lparr>sd_stop := True, sd_closer := FlagSet\<rparr>]
      | FlagSet \<Rightarrow>
          [s\<lparr>sd_cleaner := (if sd_cleaner s = Blocked then PredTest else sd_cleaner s),
             sd_closer := Notified\<rparr>]
      | Notified \<Rightarrow> if sd_cleaner s = Exited then [s\<lparr>sd_closer := Joined\<rparr>] else []
      | Joined \<Rightarrow> [])"

inductive shutdown_step :: "Shutdown \<Rightarrow> Actor \<Rightarrow> Shutdown \<Rightarrow> bool" where
  cleaner: "pc \<in> set (cleaner_next (sd_stop s) (sd_cleaner s)) \<Longrightarrow>
    shutdown_step s Cleaner (s\<lparr>sd_cleaner := pc\<rparr>)"
| closer: "s' \<in> set (closer_next s) \<Longrightarrow> shutdown_step s Closer s'"

inductive_simps shutdown_cleaner_iff: "shutdown_step s Cleaner s'"
inductive_simps shutdown_closer_iff: "shutdown_step s Closer s'"

text \<open>The flag is set exactly when the closer has begun, and joining waits for the exit.\<close>

definition shutdown_ok :: "Shutdown \<Rightarrow> bool" where
  "shutdown_ok s \<longleftrightarrow>
     (sd_stop s \<longleftrightarrow> sd_closer s \<noteq> NotClosing) \<and>
     (sd_closer s = Joined \<longrightarrow> sd_cleaner s = Exited) \<and>
     (sd_cleaner s = Exited \<longrightarrow> sd_stop s)"

lemma cleaner_exits: "Exited \<in> set (cleaner_next stop pc) \<Longrightarrow> stop"
  by (cases pc) (auto split: if_splits)

lemma shutdown_ok_step: "shutdown_ok s \<Longrightarrow> shutdown_step s a s' \<Longrightarrow> shutdown_ok s'"
proof (erule shutdown_step.cases)
  fix pc t
  assume "shutdown_ok s" "s = t" "a = Cleaner" "s' = t\<lparr>sd_cleaner := pc\<rparr>"
    "pc \<in> set (cleaner_next (sd_stop t) (sd_cleaner t))"
  then show "shutdown_ok s'"
    using cleaner_exits [of "sd_stop t" "sd_cleaner t"] by (auto simp: shutdown_ok_def)
next
  fix t t'
  assume "shutdown_ok s" "s = t" "a = Closer" "s' = t'" "t' \<in> set (closer_next t)"
  then show "shutdown_ok s'"
    by (auto simp: shutdown_ok_def split: CloserPc.splits if_splits)
qed

lemma shutdown_reachable_ok:
  assumes "run shutdown_step shutdown_start as s"
  shows "shutdown_ok s"
  using assms
proof (rule run_invariant)
  show "shutdown_ok shutdown_start" by (simp add: shutdown_ok_def shutdown_start_def)
  show "\<And>s e s'. shutdown_ok s \<Longrightarrow> shutdown_step s e s' \<Longrightarrow> shutdown_ok s'"
    by (rule shutdown_ok_step)
qed

text \<open>
  Once the flag is set every step of the cleaner other than a spurious wake-up brings it nearer
  to its exit; a spurious one is followed by a test that sees the flag.
\<close>

fun distance :: "CleanerPc \<Rightarrow> nat" where
  "distance Exited = 0"
| "distance LoopTest = 1"
| "distance AfterWait = 1"
| "distance PredTest = 2"
| "distance Sweep = 2"
| "distance Blocked = 3"
| "distance AboutToBlock = 4"

lemma cleaner_progress:
  "sd_stop s \<Longrightarrow> shutdown_step s Cleaner s' \<Longrightarrow>
   distance (sd_cleaner s') < distance (sd_cleaner s) \<and> sd_stop s'"
  unfolding shutdown_cleaner_iff by (cases "sd_cleaner s") auto

lemma closer_keeps_distance:
  "shutdown_step s Closer s' \<Longrightarrow> distance (sd_cleaner s') \<le> distance (sd_cleaner s) \<and> (sd_stop s \<longrightarrow> sd_stop s')"
  unfolding shutdown_closer_iff by (auto split: CloserPc.splits if_splits)

lemma cleaner_steps_bound:
  assumes "run shutdown_step s as s'" "sd_stop s"
  shows "length (filter (\<lambda>a. a = Cleaner) as) + distance (sd_cleaner s') \<le> distance (sd_cleaner s)"
  using assms
proof (induction rule: run.induct)
  case (run_Nil s)
  then show ?case by simp
next
  case (run_Cons s a s1 as s2)
  then show ?case
    using cleaner_progress [of s s1] closer_keeps_distance [of s s1] by (cases a) fastforce+
qed

lemma cleaner_not_stuck: "sd_cleaner s \<noteq> Exited \<Longrightarrow> \<exists>s'. shutdown_step s Cleaner s'"
  unfolding shutdown_cleaner_iff by (cases "sd_cleaner s") auto

section \<open>The lost wake-up\<close>

text \<open>
  The steps without the timeout and without spurious wake-ups: a blocked cleaner leaves its wait
  only through the notification of the closer. \<open>wakeup_lost\<close>: the closer has notified, while the
  cleaner is in its wait or has tested the predicate and is about to block.
\<close>

definition unaided_step :: "Shutdown \<Rightarrow> Actor \<Rightarrow> Shutdown \<Rightarrow> bool" where
  "unaided_step s a s' \<longleftrightarrow> shutdown_step s a s' \<and> \<not> (a = Cleaner \<and> sd_cleaner s = Blocked)"

definition wakeup_lost :: "Shutdown \<Rightarrow> bool" where
  "wakeup_lost s \<longleftrightarrow> sd_closer s = Notified \<and> sd_cleaner s \<in> {AboutToBlock, Blocked}"

definition returns_unaided :: "Shutdown \<Rightarrow> bool" where
  "returns_unaided s \<longleftrightarrow> (\<exists>actors s'. run unaided_step s actors s' \<and> sd_closer s' = Joined)"

lemma wakeup_lost_step: "wakeup_lost s \<Longrightarrow> unaided_step s a s' \<Longrightarrow> wakeup_lost s'"
  by (cases a) (auto simp: wakeup_lost_def unaided_step_def shutdown_cleaner_iff shutdown_closer_iff)

lemma wakeup_lost_forever: "wakeup_lost s \<Longrightarrow> \<not> returns_unaided s"
proof
  assume lost: "wakeup_lost s" and "returns_unaided s"
  then obtain actors s' where r: "run unaided_step s actors s'" "sd_closer s' = Joined"
    unfolding returns_unaided_def by blast
  from r(1) lost have "wakeup_lost s'" by (rule run_invariant) (rule wakeup_lost_step)
  with r(2) show False by (simp add: wakeup_lost_def)
qed

lemma returns_step: "unaided_step s a s' \<Longrightarrow> returns_unaided s' \<Longrightarrow> returns_unaided s"
  unfolding returns_unaided_def by (meson run_Cons)

lemma unaided_cleaner:
  "sd_cleaner s \<noteq> Blocked \<Longrightarrow> pc \<in> set (cleaner_next (sd_stop s) (sd_cleaner s)) \<Longrightarrow>
   returns_unaided (s\<lparr>sd_cleaner := pc\<rparr>) \<Longrightarrow> returns_unaided s"
  by (rule returns_step [of _ Cleaner]) (auto simp: unaided_step_def intro: cleaner)

lemma unaided_closer: "s' \<in> set (closer_next s) \<Longrightarrow> returns_unaided s' \<Longrightarrow> returns_unaided s"
  by (rule returns_step [of _ Closer]) (auto simp: unaided_step_def intro: closer simp del: closer_next.simps)

lemma returns_joined: "sd_closer s = Joined \<Longrightarrow> returns_unaided s"
  unfolding returns_unaided_def by (meson run_Nil)

lemma returns_notified:
  assumes "sd_stop s" "sd_closer s = Notified" "\<not> wakeup_lost s"
  shows "returns_unaided s"
  using assms
proof (induction "distance (sd_cleaner s)" arbitrary: s rule: less_induct)
  case less
  show ?case
  proof (cases "sd_cleaner s = Exited")
    case True
    with less.prems have "s\<lparr>sd_closer := Joined\<rparr> \<in> set (closer_next s)" by simp
    then show ?thesis by (rule unaided_closer) (simp add: returns_joined)
  next
    case False
    with less.prems obtain pc where pc: "pc \<in> set (cleaner_next (sd_stop s) (sd_cleaner s))"
      "pc \<notin> {AboutToBlock, Blocked}" "sd_cleaner s \<noteq> Blocked"
      by (cases "sd_cleaner s") (auto simp: wakeup_lost_def)
    let ?s = "s\<lparr>sd_cleaner := pc\<rparr>"
    have "distance (sd_cleaner ?s) < distance (sd_cleaner s)"
      using cleaner_progress [OF less.prems(1) cleaner [OF pc(1)]] by simp
    from less.hyps [OF this] have "returns_unaided ?s"
      using less.prems pc(2) by (simp add: wakeup_lost_def)
    then show ?thesis by (rule unaided_cleaner [OF pc(3,1)])
  qed
qed

lemma returns_flag_set:
  assumes "sd_stop s" "sd_closer s = FlagSet"
  shows "returns_unaided s"
proof -
  have notified: "returns_unaided s" if "sd_stop s" "sd_closer s = FlagSet" "sd_cleaner s \<noteq> AboutToBlock" for s
  proof (rule unaided_closer)
    let ?s = "s\<lparr>sd_cleaner := (if sd_cleaner s = Blocked then PredTest else sd_cleaner s), sd_closer := Notified\<rparr>"
    show "?s \<in> set (closer_next s)" using that by simp
    show "returns_unaided ?s"
      by (rule returns_notified) (use that in \<open>auto simp: wakeup_lost_def\<close>)
  qed
  show ?thesis
  proof (cases "sd_cleaner s = AboutToBlock")
    case True
    have "returns_unaided (s\<lparr>sd_cleaner := Blocked\<rparr>)" by (rule notified) (use assms in simp_all)
    with True show ?thesis by (intro unaided_cleaner [of s Blocked]) simp_all
  qed (use notified assms in blast)
qed

lemma returns_unaided_iff:
  assumes "shutdown_ok s"
  shows "returns_unaided s \<longleftrightarrow> \<not> wakeup_lost s"
proof
  show "returns_unaided s \<Longrightarrow> \<not> wakeup_lost s" using wakeup_lost_forever by blast
  assume ok: "\<not> wakeup_lost s"
  show "returns_unaided s"
  proof (cases "sd_closer s")
    case NotClosing
    let ?s = "s\<lparr>sd_stop := True, sd_closer := FlagSet\<rparr>"
    have "?s \<in> set (closer_next s)" using NotClosing by simp
    then show ?thesis by (rule unaided_closer) (simp add: returns_flag_set)
  qed (use assms ok returns_flag_set returns_notified returns_joined in \<open>auto simp: shutdown_ok_def\<close>)
qed

end
