(* ===== verification/Examples.thy ===== *)
theory Examples
  imports Hazards Session Concurrency CleanerShutdown
begin

text \<open>
  Concrete states and records at which the properties are applied: \<open>swap_store\<close> of \<open>Hazards\<close>,
  an open store of two keys with a cache of capacity 0, and the two records of its file.
\<close>

abbreviation rec_b :: Record where "rec_b \<equiv> set_record ''b'' ''x'' 0"
abbreviation rec_a :: Record where "rec_a \<equiv> set_record ''a'' ''y'' 0"

lemma example_sizes: "record_size rec_b = 30" "record_size rec_a = 30" "length (log_bytes [rec_b, rec_a]) = 60"
  by (simp_all add: record_size_def format_constants)

lemma example_valid: "validRecord rec_b" "validRecord rec_a"
  by (simp_all add: validRecord_def format_constants)

lemma example_log: "log_of (log_bytes [rec_b, rec_a]) [rec_b, rec_a] []"
  using example_valid example_sizes by (simp add: log_of_def)

definition example_config :: StoreConfig where
  "example_config = \<lparr>cfg_dataFile = ''d'', cfg_cacheCapacity = 0, cfg_cleanupInterval = 1,
     cfg_startBackgroundCleaner = False\<rparr>"

definition example_files :: FileSystem where
  "example_files = \<lparr>data_file = Some (log_bytes [rec_b, rec_a]), tmp_file = None\<rparr>"

lemma example_open:
  "kv_open no_store_open_faults 1 (KeyValueStore_new example_config example_files) = (Status_success, swap_store)"
proof -
  let ?run = "kv_open no_store_open_faults 1 (KeyValueStore_new example_config example_files)"
  have run: "?run = (fst ?run, swap_store)"
    by (simp add: swap_store_def example_config_def example_files_def)
  have "fst ?run = Status_success"
    using kv_open_log(1) [OF example_log _ _ run] by (simp add: example_config_def example_files_def)
  with run show ?thesis by simp
qed

lemma example_store:
  "kv_safe swap_store" "kv_opened swap_store" "kv_config swap_store = example_config"
  "durable 1 swap_store [rec_b, rec_a]"
  using kv_open_log(2-5) [OF example_log _ _ example_open]
  by (simp_all add: example_config_def example_files_def)

lemma example_interval: "0 < sint (cfg_cleanupInterval (kv_config swap_store))"
  by (simp add: example_store(3) example_config_def)

lemma example_fits: "log_fits ''k'' (Some ''v'') (kv_storage swap_store)" "log_fits ''b'' None (kv_storage swap_store)"
  using swap_store_facts(5) example_sizes(3) by (simp_all add: log_fits_def format_constants)

lemma example_live_bytes: "live_bytes (kv_index swap_store) < 2 ^ 63"
  by (rule durable_live_bytes(2) [OF example_store(4,1)])

lemma example_bindings: "kv_bindings swap_store ''b'' = Some (''x'', 0)" "kv_bindings swap_store ''a'' = Some (''y'', 0)"
  "kv_bindings swap_store ''k'' = None"
  using durable_binding [OF example_store(4), of "''b''"] durable_binding [OF example_store(4), of "''a''"]
  by (simp_all add: log_meaning_def log_value_def kv_bindings_def swap_store_facts(4))

lemma example_keys: "\<not> bad_key ''b''" "\<not> bad_key ''k''"
  by (simp_all add: bad_key_def format_constants)

lemma example_ready: "log_ready (kv_storage swap_store)" "data_file (disk (kv_storage swap_store)) = Some (log_bytes [rec_b, rec_a])"
proof -
  show r: "log_ready (kv_storage swap_store)"
    using kv_safeD [OF example_store(1)] by (simp add: coherent_def)
  then show "data_file (disk (kv_storage swap_store)) = Some (log_bytes [rec_b, rec_a])"
    using swap_store_facts(5) by (auto simp: log_ready_def contents_def split: option.splits)
qed

text \<open>Thread 0 runs a GET of \<^verbatim>\<open>b\<close> alone: lookup (a miss), read of the file, cache fill.\<close>

definition one_thread :: "Thread \<Rightarrow> threads" where
  "one_thread t = (\<lambda>_. Idle)(0 := t)"

lemma one_thread_simps [simp]:
  "one_thread t 0 = t" "(one_thread t)(0 := u) = one_thread u"
  by (simp_all add: one_thread_def fun_eq_iff)

lemma all_idle: "(\<lambda>_. Idle) = one_thread Idle"
  by (simp add: one_thread_def fun_eq_iff)

lemma example_get_run:
  obtains s1 s2 s3 where
    "thread_step (1, swap_store, one_thread Idle) (Internal 0) (1, s1, one_thread (Getting ''b''))"
    "thread_step (1, s1, one_thread (Getting ''b'')) (Internal 0)
      (1, s2, one_thread (Reading ''b'' 1 (record_metadata 0 rec_b)))"
    "thread_step (1, s2, one_thread (Reading ''b'' 1 (record_metadata 0 rec_b))) (Internal 0)
      (1, s3, one_thread (Filling ''b'' 1 ''x''))"
    "thread_step (1, s3, one_thread (Filling ''b'' 1 ''x'')) (Answers 0 (GetReply 1 ''b'' (Inr ''x'')))
      (1, get_fill ''b'' ''x'' s3, one_thread Idle)"
    "map_of (kv_index s2) ''b'' = Some (record_metadata 0 rec_b)"
proof -
  let ?md = "record_metadata 0 rec_b"
  let ?s1 = "swap_store\<lparr>kv_getOperations := kv_getOperations swap_store + 1\<rparr>"
  have "lru_inv (kv_cache swap_store)"
    using kv_safeD [OF example_store(1)] by (simp add: coherent_def)
  then obtain cache where miss: "lru_get ''b'' (kv_cache swap_store) = (None, cache)"
    using lru.get_result lru_empty_lookup swap_store_facts(3) by (metis prod.collapse)
  let ?s2 = "?s1\<lparr>kv_cache := cache\<rparr>"
  have "stored_at (contents (kv_storage swap_store)) ?md ''b'' ''x''"
    using log_stored [of "[rec_b, rec_a]" "''b''" ?md "''x''"] example_valid example_sizes
    by (simp add: swap_store_facts(5))
  then obtain storage where rd: "readValue no_value_faults ?md (kv_storage swap_store) = (Inr ''x'', storage)"
    using read_no_faults by (metis prod.collapse)
  have "thread_step (1, swap_store, one_thread Idle) (Internal 0) (1, ?s1, (one_thread Idle)(0 := Getting ''b''))"
    by (rule thread_step.get_start [where ts = "one_thread Idle" and i = 0])
      (use example_store(2) example_keys(1) in \<open>simp_all add: get_checks_def validateKey_code\<close>)
  moreover have "thread_step (1, ?s1, one_thread (Getting ''b'')) (Internal 0)
      (1, ?s2, (one_thread (Getting ''b''))(0 := Reading ''b'' 1 ?md))"
    by (rule thread_step.get_miss) (use miss in \<open>simp_all add: get_lookup_def swap_store_facts(4)\<close>)
  moreover have "thread_step (1, ?s2, one_thread (Reading ''b'' 1 ?md)) (Internal 0)
      (1, ?s2\<lparr>kv_storage := storage\<rparr>, (one_thread (Reading ''b'' 1 ?md))(0 := Filling ''b'' 1 ''x''))"
    by (rule thread_step.read_value [where vio = no_value_faults], simp)
      (use rd in \<open>simp add: get_read_def\<close>)
  moreover have "thread_step (1, ?s2\<lparr>kv_storage := storage\<rparr>, one_thread (Filling ''b'' 1 ''x'')) (Answers 0 (GetReply 1 ''b'' (Inr ''x'')))
      (1, get_fill ''b'' ''x'' (?s2\<lparr>kv_storage := storage\<rparr>), (one_thread (Filling ''b'' 1 ''x''))(0 := Idle))"
    by (rule thread_step.fill) simp
  ultimately show ?thesis
    by (intro that [of ?s1 ?s2 "?s2\<lparr>kv_storage := storage\<rparr>"]) (simp_all add: swap_store_facts(4))
qed

end
