(* ===== verification/Spec2Isabelle.thy ===== *)
theory Spec2Isabelle
  imports Examples
begin

text \<open>
  MiniKV Store: a persistent key-value engine in C++17 with an append-only data file, an LRU
  cache of values, expiry times, compaction, a background cleaner and a command shell. This
  development models the program's own code as functions and step relations and proves what
  its users rely on. Source paths below are relative to the repository.

  \<^bold>\<open>Parts and theories.\<close>

  \<^item> \<open>Status\<close>, \<open>Results\<close>: \<^verbatim>\<open>Status.h/.cpp\<close>, \<^verbatim>\<open>Result.h\<close>. A fallible call returns \<^typ>\<open>'a outcome\<close>, a
    \<^typ>\<open>Status\<close> on the left or the value on the right.
  \<^item> \<open>LruCache\<close>: \<^verbatim>\<open>LruCache.h\<close>. The \<^verbatim>\<open>std::list\<close> is a list of nodes with addresses, the index maps keys
    to addresses (iterators), \<^verbatim>\<open>splice\<close> moves a node; the invariant says that no iterator dangles.
  \<^item> \<open>Records\<close>, \<open>RecordCodec\<close>: \<^verbatim>\<open>Record.h/.cpp\<close> and the anonymous namespace of \<^verbatim>\<open>AppendOnlyStore.cpp\<close>:
    the 28-byte little-endian header, the FNV-1a checksum on 32-bit words, \<^verbatim>\<open>parseHeader\<close>, \<^verbatim>\<open>writeRecord\<close>.
  \<^item> \<open>AppendOnlyStore\<close>: \<^verbatim>\<open>AppendOnlyStore.h/.cpp\<close>: open, recover (the scanning loop on 64-bit offsets,
    replay, truncation), append, read, compact (temporary file, rename, reopen), file size. The
    file system is the pair of the data file and the temporary file.
  \<^item> \<open>KeyValueStore\<close>: \<^verbatim>\<open>KeyValueStore.h/.cpp\<close>: open, close, SET, GET, EXISTS, DEL, KEYS, COMPACT,
    statistics, clean-up, the cleaner's loop.
  \<^item> \<open>CommandParser\<close>, \<open>Shell\<close>: \<^verbatim>\<open>CommandParser.h/.cpp\<close> and \<^verbatim>\<open>app/main.cpp\<close>: tokenizer, parser, options,
    dispatch, the read-eval-print loop and \<^verbatim>\<open>main\<close> with its outputs and exit code.
  \<^item> \<open>Concurrency\<close>: the methods of the engine cut at their lock boundaries, threads that run them
    section by section under the reader-writer lock. \<open>CleanerShutdown\<close>: \<^verbatim>\<open>close()\<close> against the
    cleaner's condition variable.

  \<^bold>\<open>Lemma groups.\<close> \<open>Interfaces\<close> states the contracts between the components as locales, each
  interpreted on the model: \<open>cache_contract\<close> (in \<open>LruCache\<close>), \<open>prefix_code\<close> (in \<open>RecordCodec\<close>) and
  \<open>value_log\<close> (in \<open>ValueLog\<close>); \<open>Traces\<close> has runs and \<open>trace_simulation\<close>, interpreted in
  \<open>StoreRefinement\<close> on the engine's histories and in \<open>Concurrency\<close> on its threads. \<open>LogRecovery\<close> says what the scan makes of complete, torn, damaged and arbitrary
  files; \<open>ValueLog\<close> what appends, reads and compactions do to the file. \<open>StoreInvariant\<close> has the
  engine's invariant \<open>kv_safe\<close> (the file holds the value of every index entry, the cache is
  coherent) and its abstract value \<open>kv_bindings\<close>, keys with value and expiry time; \<open>visible\<close> is what
  a reader at a given time sees of it. \<open>Durability\<close> relates the engine to the records of its file
  (\<open>durable\<close>) and to what a restart reads from them; \<open>StoreProgress\<close> has the results when nothing
  fails; \<open>StoreRefinement\<close> refines the map with expiry times over whole histories; \<open>Session\<close> refines
  the program, from its command line to its output and the file it leaves, to a specification over
  that map and the size of the file. \<open>Hazards\<close> says what
  follows in the situations that the code does not handle: appends behind a torn record, a compaction
  that fails with the new file in place, short reads in recovery, a TTL beyond the range of the clock. \<open>Examples\<close> has the concrete states of the
  witnesses.

  \<^bold>\<open>Environment.\<close> What the code reads from outside is an argument: the wall clock, and for every
  operation a record of faults that says which of its file-system calls fail and, for a write, a
  flush or a read, after how many bytes. A theorem that takes the faults as a variable holds for
  every such failure. Strings are byte lists, sizes and offsets have the widths of the code and
  wrap; \<open>log_fits\<close> and the bounds \<open>2 ^ 63\<close> keep file offsets within \<^verbatim>\<open>std::streamoff\<close>. No definition has
  fuel: the loops recurse over lists, except the recovery scan, which ends because a valid record
  advances the 64-bit position within the file.

  \<^bold>\<open>Not modelled.\<close> The tests and benchmarks (clients of the engine); the build files; the rendering
  of the hit rate, a \<^verbatim>\<open>double\<close> (a parameter of \<open>statistics_text\<close>); failures of \<^verbatim>\<open>std::cout\<close>; loss of data
  that was written and flushed (the code never calls \<^verbatim>\<open>fsync\<close>, so a power failure may lose what a
  process crash does not); bytes that a buffered stream keeps after a failed write and may write
  later; the exceptions of \<^verbatim>\<open>std::filesystem::exists(dataPath_)\<close>, whose throwing overload
  \<^verbatim>\<open>ensureOpenLocked\<close> calls; other processes that change the file. Threads interleave at the granularity of lock
  sections, which is that of a data-race-free program; in \<open>Shell\<close> the cleaner's passes fall between
  the commands, \<open>Concurrency\<close> interleaves them with the sections of the other operations. There a
  thread's EXISTS is the GET it calls, and the statistics, which only read, are left out.
\<close>

section \<open>The program\<close>

text \<open>C1. A session of the program, from a data file with any log (or none, or one with a torn tail) to
  its exit, prints exactly what the specification prints: a map with expiry times and a file
  size. All commands but STATS may occur, in any number, with unparsable lines between them, and
  the cleaner may make any passes. The exit code is 0, nothing goes to the error output, and the
  file left behind is a complete log that says what the final map says, so that the next session
  continues from there.\<close>

theorem program_session:
  assumes "parse_options args default_config = OptionsOk cfg" "0 < sint (cfg_cleanupInterval cfg)"
    and "log_of (log_bytes_of fs) rs tail" "session_ok t0 lines"
    and "length (log_bytes rs) + record_limit * length lines < 2 ^ 63"
    and "minikv_main percent program args no_store_open_faults t0 lines fs = res"
    and "spec_session lines (log_meaning rs, length (log_bytes rs)) = (shown, m, n)"
  shows "pr_exit res = 0 \<and> pr_stderr res = [] \<and> pr_stdout res = banner @ shown \<and>
    (\<exists>rs'. data_file (pr_files res) = Some (log_bytes rs') \<and> log_of (log_bytes rs') rs' [] \<and>
      length (log_bytes rs') = n \<and>
      (\<forall>t. sint (session_end t0 lines) \<le> sint t \<longrightarrow> visible t (log_meaning rs') = visible t m))"
proof -
  obtain st s where run: "kv_open no_store_open_faults t0 (KeyValueStore_new cfg fs) = (st, s)" by fastforce
  note op = kv_open_any [OF assms(3,2) run]
  obtain out s' where session: "repl percent lines s = (out, s')" by fastforce
  have res: "res = \<lparr>pr_stdout = banner @ out, pr_stderr = [], pr_exit = 0, pr_files = disk (kv_storage s')\<rparr>"
    using assms(1,6) run op(1) session by (auto simp: minikv_main_def kv_destroy_disk)
  have "out = shown \<and> leaves (session_end t0 lines, s') (m, n)"
    using session_refines [OF op(2) assms(4,5), of percent] session assms(7) by simp
  with res show ?thesis by (simp add: leaves.simps)
qed

theorem program_session_witness:
  "\<exists>res. minikv_main (\<lambda>_. ''0.00'') ''minikv'' [] no_store_open_faults 1
      [(calm [] 2, ''GET b''), (calm [3, 4] 5, ''exit'')] example_files = res \<and>
    pr_exit res = 0 \<and>
    pr_stdout res = banner @ prompt @ ''x'' @ [newline] @ prompt @ ''Bye.'' @ [newline]"
proof -
  let ?lines = "[(calm [] 2, ''GET b''), (calm [3, 4] 5, ''exit'')]"
  have p: "parse ''GET b'' = Inr \<lparr>cmd_type = CmdGet, cmd_key = ''b'', cmd_value = [], cmd_ttl = None\<rparr>"
    "parse ''exit'' = Inr \<lparr>cmd_type = CmdExit, cmd_key = [], cmd_value = [], cmd_ttl = None\<rparr>"
    by code_simp+
  have ok: "session_ok 1 ?lines" by (simp add: p)
  have vis: "visible 2 (log_meaning [rec_b, rec_a]) ''b'' = Some ''x''"
    using fun_cong [OF durable_visible [OF example_store(4), of 2], of "''b''"] example_bindings(1)
    by (simp add: visible_def)
  have spec: "spec_session ?lines (log_meaning [rec_b, rec_a], length (log_bytes [rec_b, rec_a])) =
      (prompt @ ''x'' @ [newline] @ prompt @ ''Bye.'' @ [newline],
       log_meaning [rec_b, rec_a], length (log_bytes [rec_b, rec_a]))"
    using vis example_keys(1) by (simp add: p spec_command.simps key_text_def del: log_bytes_simps)
  have log: "log_of (log_bytes_of example_files) [rec_b, rec_a] []"
    using example_log by (simp add: log_bytes_of_def example_files_def)
  have small: "length (log_bytes [rec_b, rec_a]) + record_limit * length ?lines < 2 ^ 63"
    by (simp only: example_sizes(3)) (simp add: record_limit_def)
  have "0 < sint (cfg_cleanupInterval default_config)" "parse_options [] default_config = OptionsOk default_config"
    by (simp_all add: default_config_def)
  from program_session [OF this(2,1) log ok small refl spec] show ?thesis by blast
qed

section \<open>Histories, crashes and restarts\<close>

text \<open>C2. Every history of the engine, from the opening of a log (with or without a torn tail), under
  arbitrary I/O faults and with the process restarted after an append of uncertain outcome, is a
  history of the map with expiry times that starts from what the log says; and after it a reader
  at any later time sees exactly what the map shows. Acknowledged writes are never lost, failed
  ones happen entirely or not at all, and expiry, clean-up and compaction are invisible.\<close>

theorem engine_histories:
  assumes "log_of bs rs tail" "data_file fs = Some bs" "0 < sint (cfg_cleanupInterval cfg)"
    and "kv_open no_store_open_faults t0 (KeyValueStore_new cfg fs) = (st, s0)"
    and "run engine_step (t0, s0) evs (T, s)"
  shows "\<exists>m. run spec_step (log_meaning rs) evs m \<and>
    (\<forall>now. sint T \<le> sint now \<longrightarrow> visible now (kv_bindings s) = visible now m)"
proof -
  note op = kv_open_log [OF assms(1-4)]
  have "represents (t0, s0) (log_meaning rs)"
    using op(2-4) assms(3) durable_visible [OF op(5)] by (intro representsI [OF _ _ _ op(5)]) auto
  then obtain m where "run spec_step (log_meaning rs) evs m" "represents (T, s) m"
    using engine.run_simulates [OF assms(5)] by blast
  then show ?thesis
    by (auto elim!: representsD)
qed

theorem engine_histories_witness:
  "\<exists>T s m. run engine_step (1, swap_store) [GetReply 2 ''b'' (Inr ''x''), Restart 3] (T, s) \<and>
    run spec_step (log_meaning [rec_b, rec_a]) [GetReply 2 ''b'' (Inr ''x''), Restart 3] m \<and>
    (\<forall>now. sint T \<le> sint now \<longrightarrow> visible now (kv_bindings s) = visible now m)"
proof -
  have "fst (kv_get no_value_faults 2 ''b'' swap_store) = Inr ''x''"
    using kv_get_no_faults [OF example_store(1,2), of 2 "''b''"] example_keys(1) example_bindings(1)
    by (simp add: visible_def)
  then obtain s1 where get: "kv_get no_value_faults 2 ''b'' swap_store = (Inr ''x'', s1)"
    by (metis prod.collapse)
  obtain st s2 where re: "kv_restart no_store_open_faults 3 s1 = (st, s2)" by fastforce
  have "engine_step (1, swap_store) (GetReply 2 ''b'' (reply (Inr ''x''))) (2, s1)"
    by (rule step_get [OF _ get]) simp
  moreover have "engine_step (2, s1) (Restart 3) (3, s2)"
    by (rule step_restart [OF _ re]) simp
  ultimately have run: "run engine_step (1, swap_store) [GetReply 2 ''b'' (Inr ''x''), Restart 3] (3, s2)"
    by auto
  have "data_file example_files = Some (log_bytes [rec_b, rec_a])"
    "0 < sint (cfg_cleanupInterval example_config)"
    by (simp_all add: example_files_def example_config_def)
  from engine_histories [OF example_log this example_open run] run show ?thesis by blast
qed

text \<open>C3. A SET is atomic across a crash: whatever its calls meet, and whether it reports success or
  not, the process can be restarted, and readers then see the map of before the SET or the map
  with the new binding; they see the new binding whenever the SET reported success.\<close>

theorem set_crash_atomic:
  assumes "durable T s rs" "log_fits k (Some v) (kv_storage s)" "sint T \<le> sint now"
    and "0 < sint (cfg_cleanupInterval (kv_config s))"
    and "kv_set io now k v ttl s = (st, s')" "kv_restart no_store_open_faults now s' = (st', s'')"
    and "sint now \<le> sint t"
  shows "st' = Status_success \<and> kv_safe s'' \<and>
    (visible t (kv_bindings s'') = visible t (kv_bindings s) \<and> \<not> status_ok st \<or>
     (\<exists>e. set_expiry now k v ttl = Some e \<and>
        visible t (kv_bindings s'') = visible t ((kv_bindings s)(k \<mapsto> (v, e)))))"
proof -
  have ci: "0 < sint (cfg_cleanupInterval (kv_config s'))"
    using kv_set_frame [OF assms(5)] assms(4) by simp
  have old: "visible t (kv_bindings s) = visible t (log_meaning rs)"
    using durable_visible [OF assms(1), of t] assms(3,7) by simp
  have new: "visible t ((kv_bindings s)(k \<mapsto> (v, e))) = visible t (log_meaning (rs @ [set_record k v e]))" for e
    using old by (simp add: log_meaning_append)
  note again = kv_restart_log(1,4) [OF _ _ _ assms(6)] kv_restart_log(6) [OF _ _ _ assms(6), where now' = t]
  from assms(1,2,5) show ?thesis
  proof (cases rule: kv_set_file)
    case (stored e)
    then have "set_expiry now k v ttl = Some e"
      using set_expiry_checks(1) [OF set_checks_InrD(1) [OF stored(2)]] by blast
    with again [OF durable_index(3,4) [OF stored(3)] ci] assms(7) new [of e] show ?thesis by auto
  next
    case rejected
    then have "durable T s' rs" using assms(1) by simp
    from again [OF durable_index(3,4) [OF this] ci] rejected assms(7) old show ?thesis by auto
  next
    case (uncertain e)
    then have "set_expiry now k v ttl = Some e"
      using set_expiry_checks(1) [OF set_checks_InrD(1) [OF uncertain(2)]] by blast
    from uncertain(5) show ?thesis
    proof
      assume "log_of (contents (kv_storage s')) (rs @ [set_record k v e]) []"
      from again [OF this uncertain(3) ci] assms(7) new [of e] \<open>set_expiry now k v ttl = Some e\<close>
      show ?thesis by auto
    next
      assume "\<exists>tail. log_of (contents (kv_storage s')) rs tail"
      then obtain tail where log: "log_of (contents (kv_storage s')) rs tail" by blast
      from again [OF log uncertain(3) ci] assms(7) old uncertain(1) show ?thesis by auto
    qed
  qed
qed

theorem set_crash_atomic_witness:
  "\<exists>st s' st' s''. kv_set (no_append_faults\<lparr>af_write := Some 7\<rparr>) 2 ''k'' ''v'' None swap_store = (st, s') \<and>
    kv_restart no_store_open_faults 2 s' = (st', s'') \<and> st' = Status_success \<and>
    (visible 5 (kv_bindings s'') = visible 5 (kv_bindings swap_store) \<and> \<not> status_ok st \<or>
     visible 5 (kv_bindings s'') = visible 5 ((kv_bindings swap_store)(''k'' \<mapsto> (''v'', 0))))"
proof -
  obtain st s' where set: "kv_set (no_append_faults\<lparr>af_write := Some 7\<rparr>) 2 ''k'' ''v'' None swap_store = (st, s')"
    by fastforce
  obtain st' s'' where re: "kv_restart no_store_open_faults 2 s' = (st', s'')" by fastforce
  have "set_expiry 2 ''k'' ''v'' None = Some 0"
    using example_keys(2) by (simp add: set_expiry_def format_constants)
  then show ?thesis
    using set_crash_atomic [OF example_store(4) example_fits(1) _ example_interval set re, of 5] set re
    by auto
qed

text \<open>C4. A compaction is safe against crashes: however it ends, even when the renamed file could
  not be reopened, a restart of the process shows the same visible map as before.\<close>

theorem compact_crash_safe:
  assumes "durable T s rs" "kv_safe s" "kv_opened s" "sint T \<le> sint now"
    and "0 < sint (cfg_cleanupInterval (kv_config s))"
    and "kv_compact io now s = (res, s')" "kv_restart no_store_open_faults now s' = (st', s'')"
    and "sint now \<le> sint t"
  shows "st' = Status_success \<and> kv_safe s'' \<and> visible t (kv_bindings s'') = visible t (kv_bindings s)"
proof -
  have ci: "0 < sint (cfg_cleanupInterval (kv_config s'))"
    using kv_compact_frame [OF assms(6)] assms(5) by simp
  have old: "visible t (kv_bindings s) = visible t (log_meaning rs)"
    using durable_visible [OF assms(1), of t] assms(4,8) by simp
  note again = kv_restart_log(1,4) [OF _ _ ci assms(7)] kv_restart_log(6) [OF _ _ ci assms(7), where now' = t]
  from assms(1-4,6) show ?thesis
  proof (cases rule: kv_compact_file)
    case (clean rs')
    from again [OF durable_index(3,4) [OF clean(2)]] clean(5) [OF assms(8)] old assms(8) show ?thesis
      by auto
  next
    case (stranded rs' st)
    from again [OF stranded(3,4)] stranded(6) [OF assms(8)] old assms(8) show ?thesis by auto
  qed
qed

theorem compact_crash_safe_witness:
  "\<exists>res s' st' s''. kv_compact reopen_fails 1 swap_store = (res, s') \<and>
    kv_restart no_store_open_faults 1 s' = (st', s'') \<and> st' = Status_success \<and>
    visible 9 (kv_bindings s'') = visible 9 (kv_bindings swap_store)"
proof -
  obtain res s' where co: "kv_compact reopen_fails 1 swap_store = (res, s')" by fastforce
  obtain st' s'' where re: "kv_restart no_store_open_faults 1 s' = (st', s'')" by fastforce
  from compact_crash_safe [OF example_store(4,1,2) _ example_interval co re, of 9] co re
  show ?thesis by auto
qed

text \<open>C5. Closing the store and opening its file again, at any later time, gives a store that shows
  every reader the same map: the values and the expiry times survive the process.\<close>

theorem restart_durable:
  assumes "durable T s rs" "0 < sint (cfg_cleanupInterval (kv_config s))" "sint T \<le> sint now"
    and "kv_restart no_store_open_faults now s = (st, s')" "sint now \<le> sint t"
  shows "st = Status_success \<and> kv_opened s' \<and> kv_safe s' \<and> durable now s' rs \<and>
    visible t (kv_bindings s') = visible t (kv_bindings s)"
proof -
  note again = kv_restart_log [OF durable_index(3,4) [OF assms(1)] assms(2,4)]
  have "visible t (kv_bindings s) = visible t (log_meaning rs)"
    using durable_visible [OF assms(1), of t] assms(3,5) by simp
  with again(1-5) again(6) [of t] assms(5) show ?thesis by auto
qed

theorem restart_durable_witness:
  "\<exists>st s'. kv_restart no_store_open_faults 4 swap_store = (st, s') \<and> st = Status_success \<and>
    visible 4 (kv_bindings s') ''b'' = Some ''x''"
proof -
  obtain st s' where re: "kv_restart no_store_open_faults 4 swap_store = (st, s')" by fastforce
  have "visible 4 (kv_bindings swap_store) ''b'' = Some ''x''"
    by (simp add: visible_def example_bindings)
  with restart_durable [OF example_store(4) example_interval _ re, of 4] re show ?thesis by simp
qed

section \<open>Threads\<close>

text \<open>C6. However the threads' sections interleave (SET, GET, DEL, KEYS, clean-up, COMPACT, close, under
  any faults that do not strand a compaction), the engine is linearizable: the answers of the
  methods, each fixed at one moment between the call and the return, are those of one map with
  expiry times on which the methods act one after the other; and at the end every later reader
  sees what this map shows. No thread gets a stale value, and no acknowledged write is lost.\<close>

theorem threads_linearizable:
  assumes "kv_safe s" "run thread_step (T, s, \<lambda>_. Idle) ls (T', s', ts)"
  shows "\<exists>m. run shared_spec (kv_bindings s) ls m \<and>
    (\<forall>now. sint T' \<le> sint now \<longrightarrow> visible now (kv_bindings s') = visible now m)"
proof -
  obtain m where m: "run shared_spec (kv_bindings s) ls m" "linearized (T', s', ts) m"
    using shared.run_simulates [OF assms(2) linearized_start [OF assms(1)]] by blast
  from m(1) linearized_lags(2) [OF m(2)] show ?thesis by blast
qed

theorem threads_linearizable_witness:
  "\<exists>s' m. run thread_step (1, swap_store, \<lambda>_. Idle)
      [Internal 0, Internal 0, Internal 0, Answers 0 (GetReply 1 ''b'' (Inr ''x''))] (1, s', \<lambda>_. Idle) \<and>
    run shared_spec (kv_bindings swap_store)
      [Internal 0, Internal 0, Internal 0, Answers 0 (GetReply 1 ''b'' (Inr ''x''))] m \<and>
    visible 1 (kv_bindings s') = visible 1 m"
proof -
  obtain s1 s2 s3 where steps:
    "thread_step (1, swap_store, one_thread Idle) (Internal 0) (1, s1, one_thread (Getting ''b''))"
    "thread_step (1, s1, one_thread (Getting ''b'')) (Internal 0)
      (1, s2, one_thread (Reading ''b'' 1 (record_metadata 0 rec_b)))"
    "thread_step (1, s2, one_thread (Reading ''b'' 1 (record_metadata 0 rec_b))) (Internal 0)
      (1, s3, one_thread (Filling ''b'' 1 ''x''))"
    "thread_step (1, s3, one_thread (Filling ''b'' 1 ''x'')) (Answers 0 (GetReply 1 ''b'' (Inr ''x'')))
      (1, get_fill ''b'' ''x'' s3, one_thread Idle)"
    by (rule example_get_run)
  have run: "run thread_step (1, swap_store, \<lambda>_. Idle)
      [Internal 0, Internal 0, Internal 0, Answers 0 (GetReply 1 ''b'' (Inr ''x''))]
      (1, get_fill ''b'' ''x'' s3, \<lambda>_. Idle)"
    unfolding all_idle run_Cons_iff run_Nil_iff using steps by blast
  from threads_linearizable [OF example_store(1) run] run show ?thesis by blast
qed

text \<open>C7. The same interleavings keep index, cache and file consistent, and a GET in the middle of its
  shared section still has the current metadata or value of its key.\<close>

theorem threads_keep_invariant:
  assumes "kv_safe s" "run thread_step (T, s, \<lambda>_. Idle) ls (T', s', ts)"
  shows "kv_safe s' \<and> (\<forall>i. thread_ok s' (ts i))"
proof -
  obtain m where "linearized (T', s', ts) m"
    using shared.run_simulates [OF assms(2) linearized_start [OF assms(1)]] by blast
  from linearized_ok [OF this] show ?thesis
    by (simp add: system_ok.simps)
qed

theorem threads_keep_invariant_witness:
  "\<exists>s' ts. run thread_step (1, swap_store, \<lambda>_. Idle) [Internal 0, Internal 0] (1, s', ts) \<and>
    ts 0 = Reading ''b'' 1 (record_metadata 0 rec_b) \<and> kv_safe s' \<and> thread_ok s' (ts 0)"
proof -
  obtain s1 s2 where steps:
    "thread_step (1, swap_store, one_thread Idle) (Internal 0) (1, s1, one_thread (Getting ''b''))"
    "thread_step (1, s1, one_thread (Getting ''b'')) (Internal 0)
      (1, s2, one_thread (Reading ''b'' 1 (record_metadata 0 rec_b)))"
    by (rule example_get_run)
  have run: "run thread_step (1, swap_store, \<lambda>_. Idle) [Internal 0, Internal 0]
      (1, s2, one_thread (Reading ''b'' 1 (record_metadata 0 rec_b)))"
    unfolding all_idle run_Cons_iff run_Nil_iff using steps by blast
  from threads_keep_invariant [OF example_store(1) run] run show ?thesis
    by (metis one_thread_simps(1))
qed

section \<open>Recovery\<close>

text \<open>C8. Opening a file that ends in a torn record (what an interrupted append leaves) loses nothing
  but the torn bytes: recovery succeeds, the file is cut back to the complete records, and the
  rebuilt index maps exactly the keys whose last record is an unexpired SET to that record.\<close>

theorem recover_torn_log:
  assumes "data_file (disk s) = Some (log_bytes rs @ tail)" "\<forall>r \<in> set rs. validRecord r"
    and "torn_tail tail" "length (log_bytes rs @ tail) < 2 ^ 63"
    and "recover no_recover_faults now s = (res, s')"
  shows "\<exists>state. res = Inr state \<and> contents s' = log_bytes rs \<and>
    map_of (rs_index state) = unexpired now (log_state 0 rs Map.empty) \<and>
    distinct (map fst (rs_index state)) \<and>
    rs_validRecords state = of_nat (length rs) \<and> rs_truncatedBytes state = of_nat (length tail)"
proof -
  have "map_of (replay now 0 rs []) = unexpired now (log_state 0 rs Map.empty)"
    by (rule map_of_replay [OF assms(2)]) (simp add: unexpired_def fun_eq_iff)
  then show ?thesis
    using recover_log [OF assms(1-4), of now] assms(5) distinct_replay [OF assms(2)] by auto
qed

theorem recover_torn_log_witness:
  "\<exists>state. fst (recover no_recover_faults 5 (AppendOnlyStore_new ''d''
      \<lparr>data_file = Some (log_bytes [rec_b] @ take 29 (encodeRecord rec_a)), tmp_file = None\<rparr>)) = Inr state \<and>
    rs_validRecords state = 1 \<and> rs_truncatedBytes state = 29"
proof -
  let ?s = "AppendOnlyStore_new ''d''
      \<lparr>data_file = Some (log_bytes [rec_b] @ take 29 (encodeRecord rec_a)), tmp_file = None\<rparr>"
  obtain res s' where run: "recover no_recover_faults 5 ?s = (res, s')" by fastforce
  have "torn_tail (take 29 (encodeRecord rec_a))"
    using example_valid(2) example_sizes(2) unfolding torn_tail_def by force
  from recover_torn_log [OF _ _ this _ run, of "[rec_b]"] run show ?thesis
    using example_valid(1) example_sizes(1,2) by (auto simp: AppendOnlyStore_new_def)
qed

text \<open>C9. A changed byte in the key or the value of any record is detected: recovery reports
  \<^verbatim>\<open>CORRUPTION\<close> at the offset of that record, whatever follows it, and leaves the file alone.\<close>

theorem recover_detects_changed_byte:
  assumes "\<forall>r \<in> set rs. validRecord r" "validRecord r"
    and "i < length (rec_key r @ rec_value r)" "c \<noteq> (rec_key r @ rec_value r) ! i"
    and "data_file (disk s) = Some (log_bytes rs @ makeHeader r @ (rec_key r @ rec_value r)[i := c] @ rest)"
    and "length (log_bytes rs) + record_size r + length rest < 2 ^ 63"
  shows "recover no_recover_faults now s =
    (Inl (corruption (''checksum mismatch at byte '' @ to_string (length (log_bytes rs)))),
     s\<lparr>file_open := True\<rparr>)"
proof -
  define k where "k = (if i < length (rec_key r) then (rec_key r)[i := c] else rec_key r)"
  define v where "v = (if i < length (rec_key r) then rec_value r
    else (rec_value r)[i - length (rec_key r) := c])"
  have kv: "(rec_key r @ rec_value r)[i := c] = k @ v" "length k = length (rec_key r)"
    "length v = length (rec_value r)"
    by (simp_all add: k_def v_def list_update_append)
  have "recordChecksum (rec_op r) (rec_expiresAtMs r) k v \<noteq>
      recordChecksum (rec_op r) (rec_expiresAtMs r) (rec_key r) (rec_value r)"
    using assms(3,4) recordChecksum_key_byte recordChecksum_value_byte
    by (auto simp: k_def v_def nth_append)
  then have bad: "recordChecksum (ph_operation (header_fields r)) (ph_expiresAtMs (header_fields r)) k v
      \<noteq> ph_checksum (header_fields r)" by simp
  have df: "data_file (disk s) =
      Some (log_bytes rs @ header_bytes (char_of_byte 0) (header_fields r) @ k @ v @ rest)"
    using assms(5) by (simp add: kv(1) makeHeader_layout)
  have len: "length (log_bytes rs @ header_bytes (char_of_byte 0) (header_fields r) @ k @ v @ rest) < 2 ^ 63"
    using assms(6) kv(2,3) by (simp add: record_size_def format_constants)
  show ?thesis
    by (rule recover_bad_checksum [OF df assms(1) len header_ok_fields [OF assms(2)] _ _ bad])
      (use kv header_fields_sizes(1,2) [OF assms(2)] in simp_all)
qed

theorem recover_detects_changed_byte_witness:
  "fst (recover no_recover_faults 1 (AppendOnlyStore_new ''d'' \<lparr>data_file =
      Some (log_bytes [rec_b] @ makeHeader rec_a @ ''aZ'' @ ''junk''), tmp_file = None\<rparr>)) =
   Inl (corruption ''checksum mismatch at byte 30'')"
proof -
  let ?s = "AppendOnlyStore_new ''d'' \<lparr>data_file =
      Some (log_bytes [rec_b] @ makeHeader rec_a @ ''aZ'' @ ''junk''), tmp_file = None\<rparr>"
  have t: "to_string 30 = ''30''"
    by (simp add: to_string.simps digit_char_def char_of_def bit_Suc_0_iff)
  have "recover no_recover_faults 1 ?s =
    (Inl (corruption (''checksum mismatch at byte '' @ to_string (length (log_bytes [rec_b])))),
     ?s\<lparr>file_open := True\<rparr>)"
    by (rule recover_detects_changed_byte [of "[rec_b]" rec_a 1 "CHR ''Z''" _ "''junk''"])
      (use example_valid example_sizes in \<open>simp_all add: AppendOnlyStore_new_def\<close>)
  with t example_sizes show ?thesis by simp
qed

text \<open>C10. Whatever file recovery accepts is a log: the bytes it keeps are the encodings of valid
  records (up to the reserved header byte, which nothing checks), every one counted, and the
  index is the replay of these records; the bytes it drops are at the end.\<close>

theorem recover_sound:
  assumes "data_file (disk s) = Some bs" "length bs < 2 ^ 63"
    and "recover no_recover_faults now s = (Inr state, s')"
  shows "\<exists>crs. (\<forall>(c, r) \<in> set crs. validRecord r) \<and>
    contents s' = concat (map (\<lambda>(c, r). encodeWith c r) crs) \<and>
    (\<exists>dropped. bs = contents s' @ dropped) \<and>
    rs_validRecords state = of_nat (length crs) \<and> rs_index state = replay now 0 (map snd crs) []"
proof -
  let ?s = "s\<lparr>file_open := True\<rparr>" and ?st = "\<lparr>rs_index = [], rs_validRecords = 0, rs_truncatedBytes = 0\<rparr>"
  have op: "ensureOpenLocked no_open_faults s = (Status_success, ?s)"
    using assms(1) by (simp add: calm_env)
  have ct: "contents s = bs" using assms(1) by (rule contents_Some)
  obtain st pos where loop: "recoverLoop no_read_faults now bs (of_nat (length bs)) (of_nat 0) ?st = Inr (st, pos)"
    using assms(3) op ct
    by (cases "recoverLoop no_read_faults now bs (of_nat (length bs)) 0 ?st")
      (auto simp: recover_def calm_env)
  obtain crs where crs: "\<forall>(c, r) \<in> set crs. validRecord r" "unat pos \<le> length bs"
    "take (unat pos) bs = concat (map (\<lambda>(c, r). encodeWith c r) crs)"
    "rs_validRecords st = of_nat (length crs)" "rs_index st = replay now 0 (map snd crs) []"
    using recoverLoop_sound [OF loop assms(2)] by auto
  have out: "state = st \<and> (contents s' = take (unat pos) bs \<or> contents s' = bs \<and> \<not> 0 < rs_truncatedBytes st)"
    using assms(3) op ct loop
    by (auto simp: recover_def calm_env reopenLocked_def Let_def
        split: if_splits)
  have "contents s' = take (unat pos) bs"
    using out recoverLoop_complete [OF loop assms(2)] crs(2) by auto
  with crs out show ?thesis
    by (metis append_take_drop_id)
qed

theorem recover_sound_witness:
  "\<exists>state s' crs. recover no_recover_faults 1 (AppendOnlyStore_new ''d'' example_files) = (Inr state, s') \<and>
    (\<forall>(c, r) \<in> set crs. validRecord r) \<and> rs_validRecords state = of_nat (length crs) \<and>
    contents s' = concat (map (\<lambda>(c, r). encodeWith c r) crs)"
proof -
  let ?s = "AppendOnlyStore_new ''d'' example_files"
  have df: "data_file (disk ?s) = Some (log_bytes [rec_b, rec_a] @ [])"
    by (simp add: AppendOnlyStore_new_def example_files_def)
  obtain state s' where run: "recover no_recover_faults 1 ?s = (Inr state, s')"
    using recover_log [OF df] example_valid example_sizes by auto
  from recover_sound [OF df _ run] run show ?thesis
    using example_sizes by auto
qed

section \<open>Appending, reading, compacting the file\<close>

text \<open>C11. An append under arbitrary faults only ever extends the file, by a prefix of the one encoded
  record; it reports success only when the whole record is there, with the metadata of the
  place where it is, and then the value can be read back through that metadata.\<close>

theorem append_extends_file:
  assumes "appendSet io k v e s = (res, s')" "log_ready s" "log_fits k (Some v) s"
  shows "\<exists>n. contents s' = contents s @ take n (encodeRecord (set_record k v e)) \<and>
    (case res of
       Inl st \<Rightarrow> \<not> status_ok st
     | Inr md \<Rightarrow> md = record_metadata (of_nat (length (contents s))) (set_record k v e) \<and>
         contents s' = contents s @ encodeRecord (set_record k v e) \<and>
         fst (readValue no_value_faults md s') = Inr v)"
  using assms(1) unfolding appendSet_def
proof (cases rule: append_cases)
  case appended
  have "log_holds s' (record_metadata (of_nat (length (contents s))) (set_record k v e)) k v"
    using vlog.append_holds [OF assms(2,3)] assms(1) appended(1) by blast
  then have "fst (readValue no_value_faults
      (record_metadata (of_nat (length (contents s))) (set_record k v e)) s') = Inr v"
    unfolding log_holds_def by (rule read_no_faults)
  with appended show ?thesis
    by (intro exI [of _ "record_size (set_record k v e)"]) simp
next
  case (failed st n)
  then show ?thesis by (intro exI [of _ n]) simp
qed

theorem append_extends_file_witness:
  "\<exists>n. contents (snd (appendSet (no_append_faults\<lparr>af_flush := Some 3\<rparr>) ''k'' ''v'' 0 (kv_storage swap_store))) =
    log_bytes [rec_b, rec_a] @ take n (encodeRecord (set_record ''k'' ''v'' 0))"
  using append_extends_file [OF surjective_pairing example_ready(1) example_fits(1)] swap_store_facts(5)
  by fastforce

text \<open>C12. Reads under arbitrary faults: a value that the log holds at some metadata is returned
  unchanged or not at all, no read changes the file, and without faults it is returned.\<close>

theorem read_returns_stored:
  assumes "stored_at (contents s) md k v" "data_file (disk s) \<noteq> None"
  shows "(\<forall>w. fst (readValue io md s) = Inr w \<longrightarrow> w = v) \<and>
    contents (snd (readValue io md s)) = contents s \<and>
    fst (readValue no_value_faults md s) = Inr v"
  using read_cases(1,4) [OF surjective_pairing, where io = io and md = md and s = s]
    stored_at_slice(1) [OF assms(1)] read_no_faults [OF assms(1)] by simp

theorem read_returns_stored_witness:
  "fst (readValue no_value_faults (record_metadata 0 rec_b) (kv_storage swap_store)) = Inr ''x''"
proof -
  have "stored_at (contents (kv_storage swap_store)) (record_metadata 0 rec_b) ''b'' ''x''"
    using log_stored [of "[rec_b, rec_a]" "''b''" "record_metadata 0 rec_b" "''x''"] example_valid example_sizes
    by (simp add: swap_store_facts(5))
  from read_returns_stored [OF this] show ?thesis
    using example_ready(2) by simp
qed

text \<open>C13. A compaction of the file is atomic: whatever its calls meet, the data file is afterwards
  either the old one or the complete log of the live records; on success it is the latter and
  the new index and sizes are those of that log; it is the latter without success only when the
  rename took place and the file could not be opened again.\<close>

theorem file_compaction_atomic:
  assumes "aos_compact io live s = (res, s')" "data_file (disk s) \<noteq> None"
  shows "(contents s' = contents s \<or> contents s' = log_bytes live) \<and> data_file (disk s') \<noteq> None \<and>
    (case res of
       Inr state \<Rightarrow> contents s' = log_bytes live \<and> (\<forall>r \<in> set live. validRecord r) \<and>
         state = \<lparr>comp_index = compacted_index 0 live [],
                  comp_oldFileBytes = of_nat (length (contents s)),
                  comp_newFileBytes = of_nat (length (log_bytes live))\<rparr>
     | Inl st \<Rightarrow> \<not> status_ok st \<and>
         (contents s' = contents s \<or> cf_rename io = None \<and> \<not> file_open s'))"
  using assms by (cases rule: compact_cases) auto

theorem file_compaction_atomic_witness:
  "\<exists>res s'. aos_compact (no_compact_faults\<lparr>cf_rename := Some ''busy''\<rparr>) [rec_a] (kv_storage swap_store) = (res, s') \<and>
    (contents s' = log_bytes [rec_b, rec_a] \<or> contents s' = log_bytes [rec_a])"
proof -
  obtain res s' where "aos_compact (no_compact_faults\<lparr>cf_rename := Some ''busy''\<rparr>) [rec_a]
      (kv_storage swap_store) = (res, s')" by fastforce
  with file_compaction_atomic [OF this] show ?thesis
    using example_ready(2) swap_store_facts(5) by auto
qed

section \<open>The operations of the engine\<close>

text \<open>C14. SET under arbitrary faults: on success the engine stores exactly the new binding, with the
  expiry time that the TTL asks for; on failure (invalid arguments, closed store, failed append)
  the map is unchanged. Either way index, cache and file stay consistent.\<close>

theorem set_spec:
  assumes "kv_safe s" "log_fits k (Some v) (kv_storage s)" "kv_set io now k v ttl s = (st, s')"
  shows "kv_safe s' \<and>
    (if status_ok st
     then kv_opened s \<and> (\<exists>e. set_expiry now k v ttl = Some e \<and> kv_bindings s' = (kv_bindings s)(k \<mapsto> (v, e)))
     else kv_bindings s' = kv_bindings s)"
  using assms
proof (cases rule: kv_set_cases)
  case (stored e)
  have "kv_opened s" by (rule set_checks_InrD(1) [OF stored(2)])
  with stored set_expiry_checks(1) [OF this] show ?thesis by simp
next
  case failed
  then show ?thesis by simp
qed

theorem set_spec_witness:
  "\<exists>st s'. kv_set no_append_faults 1 ''k'' ''v'' (Some 1000) swap_store = (st, s') \<and> status_ok st \<and>
    kv_bindings s' ''k'' = Some (''v'', 1001) \<and> kv_bindings s' ''b'' = Some (''x'', 0)"
proof -
  obtain st s' where set: "kv_set no_append_faults 1 ''k'' ''v'' (Some 1000) swap_store = (st, s')" by fastforce
  have e: "set_checks ''k'' ''v'' (Some 1000) 1 swap_store = Inr 1001"
    using example_keys(2) by (simp add: set_checks_result [OF example_store(2)] format_constants)
  have "set_expiry 1 ''k'' ''v'' (Some 1000) = Some 1001"
    using set_expiry_checks(1) [OF example_store(2)] e by blast
  moreover have "status_ok st"
    using kv_set_no_faults [OF e example_ready(1)] set by simp
  ultimately show ?thesis
    using set_spec [OF example_store(1) example_fits(1) set] set example_bindings(1) by auto
qed

text \<open>C15. SET without faults is decided by its arguments alone: an open, safe store stores every valid
  key, value and TTL, and answers INVALID_ARGUMENT to the others.\<close>

theorem set_complete:
  assumes "kv_safe s" "kv_opened s"
  shows "status_code (fst (kv_set no_append_faults now k v ttl s)) =
    (if set_expiry now k v ttl = None then InvalidArgument else Ok)"
proof (cases "set_expiry now k v ttl")
  case None
  then obtain st where "set_checks k v ttl now s = Inl st"
    using set_expiry_checks(2) [OF assms(2)] by blast
  with None set_checks_code [OF assms(2) this] show ?thesis
    by (simp add: kv_set_def)
next
  case (Some e)
  have "log_ready (kv_storage s)"
    using kv_safeD [OF assms(1)] by (simp add: coherent_def)
  moreover have "set_checks k v ttl now s = Inr e"
    using Some set_expiry_checks(1) [OF assms(2)] by blast
  ultimately show ?thesis
    using Some kv_set_no_faults by simp
qed

theorem set_complete_witness:
  "status_code (fst (kv_set no_append_faults 1 ''k'' ''v'' (Some 0) swap_store)) = InvalidArgument \<and>
   status_code (fst (kv_set no_append_faults 5 ''b'' ''v'' None swap_store)) = Ok"
  using set_complete [OF example_store(1,2), of 1 "''k''" "''v''" "Some 0"]
    set_complete [OF example_store(1,2), of 5 "''b''" "''v''" None] example_keys
  by (simp add: set_expiry_def format_constants)

text \<open>C16. GET under arbitrary faults: a value is returned only if it is the visible one; NOT_FOUND
  only if there is none; every other answer is an error. At most the asked key is dropped from
  the map, and only when no reader can see it any more.\<close>

theorem get_spec:
  assumes "kv_safe s" "kv_get io now k s = (res, s')"
  shows "kv_safe s' \<and>
    (case res of
       Inr v \<Rightarrow> visible now (kv_bindings s) k = Some v \<and> kv_bindings s' = kv_bindings s
     | Inl st \<Rightarrow> \<not> status_ok st \<and>
         (if status_code st = NotFound
          then visible now (kv_bindings s) k = None \<and> kv_bindings s' = (kv_bindings s)(k := None)
          else kv_bindings s' = kv_bindings s))"
  using assms by (cases rule: kv_get_cases) (auto simp: status_ok_def)

theorem get_spec_witness:
  "\<exists>s'. kv_get no_value_faults 1 ''b'' swap_store = (Inr ''x'', s') \<and> kv_safe s' \<and>
    visible 1 (kv_bindings swap_store) ''b'' = Some ''x''"
proof -
  obtain s' where get: "kv_get no_value_faults 1 ''b'' swap_store = (Inr ''x'', s')"
    using swap_store_read by (metis prod.collapse)
  from get_spec [OF example_store(1) get] get show ?thesis by auto
qed

text \<open>C17. GET without faults is complete: an open, safe store returns the visible value of every
  valid key, NOT_FOUND if there is none, and INVALID_ARGUMENT for an invalid key.\<close>

theorem get_complete:
  assumes "kv_safe s" "kv_opened s"
  shows "\<exists>s'. kv_get no_value_faults now k s =
    (case visible now (kv_bindings s) k of
       Some v \<Rightarrow> if bad_key k then Inl (validateKey k) else Inr v
     | None \<Rightarrow> Inl (if bad_key k then validateKey k
                 else notFound (if map_of (kv_index s) k = None then ''key does not exist''
                                else ''key has expired'')), s')"
  using kv_get_no_faults [OF assms, of now k]
  by (cases "kv_get no_value_faults now k s") (auto split: option.splits)

theorem get_complete_witness:
  "\<exists>s'. kv_get no_value_faults 1 ''b'' swap_store = (Inr ''x'', s')"
  using get_complete [OF example_store(1,2), of 1 "''b''"] example_keys(1) example_bindings(1)
  by (simp add: visible_def)

text \<open>C18. DEL under arbitrary faults: on success the visible binding is removed; NOT_FOUND only if
  there is none; on every other answer the map is unchanged.\<close>

theorem remove_spec:
  assumes "kv_safe s" "log_fits k None (kv_storage s)" "kv_remove io now k s = (st, s')"
  shows "kv_safe s' \<and>
    (if status_ok st then visible now (kv_bindings s) k \<noteq> None \<and> kv_bindings s' = (kv_bindings s)(k := None)
     else if status_code st = NotFound
     then visible now (kv_bindings s) k = None \<and> kv_bindings s' = (kv_bindings s)(k := None)
     else kv_bindings s' = kv_bindings s)"
  using assms by (cases rule: kv_remove_cases) (auto simp: status_ok_def)

theorem remove_spec_witness:
  "\<exists>st s'. kv_remove no_append_faults 1 ''b'' swap_store = (st, s') \<and> status_ok st \<and>
    kv_bindings s' = (kv_bindings swap_store)(''b'' := None)"
proof -
  obtain st s' where rem: "kv_remove no_append_faults 1 ''b'' swap_store = (st, s')" by fastforce
  have "status_code st = Ok"
    using kv_remove_no_faults [OF example_store(1,2), of 1 "''b''"] rem example_keys(1) example_bindings(1)
    by (simp add: visible_def)
  then have "status_ok st" by (simp add: status_ok_def)
  with remove_spec [OF example_store(1) example_fits(2) rem] rem show ?thesis by auto
qed

text \<open>C19. KEYS returns, in byte order and without duplicates, exactly the keys with the prefix that a
  reader can see, and drops nothing but expired keys.\<close>

theorem keys_spec:
  assumes "kv_safe s" "kv_opened s" "kv_keys now prefix s = (res, s')"
  shows "res = Inr (sorted_list_of_set
      {k. hasPrefix prefix k \<and> visible now (kv_bindings s) k \<noteq> None}) \<and>
    kv_safe s' \<and> (\<forall>t. sint now \<le> sint t \<longrightarrow> visible t (kv_bindings s') = visible t (kv_bindings s))"
  using kv_keys_safe [OF assms] visible_drop_expired by simp

theorem keys_spec_witness:
  "\<exists>s'. kv_keys 1 ''b'' swap_store = (Inr [''b''], s')"
proof -
  obtain res s' where ks: "kv_keys 1 ''b'' swap_store = (res, s')" by fastforce
  have vis: "visible 1 (kv_bindings swap_store) k \<noteq> None \<longleftrightarrow> k = ''b'' \<or> k = ''a''" for k
    by (auto simp: visible_def kv_bindings_def swap_store_facts(4))
  have "hasPrefix ''b'' ''b''" "\<not> hasPrefix ''b'' ''a''"
    by (simp_all add: hasPrefix_def)
  then have "{k. hasPrefix ''b'' k \<and> visible 1 (kv_bindings swap_store) k \<noteq> None} = {''b''}"
    unfolding vis by blast
  moreover have "sorted_list_of_set {''b''} = [''b'']"
    using sorted_list_of_set_sort_remdups [of "[''b'']"] by simp
  ultimately have "res = Inr [''b'']"
    using conjunct1 [OF keys_spec [OF example_store(1,2) ks]] by (simp only:)
  with ks show ?thesis by blast
qed

text \<open>C20. The clean-up removes every expired key and no other, counts them, leaves the file alone and
  changes nothing that a reader at the same or a later time can see.\<close>

theorem cleanup_spec:
  assumes "kv_safe s" "kv_opened s" "kv_cleanupExpired now s = (n, s')"
  shows "kv_safe s' \<and> kv_storage s' = kv_storage s \<and>
    (\<forall>k. kv_bindings s' k = None \<longleftrightarrow> visible now (kv_bindings s) k = None) \<and>
    n = length (kv_index s) - length (kv_index s') \<and>
    kv_expiredKeys s' = kv_expiredKeys s + of_nat n \<and>
    (\<forall>t. sint now \<le> sint t \<longrightarrow> visible t (kv_bindings s') = visible t (kv_bindings s))"
  using kv_cleanup_safe(1-5) [OF assms] visible_drop_expired
  by (auto simp: drop_expired_def visible_def split: option.splits)

theorem cleanup_spec_witness:
  "\<exists>n s'. kv_cleanupExpired 7 swap_store = (n, s') \<and> kv_storage s' = kv_storage swap_store \<and>
    visible 7 (kv_bindings s') ''b'' = Some ''x''"
proof -
  obtain n s' where cl: "kv_cleanupExpired 7 swap_store = (n, s')" by fastforce
  have "visible 7 (kv_bindings swap_store) ''b'' = Some ''x''"
    by (simp add: visible_def example_bindings)
  with cleanup_spec [OF example_store(1,2) cl] cl show ?thesis by auto
qed

text \<open>C21. COMPACT of a durable store succeeds when nothing fails; the summary is exact; the file is the
  log of the unexpired entries in key order and never larger than before; the engine stays
  consistent, and nothing that a reader can see changes.\<close>

theorem compact_spec:
  assumes "durable T s rs" "kv_safe s" "kv_opened s" "sint T \<le> sint now"
    and "kv_compact no_store_compact_faults now s = (res, s')"
  shows "\<exists>summary. res = Inr summary \<and> kv_safe s' \<and>
    contents (kv_storage s') = log_bytes (compacted_log now s) \<and>
    sorted (map rec_key (compacted_log now s)) \<and> distinct (map rec_key (compacted_log now s)) \<and>
    length (contents (kv_storage s')) \<le> length (contents (kv_storage s)) \<and>
    sum_liveKeys summary = card {k. visible now (kv_bindings s) k \<noteq> None} \<and>
    sum_oldFileBytes summary = of_nat (length (contents (kv_storage s))) \<and>
    sum_newFileBytes summary = of_nat (length (contents (kv_storage s'))) \<and>
    (\<forall>t. sint now \<le> sint t \<longrightarrow> visible t (kv_bindings s') = visible t (kv_bindings s))"
proof -
  obtain summary where res: "res = Inr summary"
    using kv_compact_no_faults [OF assms(2,3), of now] assms(5) by auto
  have "live_bytes (live_entries now (kv_index s)) \<le> length (contents (kv_storage s))"
    using live_bytes_filter durable_live_bytes(1) [OF assms(1,2)] by (rule le_trans)
  then have small: "length (log_bytes (compacted_log now s)) \<le> length (contents (kv_storage s))"
    by (simp only: compacted_log_facts(2) [OF assms(2)])
  from assms(2) durable_live_bytes(2) [OF assms(1,2)] assms(5) [unfolded kv_compact_opened [OF assms(3)]]
  show ?thesis
  proof (cases rule: compact_locked_cases)
    case (compacted s1)
    show ?thesis
      using compacted(1-7) res small visible_domain_card [OF assms(2), of now] visible_drop_expired
        compacted_log_facts(4,5) [OF assms(2), of now]
      by auto
  qed (use res in simp_all)
qed

theorem compact_spec_witness:
  "\<exists>summary s'. kv_compact no_store_compact_faults 1 swap_store = (Inr summary, s') \<and>
    contents (kv_storage s') = log_bytes [rec_a, rec_b] \<and>
    visible 1 (kv_bindings s') ''b'' = Some ''x''"
proof -
  obtain res s' where co: "kv_compact no_store_compact_faults 1 swap_store = (res, s')" by fastforce
  have "visible 1 (kv_bindings swap_store) ''b'' = Some ''x''"
    by (simp add: visible_def example_bindings)
  with compact_spec [OF example_store(4,1,2) _ co] co show ?thesis
    using swap_store_compacted by auto
qed

text \<open>C22. Opening a log without faults succeeds and gives an open store whose readers see exactly what
  the log says, whose statistics report the records recovered and the bytes cut off, and which
  satisfies the invariants that the other properties assume.\<close>

theorem open_spec:
  assumes "log_of bs rs tail" "data_file fs = Some bs" "0 < sint (cfg_cleanupInterval cfg)"
    and "kv_open no_store_open_faults now (KeyValueStore_new cfg fs) = (st, s)" "sint now \<le> sint t"
  shows "st = Status_success \<and> kv_opened s \<and> kv_safe s \<and> durable now s rs \<and>
    visible t (kv_bindings s) = visible t (log_meaning rs) \<and>
    st_recoveredRecords (kv_statistics False s) = of_nat (length rs) \<and>
    st_truncatedTailBytes (kv_statistics False s) = of_nat (length tail) \<and>
    st_dataFileBytes (kv_statistics False s) = of_nat (length (log_bytes rs))"
proof -
  note op = kv_open_log [OF assms(1-4)]
  have "contents (kv_storage s) = log_bytes rs" "data_file (disk (kv_storage s)) \<noteq> None"
    using durable_index(3,4) [OF op(5)] by (simp_all add: log_of_def)
  then show ?thesis
    using op durable_visible [OF op(5) assms(5)] by (auto simp: kv_statistics_def fileSize_def)
qed

theorem open_spec_witness:
  "visible 3 (kv_bindings swap_store) = visible 3 (log_meaning [rec_b, rec_a]) \<and>
    st_recoveredRecords (kv_statistics False swap_store) = 2"
  using open_spec [OF example_log _ _ example_open, of 3]
  by (simp add: example_files_def example_config_def)

section \<open>The cache\<close>

text \<open>C23. Every run of the LRU cache from its construction returns what the one-list reference
  returns and ends in the reference's state, and keeps its invariant: no iterator dangles, list
  and index agree, the capacity is respected.\<close>

theorem lru_runs_refine:
  "(let (rs, c) = run_steps cache_step ops (lru_new cap) in
      run_steps (list_step cap) ops [] = (rs, lru_abs c) \<and> lru_inv c \<and> length (lru_abs c) \<le> cap)"
proof -
  obtain rs c where run: "run_steps cache_step ops (lru_new cap) = (rs, c)" by fastforce
  have new: "lru_abs (lru_new cap) = []" "lru_capacity (lru_new cap) = cap"
    by (simp_all add: lru_new_def lru_abs_def)
  note ref = cache_run_refines [OF lru_inv_new run, unfolded new]
  show ?thesis
    using run ref length_abs [OF ref(1)] by simp
qed

text \<open>C24. After any sequence of insertions the cache holds exactly the most recently inserted distinct
  keys, as many as fit, each with its latest value, newest first: eviction drops the least
  recently used key and nothing else.\<close>

theorem lru_recency:
  "lru_abs (fold (\<lambda>(k, v). lru_put k v) kvs (lru_new cap)) = take cap (AList.clearjunk (rev kvs))"
  using lru_puts_recency [of kvs cap] by (simp add: lru_puts_def)

section \<open>The record format\<close>

text \<open>C25. The header of every valid record parses back to the operation, the sizes, the expiry time and
  the checksum of that record.\<close>

theorem header_round_trip:
  assumes "validRecord r"
  shows "parseHeader (makeHeader r) = Inr
    \<lparr>ph_operation = rec_op r, ph_keySize = of_nat (length (rec_key r)),
     ph_valueSize = of_nat (length (rec_value r)), ph_expiresAtMs = rec_expiresAtMs r,
     ph_checksum = recordChecksum (rec_op r) (rec_expiresAtMs r) (rec_key r) (rec_value r)\<rparr>"
  using parseHeader_makeHeader [OF assms] by (simp add: header_fields_def)

theorem header_round_trip_witness:
  "parseHeader (makeHeader rec_b) = Inr
    \<lparr>ph_operation = OpSet, ph_keySize = 1, ph_valueSize = 1, ph_expiresAtMs = 0,
     ph_checksum = recordChecksum OpSet 0 ''b'' ''x''\<rparr>"
  using header_round_trip [OF example_valid(1)] by simp

text \<open>C26. Whatever 28 bytes the header parser accepts, the sizes are within the limits of the format (a
  key of 1 to 4096 bytes, a value of at most 16 MiB, none for a deletion), and two accepted
  headers with the same fields differ at most in the reserved byte.\<close>

theorem header_sound:
  assumes "parseHeader h = Inr ph" "length h = 28"
  shows "0 < unat (ph_keySize ph) \<and> unat (ph_keySize ph) \<le> 4096 \<and>
    unat (ph_valueSize ph) \<le> 16777216 \<and> (ph_operation ph = OpDelete \<longrightarrow> ph_valueSize ph = 0) \<and>
    (\<forall>h'. parseHeader h' = Inr ph \<longrightarrow> length h' = 28 \<longrightarrow> h' = h[7 := h' ! 7])"
proof -
  note ok = parseHeader_InrD [OF assms]
  have pos: "0 < unat (ph_keySize ph)"
    using ok(1) unat_gt_0 [of "ph_keySize ph"] by (simp add: header_ok_def)
  have same: "h' = h[7 := h' ! 7]" if h': "parseHeader h' = Inr ph" "length h' = 28" for h'
  proof -
    have "h' = header_bytes (h' ! 7) ph" by (rule parseHeader_InrD(2) [OF h'])
    also have "\<dots> = (header_bytes (h ! 7) ph)[7 := h' ! 7]"
      by (simp add: header_bytes_def list_update_append)
    also have "header_bytes (h ! 7) ph = h" by (rule ok(2) [symmetric])
    finally show ?thesis .
  qed
  show ?thesis
    using ok(1) pos same by (auto simp: header_ok_def format_constants)
qed

theorem header_sound_witness:
  "\<exists>ph. parseHeader (makeHeader rec_b) = Inr ph \<and> unat (ph_keySize ph) \<le> 4096 \<and>
    unat (ph_valueSize ph) \<le> 16777216"
  using header_sound [OF parseHeader_makeHeader [OF example_valid(1)] length_makeHeader]
    parseHeader_makeHeader [OF example_valid(1)] by blast

text \<open>C27. A data file has at most one reading as complete records followed by a torn one, so what
  recovery keeps and what it cuts off is determined by the bytes alone.\<close>

theorem log_reading_unique:
  assumes "log_of bs rs tail" "log_of bs rs' tail'"
  shows "rs = rs' \<and> tail = tail'"
proof -
  obtain t n where t: "validRecord t" "n < length (encodeRecord t)" "tail = take n (encodeRecord t)"
    using assms(1) by (auto simp: log_of_def torn_tail_def)
  obtain t' n' where t': "validRecord t'" "n' < length (encodeRecord t')" "tail' = take n' (encodeRecord t')"
    using assms(2) by (auto simp: log_of_def torn_tail_def)
  have eq: "log_bytes rs @ tail = log_bytes rs' @ tail'"
    using assms by (simp add: log_of_def)
  have "rs = rs'"
    by (rule records.torn_log_unique [OF _ _ t(1) t'(1) t(2) t'(2)])
      (use assms eq t(3) t'(3) in \<open>simp_all add: log_of_def log_bytes_def\<close>)
  with eq show ?thesis by simp
qed

theorem log_reading_unique_witness:
  "{(rs, tail). log_of (log_bytes [rec_b, rec_a]) rs tail} = {([rec_b, rec_a], [])}"
proof (intro equalityI subsetI)
  fix x
  assume "x \<in> {(rs, tail). log_of (log_bytes [rec_b, rec_a]) rs tail}"
  then obtain rs tail where x: "x = (rs, tail)" "log_of (log_bytes [rec_b, rec_a]) rs tail" by blast
  from log_reading_unique [OF x(2) example_log] x(1) show "x \<in> {([rec_b, rec_a], [])}" by blast
next
  fix x :: "Record list \<times> string"
  assume "x \<in> {([rec_b, rec_a], [])}"
  with example_log show "x \<in> {(rs, tail). log_of (log_bytes [rec_b, rec_a]) rs tail}" by blast
qed

section \<open>Expiry times\<close>

text \<open>C28. A SET with a TTL whose sum with the clock fits into 63 bits is visible exactly until that
  sum: every reader before it sees the value, no reader from it on does.\<close>

theorem ttl_exact:
  assumes "kv_safe s" "log_fits k (Some v) (kv_storage s)"
    and "kv_set io now k v (Some c) s = (st, s')" "status_ok st"
    and "0 < sint now" "sint now + sint c < 2 ^ 63"
  shows "visible t (kv_bindings s') k = (if sint t < sint now + sint c then Some v else None)"
proof -
  from assms(1-3) obtain e where e: "set_checks k v (Some c) now s = Inr e"
    "kv_bindings s' = (kv_bindings s)(k \<mapsto> (v, e))"
    by (cases rule: kv_set_cases) (use assms(4) in auto)
  then have "0 < sint c" "e = now + c"
    by (auto simp: set_checks_def split: if_splits)
  with e(2) expiry_exact [OF assms(5) _ assms(6), of t] show ?thesis
    by (auto simp: visible_def)
qed

theorem ttl_exact_witness:
  "\<exists>st s'. kv_set no_append_faults 1 ''k'' ''v'' (Some 1000) swap_store = (st, s') \<and>
    visible 1000 (kv_bindings s') ''k'' = Some ''v'' \<and> visible 1001 (kv_bindings s') ''k'' = None"
proof -
  obtain st s' where set: "kv_set no_append_faults 1 ''k'' ''v'' (Some 1000) swap_store = (st, s')" by fastforce
  have "set_checks ''k'' ''v'' (Some 1000) 1 swap_store = Inr 1001"
    using example_keys(2) by (simp add: set_checks_result [OF example_store(2)] format_constants)
  then have "status_ok st"
    using kv_set_no_faults [OF _ example_ready(1)] set by (metis fst_conv status_ok_simps(1))
  with ttl_exact [OF example_store(1) example_fits(1) set, of 1000]
    ttl_exact [OF example_store(1) example_fits(1) set, of 1001] set show ?thesis by simp
qed

text \<open>C29. The sum of clock and TTL is not checked. Every TTL in whole seconds is accepted by the shell, also
  one that takes the sum to \<^verbatim>\<open>2^63\<close> or beyond: the line parses, the engine stores the value and
  answers OK. C++ leaves that signed addition undefined; with the wrap-around that compilers
  emit, which is what the model has, the stored expiry time is negative, counts as none, and the
  key is visible at every later time.\<close>

theorem ttl_overflow_never_expires:
  assumes "kv_safe s" "kv_opened s" "log_fits k (Some v) (kv_storage s)"
    and "\<not> bad_key k" "length v \<le> kMaximumValueSize"
    and "0 < sint c" "sint c mod 1000 = 0" "2 ^ 63 \<le> sint now + sint c"
    and "cmd = \<lparr>cmd_type = CmdSet, cmd_key = k, cmd_value = v, cmd_ttl = Some c\<rparr>"
  shows "parse (print_command cmd) = Inr cmd \<and>
    (\<exists>s'. run_command percent (calm ps now) cmd s = (''OK'' @ [newline], False, s') \<and>
      (\<forall>t. visible t (kv_bindings s') k = Some v))"
proof -
  have checks: "set_checks k v (Some c) now s = Inr (now + c)"
    using assms(4-6) by (simp add: set_checks_result [OF assms(2)])
  have ready: "log_ready (kv_storage s)"
    using kv_safeD [OF assms(1)] by (simp add: coherent_def)
  obtain s' where set: "kv_set no_append_faults now k v (Some c) s = (Status_success, s')"
    using kv_set_no_faults [OF checks ready] by (metis prod.collapse)
  have "kv_bindings s' = (kv_bindings s)(k \<mapsto> (v, now + c))"
    using assms(1,3) set by (cases rule: kv_set_cases) (use checks in simp_all)
  then have "visible t (kv_bindings s') k = Some v" for t
    using expiry_overflow [OF assms(8), of t] by (simp add: visible_def)
  moreover have "run_command percent (calm ps now) cmd s = (''OK'' @ [newline], False, s')"
    using set by (simp add: run_command_def assms(9))
  moreover have "parse (print_command cmd) = Inr cmd"
    by (rule parse_print_command) (simp add: assms(6,7,9) canonical_def ttl_seconds_def)
  ultimately show ?thesis by blast
qed

theorem ttl_overflow_never_expires_witness:
  "\<exists>s'. run_command (\<lambda>_. ''0.00'') (calm [] 1700000000000)
      \<lparr>cmd_type = CmdSet, cmd_key = ''k'', cmd_value = ''v'', cmd_ttl = Some 9223372036854775000\<rparr> swap_store =
      (''OK'' @ [newline], False, s') \<and> visible 9223372036854775807 (kv_bindings s') ''k'' = Some ''v''"
proof -
  have sint: "sint (9223372036854775000 :: i64) = 9223372036854775000" "sint (1700000000000 :: i64) = 1700000000000"
    by simp_all
  from ttl_overflow_never_expires [OF example_store(1,2) example_fits(1) example_keys(2) _ _ _ _ refl,
    where c = 9223372036854775000 and now = 1700000000000 and percent = "\<lambda>_. ''0.00''" and ps = "[]"]
  show ?thesis by (auto simp: sint format_constants)
qed

section \<open>The command language\<close>

text \<open>C30. The tokenizer reads back every list of strings, whatever bytes they hold, from its printed
  form (plain where possible, quoted with escapes where needed).\<close>

theorem tokenizer_round_trip:
  "tokenize (print_tokens ts) = Inr ts"
  by (rule tokenize_print)

text \<open>C31. Every command that the language can express parses back from its printed form.\<close>

theorem command_round_trip:
  assumes "canonical c"
  shows "parse (print_command c) = Inr c"
  using assms by (rule parse_print_command)

theorem command_round_trip_witness:
  "parse (print_command \<lparr>cmd_type = CmdSet, cmd_key = ''a b'', cmd_value = [CHR 0x22], cmd_ttl = Some 60000\<rparr>) =
    Inr \<lparr>cmd_type = CmdSet, cmd_key = ''a b'', cmd_value = [CHR 0x22], cmd_ttl = Some 60000\<rparr>"
  by (rule command_round_trip) (simp add: canonical_def ttl_seconds_def)

text \<open>C32. What the parser returns is well formed: only a SET carries a value or a TTL, only the
  commands on keys carry a key, and a TTL is a positive whole number of seconds, in milliseconds
  that have not overflowed.\<close>

theorem parsed_commands_canonical:
  assumes "parse line = Inr c"
  shows "(cmd_type c \<noteq> CmdSet \<longrightarrow> cmd_value c = [] \<and> cmd_ttl c = None) \<and>
    (cmd_type c \<in> {CmdStats, CmdCompact, CmdHelp, CmdExit} \<longrightarrow> cmd_key c = []) \<and>
    (\<forall>t. cmd_ttl c = Some t \<longrightarrow> 0 < sint t \<and> sint t mod 1000 = 0)"
  using parse_canonical [OF assms] by (auto simp: canonical_def ttl_seconds_def)

theorem parsed_commands_canonical_witness:
  "\<exists>c. parse ''get  k'' = Inr c \<and> cmd_value c = [] \<and> cmd_ttl c = None"
proof -
  have p: "parse ''get  k'' = Inr \<lparr>cmd_type = CmdGet, cmd_key = ''k'', cmd_value = [], cmd_ttl = None\<rparr>"
    by code_simp
  from parsed_commands_canonical [OF p] p show ?thesis by auto
qed

text \<open>C33. Every line that the parser rejects is reported as an invalid argument.\<close>

theorem parse_errors:
  assumes "parse line = Inl st"
  shows "status_code st = InvalidArgument"
  using assms by (rule parse_code)

theorem parse_errors_witness:
  "\<exists>st. parse ''SET k'' = Inl st \<and> status_code st = InvalidArgument"
proof -
  have p: "parse ''SET k'' = Inl (invalidArgument ''usage: SET key value [TTL seconds]'')"
    by code_simp
  from parse_errors [OF p] p show ?thesis by blast
qed

text \<open>C34. The options of the program, any of them, in any order and number, are read one after the other,
  and each sets exactly its own field, so that the last one of a kind counts and a field that no
  option names keeps its default. After them \<^verbatim>\<open>--help\<close> asks for the usage, and an argument that is
  no option is refused by name.\<close>

theorem options_round_trip:
  assumes "\<forall>opt \<in> set opts. option_ok opt"
  shows "parse_options (concat (map print_option opts)) config = OptionsOk (fold apply_option opts config) \<and>
    parse_options (concat (map print_option opts) @ ''--help'' # rest) config = OptionsHelp \<and>
    (arg \<notin> {''--help'', ''-h'', ''--data'', ''--cache'', ''--cleanup-ms''} \<longrightarrow>
      parse_options (concat (map print_option opts) @ arg # rest) config =
      OptionsError (''Unknown or incomplete argument: '' @ arg @ [newline]) True)"
  using parse_options_print [OF assms, of "[]" config] parse_options_print [OF assms, of "''--help'' # rest" config]
    parse_options_print [OF assms, of "arg # rest" config] parse_options_stops(1) [of rest] parse_options_stops(2) [of arg rest]
  by (simp add: unknown_argument_def del: parse_options.simps(2,3))

theorem options_round_trip_witness:
  "\<exists>cfg. parse_options [''--cleanup-ms'', to_string 250, ''--cache'', to_string 16, ''--cache'', to_string 8]
      default_config = OptionsOk cfg \<and> cfg_cacheCapacity cfg = 8 \<and> cfg_cleanupInterval cfg = 250 \<and>
      cfg_dataFile cfg = cfg_dataFile default_config"
  using options_round_trip [of "[CleanupOption 250, CacheOption 16, CacheOption 8]" default_config] by simp

section \<open>Shutdown of the cleaner\<close>

text \<open>C35. However the cleaner and \<^verbatim>\<open>close()\<close> interleave, spurious wake-ups included: the cleaner leaves its
  loop only after the stop request, and \<^verbatim>\<open>close()\<close> returns from \<^verbatim>\<open>join\<close> only after it has left.\<close>

theorem shutdown_joins:
  assumes "run shutdown_step shutdown_start actors s"
  shows "(sd_closer s = Joined \<longrightarrow> sd_cleaner s = Exited) \<and> (sd_cleaner s = Exited \<longrightarrow> sd_stop s) \<and>
    (sd_stop s \<longleftrightarrow> sd_closer s \<noteq> NotClosing)"
  using shutdown_reachable_ok [OF assms] unfolding shutdown_ok_def by blast

theorem shutdown_joins_witness:
  "\<exists>s. run shutdown_step shutdown_start [Closer, Closer, Cleaner, Closer] s \<and>
    sd_closer s = Joined \<and> sd_cleaner s = Exited"
proof -
  let ?s = "\<lparr>sd_stop = True, sd_cleaner = Exited, sd_closer = Joined\<rparr>"
  have run: "run shutdown_step shutdown_start [Closer, Closer, Cleaner, Closer] ?s"
    by (simp add: shutdown_cleaner_iff shutdown_closer_iff shutdown_start_def)
  from shutdown_joins [OF run] run show ?thesis by (intro exI [of _ ?s]) simp
qed

text \<open>C36. After the stop request the cleaner can always take a step until it has left its loop, and it
  takes at most four: \<^verbatim>\<open>close()\<close> returns as soon as the cleaner is scheduled often enough (one of the
  steps may be the timeout of its wait).\<close>

theorem shutdown_bound:
  assumes "run shutdown_step s actors s'" "sd_stop s"
  shows "length (filter (\<lambda>a. a = Cleaner) actors) \<le> 4 \<and>
    (sd_cleaner s' = Exited \<or> (\<exists>s''. shutdown_step s' Cleaner s''))"
proof -
  have "distance pc \<le> 4" for pc by (cases pc) simp_all
  then show ?thesis
    using cleaner_steps_bound [OF assms] cleaner_not_stuck [of s'] by (metis add_leD1 order_trans)
qed

theorem shutdown_bound_witness:
  "\<exists>s s'. sd_stop s \<and> run shutdown_step s [Cleaner, Cleaner] s' \<and>
    (\<exists>s''. shutdown_step s' Cleaner s'') \<and> sd_cleaner s' \<noteq> Exited"
proof -
  let ?s = "\<lparr>sd_stop = True, sd_cleaner = AboutToBlock, sd_closer = Notified\<rparr>"
  let ?t = "\<lparr>sd_stop = True, sd_cleaner = PredTest, sd_closer = Notified\<rparr>"
  have run: "run shutdown_step ?s [Cleaner, Cleaner] ?t"
    by (simp add: shutdown_cleaner_iff)
  from shutdown_bound [OF run] run show ?thesis
    by (intro exI [of _ ?s] exI [of _ ?t]) simp
qed



section \<open>Where the code falls short\<close>

text \<open>C38. A torn append is not undone. Let the write of a record fail after \<open>n\<close> bytes, its header complete
  and its payload not, and let a later append succeed. If the fragment and the new record are
  together shorter than the torn record, recovery succeeds but cuts both off: the acknowledged
  record is gone. Otherwise the scan reads the new record's bytes as the missing payload, and,
  unless that payload happens to have the torn record's 32-bit checksum, recovery refuses the
  whole file as corrupt at the torn record.\<close>

theorem torn_append_breaks_the_log:
  assumes "validRecord r" "validRecord r'" "28 \<le> n" "n < record_size r"
    and "data_file (disk s) = Some (log_bytes rs)" "\<forall>r \<in> set rs. validRecord r"
    and "length (log_bytes rs) + n + record_size r' < 2 ^ 63"
    and "appendRecordLocked (no_append_faults\<lparr>af_write := Some n\<rparr>) r s = (res1, s1)"
    and "appendRecordLocked no_append_faults r' s1 = (res2, s2)"
    and "recover no_recover_faults now s2 = (res3, s3)"
  shows "(\<exists>st. res1 = Inl st) \<and> (\<exists>md. res2 = Inr md) \<and>
    (n + record_size r' < record_size r \<longrightarrow> contents s3 = log_bytes rs \<and>
      res3 = Inr \<lparr>rs_index = replay now 0 rs [], rs_validRecords = of_nat (length rs),
                  rs_truncatedBytes = of_nat (n + record_size r')\<rparr>) \<and>
    (record_size r \<le> n + record_size r' \<and>
     recordChecksum (rec_op r) (rec_expiresAtMs r) (take (length (rec_key r)) (torn_payload n r r'))
       (drop (length (rec_key r)) (torn_payload n r r')) \<noteq>
     recordChecksum (rec_op r) (rec_expiresAtMs r) (rec_key r) (rec_value r) \<longrightarrow>
      res3 = Inl (corruption (''checksum mismatch at byte '' @ to_string (length (log_bytes rs)))))"
proof -
  note torn = torn_append_file [OF assms(1,2,5,8,9)]
  from torn(1,2) torn_append_lost [OF assms(1,3) _ torn(3) assms(6,7), of now]
    torn_append_refused [OF assms(1,3,4) _ _ torn(3) assms(6,7), of now] assms(10)
  show ?thesis by auto
qed

theorem torn_append_breaks_the_log_witness:
  "\<exists>res1 s1 res2 s2 res3 s3 res4 s4 st. appendRecordLocked (no_append_faults\<lparr>af_write := Some 29\<rparr>) rec_b
      (AppendOnlyStore_new ''d'' example_files) = (res1, s1) \<and>
    appendRecordLocked no_append_faults rec_a s1 = (res2, s2) \<and>
    fst (recover no_recover_faults 1 s2) = Inl st \<and> status_code st = Corruption \<and>
    appendRecordLocked (no_append_faults\<lparr>af_write := Some 28\<rparr>) (set_record ''b'' (replicate 40 CHR ''x'') 0)
      (AppendOnlyStore_new ''d'' example_files) = (res3, s3) \<and>
    appendRecordLocked no_append_faults rec_a s3 = (res4, s4) \<and> (\<exists>md. res4 = Inr md) \<and>
    contents (snd (recover no_recover_faults 1 s4)) = log_bytes [rec_b, rec_a]"
proof -
  let ?s = "AppendOnlyStore_new ''d'' example_files" and ?long = "set_record ''b'' (replicate 40 CHR ''x'') 0"
  have df: "data_file (disk ?s) = Some (log_bytes [rec_b, rec_a])"
    by (simp add: AppendOnlyStore_new_def example_files_def)
  have sizes: "length (log_bytes [rec_b, rec_a]) + 29 + record_size rec_a < 2 ^ 63"
    "length (log_bytes [rec_b, rec_a]) + 28 + record_size rec_a < 2 ^ 63"
    using example_sizes by (simp_all del: log_bytes_simps)
  have long: "validRecord ?long" "record_size ?long = 69"
    by (simp_all add: validRecord_def record_size_def format_constants)
  have rs: "\<forall>r \<in> set [rec_b, rec_a]. validRecord r" using example_valid by simp
  obtain res1 s1 where w1: "appendRecordLocked (no_append_faults\<lparr>af_write := Some 29\<rparr>) rec_b ?s = (res1, s1)"
    by fastforce
  obtain res2 s2 where w2: "appendRecordLocked no_append_faults rec_a s1 = (res2, s2)" by fastforce
  obtain r2 t2 where w2': "recover no_recover_faults 1 s2 = (r2, t2)" by fastforce
  obtain res3 s3 where w3: "appendRecordLocked (no_append_faults\<lparr>af_write := Some 28\<rparr>) ?long ?s = (res3, s3)"
    by fastforce
  obtain res4 s4 where w4: "appendRecordLocked no_append_faults rec_a s3 = (res4, s4)" by fastforce
  obtain r4 t4 where w4': "recover no_recover_faults 1 s4 = (r4, t4)" by fastforce
  have "\<exists>msg. r2 = Inl (corruption msg)"
    using torn_append_breaks_the_log [OF example_valid(1,2) _ _ df rs sizes(1) w1 w2 w2']
      torn_at_last_byte [OF example_valid(1), where w = "[]" and c = "CHR ''x''"] example_sizes by auto
  moreover have "(\<exists>md. res4 = Inr md) \<and> contents t4 = log_bytes [rec_b, rec_a]"
    using torn_append_breaks_the_log [OF long(1) example_valid(2) _ _ df rs sizes(2) w3 w4 w4']
      long(2) example_sizes by simp
  ultimately show ?thesis
    using w1 w2 w2' w3 w4 w4' by (auto simp: corruption_def)
qed

text \<open>C39. A compaction that fails after it has replaced the file (rename done, reopening failed), whatever
  faults led there, leaves the old index over the new file. A later GET of a key that the cache
  does not hold, and whose value is still visible, returns the bytes that the new file has at the
  value's old place, whatever record they belong to, or reports corruption where the new file is
  too short (the witness gets the value of another key).\<close>

theorem stranded_compaction_misreads:
  assumes "kv_safe s" "kv_opened s" "live_bytes (kv_index s) < 2 ^ 63"
    and "kv_compact io now s = (Inl st, s')" "contents (kv_storage s') \<noteq> contents (kv_storage s)"
    and "\<not> bad_key k" "map_of (kv_index s) k = Some md" "lru_lookup (kv_cache s) k = None"
    and "\<not> isExpired (md_expiresAtMs md) now" "\<not> isExpired (md_expiresAtMs md) t"
  shows "visible t (kv_bindings s) k = Some (slice (contents (kv_storage s)) md) \<and>
    contents (kv_storage s') = log_bytes (compacted_log now s) \<and>
    fst (kv_get no_value_faults t k s') =
      (if length (slice (contents (kv_storage s')) md) = unat (md_valueSize md)
       then Inr (slice (contents (kv_storage s')) md)
       else Inl (corruption ''value extends beyond the data file''))"
  using failed_compact_read [OF assms] assms(7,10) by (simp add: visible_def kv_bindings_def)

theorem stranded_compaction_misreads_witness:
  "\<exists>st s'. kv_compact reopen_fails 1 swap_store = (Inl st, s') \<and>
    visible 1 (kv_bindings swap_store) ''b'' = Some ''x'' \<and> fst (kv_get no_value_faults 1 ''b'' s') = Inr ''y''"
proof -
  obtain st s' where run: "kv_compact reopen_fails 1 swap_store = (Inl st, s')"
    and y: "slice (contents (kv_storage s')) (record_metadata 0 rec_b) = ''y''"
    by (rule swap_store_stranded)
  have new: "contents (kv_storage s') \<noteq> contents (kv_storage swap_store)"
    using y swap_store_slices(1) by auto
  have "lru_inv (kv_cache swap_store)"
    using kv_safeD [OF example_store(1)] by (simp add: coherent_def)
  then have none: "lru_lookup (kv_cache swap_store) ''b'' = None"
    using swap_store_facts(3) by (rule lru_empty_lookup)
  have "map_of (kv_index swap_store) ''b'' = Some (record_metadata 0 rec_b)"
    by (simp add: swap_store_facts(4))
  from stranded_compaction_misreads [OF example_store(1,2) example_live_bytes run new example_keys(1) this none, of 1]
    y run swap_store_slices(1) show ?thesis by (simp add: record_metadata_def)
qed

text \<open>C40. Recovery takes a short read for the end of the file: if the read of the first header delivers
  fewer bytes than the file has, recovery succeeds and truncates all of the file's valid records.\<close>

theorem short_read_loses_the_log:
  assumes "data_file (disk s) = Some (log_bytes (r # rs))" "length (log_bytes (r # rs)) < 2 ^ 63"
    and "rd 0 kRecordHeaderSize < kRecordHeaderSize"
  shows "\<exists>state s'. recover (no_recover_faults\<lparr>rf_read := rd\<rparr>) now s = (Inr state, s') \<and>
    rs_index state = [] \<and> contents s' = []"
  using assms by (rule short_read_truncates)

theorem short_read_loses_the_log_witness:
  "\<exists>state s'. recover (no_recover_faults\<lparr>rf_read := (\<lambda>_ _. 5)\<rparr>) 1 (AppendOnlyStore_new ''d'' example_files) =
    (Inr state, s') \<and> rs_index state = [] \<and> contents s' = []"
  by (rule short_read_loses_the_log [where r = rec_b and rs = "[rec_a]"])
    (use example_sizes in \<open>simp_all add: AppendOnlyStore_new_def example_files_def format_constants\<close>)

end
